(* ===== verification/Prelude.thy ===== *)
theory Prelude
  imports Main "HOL-Library.Word"
begin

unbundle bit_operations_syntax

section \<open>Machine types, crashes and shared lemmas\<close>

text \<open>
  What every component theory shares: the fixed-width integers of \<^verbatim>\<open>Std/Types.hpp\<close> as the
  32-bit target has them, the ways in which kernel code stops (\<^verbatim>\<open>Std/Forward.hpp\<close>), the
  outcome type of every operation that can stop, and lemmas about outcomes, words, lists of
  storage slots and maps.  Nothing here models a component.
\<close>

named_theorems outcome_simps \<open>unfolding and inversion of outcomes\<close>
named_theorems word_nat \<open>reading word expressions as natural numbers\<close>

subsection \<open>Integers\<close>

text \<open>\<^verbatim>\<open>usize\<close>, \<^verbatim>\<open>uptr\<close> and \<^verbatim>\<open>u32\<close> are 32 bits wide on the kernel target.\<close>

type_synonym u8 = "8 word"
type_synonym u16 = "16 word"
type_synonym u32 = "32 word"
type_synonym u64 = "64 word"
type_synonym usize = "32 word"
type_synonym uptr = "32 word"

subsection \<open>Crashes and outcomes\<close>

text \<open>
  \<^verbatim>\<open>ASSERT\<close>, \<^verbatim>\<open>VERIFY\<close>, \<^verbatim>\<open>FIXME\<close> and their variants all call \<^verbatim>\<open>Std::crash\<close>, which does
  not return; the string is the condition as written in the source.  \<open>UNDEFINED\<close> marks a step
  whose meaning the language leaves open (reading an object outside its lifetime, a null or
  dangling pointer).  \<open>DIVERGES\<close> is the value of a loop that has used up its fuel.
\<close>

datatype crash =
    ASSERT string
  | VERIFY string
  | ASSERT_NOT_REACHED
  | VERIFY_NOT_REACHED
  | FIXME
  | FIXME_ASSERT string
  | UNDEFINED string
  | DIVERGES

type_synonym 'a outcome = "crash + 'a"

definition bindE :: "'a outcome \<Rightarrow> ('a \<Rightarrow> 'b outcome) \<Rightarrow> 'b outcome" where
  "bindE m f = (case m of Inl e \<Rightarrow> Inl e | Inr x \<Rightarrow> f x)"

definition checkE :: "bool \<Rightarrow> crash \<Rightarrow> 'a outcome \<Rightarrow> 'a outcome" where
  "checkE b e k = (if b then k else Inl e)"

lemma bindE_Inr [simp]: "bindE (Inr x) f = f x"
  by (simp add: bindE_def)

lemma bindE_Inl [simp]: "bindE (Inl e) f = Inl e"
  by (simp add: bindE_def)

lemma checkE_True [simp]: "checkE True e k = k"
  by (simp add: checkE_def)

lemma checkE_False [simp]: "checkE False e k = Inl e"
  by (simp add: checkE_def)

lemma bindE_eq_Inr [outcome_simps]:
  "bindE m f = Inr y \<longleftrightarrow> (\<exists>x. m = Inr x \<and> f x = Inr y)"
  by (simp add: bindE_def split: sum.splits)

lemma bindE_eq_Inl [outcome_simps]:
  "bindE m f = Inl e \<longleftrightarrow> m = Inl e \<or> (\<exists>x. m = Inr x \<and> f x = Inl e)"
  by (auto simp add: bindE_def split: sum.splits)

lemma checkE_eq_Inr [outcome_simps]: "checkE b e k = Inr y \<longleftrightarrow> b \<and> k = Inr y"
  by (simp add: checkE_def)

lemma checkE_eq_Inl [outcome_simps]:
  "checkE b e k = Inl c \<longleftrightarrow> (\<not> b \<and> c = e) \<or> (b \<and> k = Inl c)"
  by (auto simp add: checkE_def)

lemma bindE_assoc: "bindE (bindE m f) g = bindE m (\<lambda>x. bindE (f x) g)"
  by (simp add: bindE_def split: sum.splits)

lemma bindE_cong [fundef_cong]:
  "m = m' \<Longrightarrow> (\<And>x. m' = Inr x \<Longrightarrow> f x = f' x) \<Longrightarrow> bindE m f = bindE m' f'"
  by (simp add: bindE_def split: sum.splits)

lemma checkE_cong [fundef_cong]:
  "b = b' \<Longrightarrow> e = e' \<Longrightarrow> (b' \<Longrightarrow> k = k') \<Longrightarrow> checkE b e k = checkE b' e' k'"
  by (simp add: checkE_def)

subsection \<open>Raw storage\<close>

text \<open>
  Raw storage for objects of a class type is a list of slots: \<open>Some v\<close> holds a living object,
  \<open>None\<close> is memory before construction or after the destructor call.
\<close>

definition slot_read :: "'a option list \<Rightarrow> usize \<Rightarrow> 'a outcome" where
  "slot_read data i =
     (if unat i < length data
      then (case data ! unat i of
              Some v \<Rightarrow> Inr v
            | None \<Rightarrow> Inl (UNDEFINED ''object outside its lifetime''))
      else Inl (UNDEFINED ''out of bounds''))"

lemma slot_read_Some [simp]:
  "unat i < length data \<Longrightarrow> data ! unat i = Some v \<Longrightarrow> slot_read data i = Inr v"
  by (simp add: slot_read_def)

subsection \<open>Words as natural numbers\<close>

lemma word_of_nat_unat_eq: "w = of_nat n \<Longrightarrow> n < 2 ^ 32 \<Longrightarrow> unat (w :: u32) = n"
  by (simp add: unat_of_nat)

lemma unat_inc [word_nat]: "unat (w :: u32) < n \<Longrightarrow> n < 2 ^ 32 \<Longrightarrow> unat (w + 1) = Suc (unat w)"
proof -
  assume "unat w < n" and "n < 2 ^ 32"
  then have "Suc (unat w) < 2 ^ 32" by simp
  moreover have "w + 1 = of_nat (Suc (unat w))" by simp
  ultimately show ?thesis by (metis word_of_nat_unat_eq)
qed

lemma unat_dec [word_nat]: "0 < unat (w :: u32) \<Longrightarrow> unat (w - 1) = unat w - 1"
  by (metis Suc_pred' diff_Suc_1 of_nat_1 of_nat_Suc unat_eq_zero unat_minus_one
        less_numeral_extra(3))

lemma unat_bound32 [simp]: "unat (w :: u32) < 4294967296"
  using unsigned_less [of w] by simp

lemma unat_add_small:
  "unat (a :: u32) + unat b < 2 ^ 32 \<Longrightarrow> unat (a + b) = unat a + unat b"
  by (simp add: unat_word_ariths)

lemma unat_sub_small:
  "unat (b :: u32) \<le> unat a \<Longrightarrow> unat (a - b) = unat a - unat b"
  by (simp add: unat_sub word_le_nat_alt)

end
