(* ===== verification/Interfaces.thy ===== *)
theory Interfaces
  imports Prelude
begin

section \<open>The contracts that components rely on\<close>

text \<open>
  One locale per interface.  The operations a client calls are the parameters, the laws its
  provider promises are the assumptions, and what clients need from the laws is proved once in
  the body.  Each locale is interpreted in the theory of the component that provides it.
\<close>

subsection \<open>A bounded first-in first-out queue\<close>

text \<open>
  What the scheduler, the mutex, the system handler and the process records need from
  \<^verbatim>\<open>CircularQueue\<close>: an operation on a full or an empty queue stops the kernel.
\<close>

locale bounded_fifo =
  fixes enq :: "'a \<Rightarrow> 'q \<Rightarrow> ('a \<times> 'q) outcome"
    and deq :: "'q \<Rightarrow> ('a \<times> 'q) outcome"
    and items :: "'q \<Rightarrow> 'a list"
    and cap :: "'q \<Rightarrow> nat"
    and wf :: "'q \<Rightarrow> bool"
  assumes enq_room: "wf q \<Longrightarrow> length (items q) < cap q \<Longrightarrow>
      \<exists>q'. enq x q = Inr (x, q') \<and> wf q' \<and> items q' = items q @ [x] \<and> cap q' = cap q"
    and enq_full: "wf q \<Longrightarrow> length (items q) = cap q \<Longrightarrow> \<exists>e. enq x q = Inl e"
    and deq_some: "wf q \<Longrightarrow> items q = x # xs \<Longrightarrow>
      \<exists>q'. deq q = Inr (x, q') \<and> wf q' \<and> items q' = xs \<and> cap q' = cap q"
    and deq_none: "wf q \<Longrightarrow> items q = [] \<Longrightarrow> \<exists>e. deq q = Inl e"
    and bounded: "wf q \<Longrightarrow> length (items q) \<le> cap q"
begin

lemma enqD:
  assumes "wf q" and "enq x q = Inr (r, q')"
  shows "length (items q) < cap q" and "r = x" and "wf q'"
    and "items q' = items q @ [x]" and "cap q' = cap q"
proof -
  show room: "length (items q) < cap q"
    using bounded[OF assms(1)] enq_full[OF assms(1), of x] assms(2) by force
  show "r = x" and "wf q'" and "items q' = items q @ [x]" and "cap q' = cap q"
    using enq_room[OF assms(1) room, of x] assms(2) by auto
qed

lemma deqD:
  assumes "wf q" and "deq q = Inr (x, q')"
  shows "items q = x # items q'" and "wf q'" and "cap q' = cap q"
proof -
  obtain y ys where "items q = y # ys"
    using deq_none[OF assms(1)] assms(2) by (cases "items q") auto
  with deq_some[OF assms(1) this] assms(2)
  show "items q = x # items q'" and "wf q'" and "cap q' = cap q" by auto
qed

lemma deq_succeeds: "wf q \<Longrightarrow> items q \<noteq> [] \<Longrightarrow> \<exists>x q'. deq q = Inr (x, q')"
  using deq_some by (cases "items q") fastforce+

text \<open>Taking the first element out makes the room that putting it back needs.\<close>

lemma requeue:
  assumes "wf q" and "deq q = Inr (x, q')"
  shows "\<exists>q''. enq x q' = Inr (x, q'') \<and> wf q'' \<and> items q'' = rotate1 (items q) \<and> cap q'' = cap q"
proof -
  note d = deqD[OF assms]
  have "length (items q') < cap q'" using bounded[OF assms(1)] d by simp
  from enq_room[OF d(2) this, of x] d show ?thesis by auto
qed

end

subsection \<open>A container of elements identified by a key\<close>

text \<open>
  What \<^verbatim>\<open>HashTable\<close> and \<^verbatim>\<open>HashMap\<close> need from the set that stores their nodes: it is a finite map
  from keys to elements, related to the state by \<open>rel\<close>, and none of its operations crashes.
\<close>

locale keyed_container =
  fixes ins :: "'s \<Rightarrow> 'a \<Rightarrow> 's outcome"
    and del :: "'s \<Rightarrow> 'a \<Rightarrow> 's outcome"
    and srch :: "'s \<Rightarrow> 'a \<Rightarrow> 'a option outcome"
    and clr :: "'s \<Rightarrow> 's outcome"
    and count :: "'s \<Rightarrow> usize"
    and key :: "'a \<Rightarrow> 'k"
    and rel :: "'s \<Rightarrow> ('k \<rightharpoonup> 'a) \<Rightarrow> bool"
  assumes ins_law: "rel s m \<Longrightarrow> \<exists>s'. ins s v = Inr s' \<and> rel s' (m(key v \<mapsto> v))"
    and del_law: "rel s m \<Longrightarrow> \<exists>s'. del s v = Inr s' \<and> rel s' (m(key v := None))"
    and srch_law: "rel s m \<Longrightarrow> srch s v = Inr (m (key v))"
    and clr_law: "rel s m \<Longrightarrow> \<exists>s'. clr s = Inr s' \<and> rel s' Map.empty"
    and count_law: "rel s m \<Longrightarrow> finite (dom m) \<and> count s = of_nat (card (dom m))"
begin

lemma insD: "rel s m \<Longrightarrow> ins s v = Inr s' \<Longrightarrow> rel s' (m(key v \<mapsto> v))"
  using ins_law[of s m v] by auto

lemma delD: "rel s m \<Longrightarrow> del s v = Inr s' \<Longrightarrow> rel s' (m(key v := None))"
  using del_law[of s m v] by auto

lemma srch_after_ins:
  "rel s m \<Longrightarrow> ins s v = Inr s' \<Longrightarrow> srch s' w = (if key w = key v then Inr (Some v) else srch s w)"
  using srch_law[OF insD] srch_law by simp

lemma srch_after_del:
  "rel s m \<Longrightarrow> del s v = Inr s' \<Longrightarrow> srch s' w = (if key w = key v then Inr None else srch s w)"
  using srch_law[OF delD] srch_law by simp

end

end
