(* ===== verification/Circular_Queue.thy ===== *)
theory Circular_Queue
  imports Interfaces
begin

section \<open>Std/CircularQueue.hpp: the ring buffer\<close>

text \<open>
  \<^verbatim>\<open>CircularQueue<T, Size>\<close> as a record: the offset of the next free slot, the number of
  elements and the raw storage.  The template parameter \<^verbatim>\<open>Size\<close> is the length of the storage.
  Offsets are computed on 32-bit words with the wrap-around of the source.  The second half
  shows that, whenever the storage has at most \<open>2 ^ 31\<close> slots, the operations are those of a
  bounded FIFO list, and offers them through the locale \<open>bounded_fifo\<close>.
\<close>

subsection \<open>State and operations\<close>

record 'a CircularQueue =
  cq_m_offset :: usize
  cq_m_size :: usize
  cq_m_data :: "'a option list"

definition CircularQueue_capacity :: "'a CircularQueue \<Rightarrow> usize" where
  "CircularQueue_capacity q = of_nat (length (cq_m_data q))"

definition CircularQueue_new :: "nat \<Rightarrow> 'a CircularQueue" where
  "CircularQueue_new Size =
     \<lparr>cq_m_offset = 0, cq_m_size = 0, cq_m_data = replicate Size None\<rparr>"

definition CircularQueue_size :: "'a CircularQueue \<Rightarrow> usize" where
  "CircularQueue_size q = cq_m_size q"

definition CircularQueue_avaliable :: "'a CircularQueue \<Rightarrow> usize" where
  "CircularQueue_avaliable q = CircularQueue_capacity q - CircularQueue_size q"

definition CircularQueue_front_offset :: "'a CircularQueue \<Rightarrow> usize" where
  "CircularQueue_front_offset q =
     (cq_m_offset q - cq_m_size q + CircularQueue_capacity q) mod CircularQueue_capacity q"

definition CircularQueue_front :: "'a CircularQueue \<Rightarrow> 'a outcome" where
  "CircularQueue_front q =
     checkE (cq_m_size q > 0) (ASSERT ''m_size > 0'')
       (slot_read (cq_m_data q) (CircularQueue_front_offset q))"

definition CircularQueue_back :: "'a CircularQueue \<Rightarrow> 'a outcome" where
  "CircularQueue_back q =
     checkE (cq_m_size q > 0) (ASSERT ''m_size > 0'')
       (let offset = (cq_m_offset q - 1 + CircularQueue_capacity q) mod CircularQueue_capacity q
        in slot_read (cq_m_data q) offset)"

definition CircularQueue_at :: "'a CircularQueue \<Rightarrow> usize \<Rightarrow> 'a outcome" where
  "CircularQueue_at q index =
     checkE (cq_m_size q > index) (ASSERT ''m_size > index'')
       (let offset = (cq_m_offset q - cq_m_size q + index + CircularQueue_capacity q)
                       mod CircularQueue_capacity q
        in slot_read (cq_m_data q) offset)"

text \<open>Both enqueue operations return a reference to the new element, here its value.\<close>

definition CircularQueue_enqueue :: "'a \<Rightarrow> 'a CircularQueue \<Rightarrow> ('a \<times> 'a CircularQueue) outcome" where
  "CircularQueue_enqueue v q =
     checkE (cq_m_size q < CircularQueue_capacity q) (ASSERT ''m_size < Size'')
     (checkE (cq_m_offset q < CircularQueue_capacity q) (ASSERT ''m_offset < Size'')
       (let q' = q\<lparr>cq_m_data := (cq_m_data q)[unat (cq_m_offset q) := Some v],
                   cq_m_offset := (cq_m_offset q + 1) mod CircularQueue_capacity q,
                   cq_m_size := cq_m_size q + 1\<rparr>
        in bindE (CircularQueue_back q') (\<lambda>r. Inr (r, q'))))"

definition CircularQueue_enqueue_front ::
  "'a \<Rightarrow> 'a CircularQueue \<Rightarrow> ('a \<times> 'a CircularQueue) outcome" where
  "CircularQueue_enqueue_front v q =
     checkE (cq_m_size q < CircularQueue_capacity q) (ASSERT ''m_size < Size'')
     (checkE (cq_m_offset q < CircularQueue_capacity q) (ASSERT ''m_offset < Size'')
       (let offset = (cq_m_offset q - cq_m_size q - 1 + CircularQueue_capacity q)
                       mod CircularQueue_capacity q;
            q' = q\<lparr>cq_m_data := (cq_m_data q)[unat offset := Some v],
                   cq_m_size := cq_m_size q + 1\<rparr>
        in bindE (CircularQueue_front q') (\<lambda>r. Inr (r, q'))))"

text \<open>\<^verbatim>\<open>dequeue\<close> moves the front element out and calls its destructor, which ends its slot.\<close>

definition CircularQueue_dequeue :: "'a CircularQueue \<Rightarrow> ('a \<times> 'a CircularQueue) outcome" where
  "CircularQueue_dequeue q =
     bindE (CircularQueue_front q) (\<lambda>value.
       Inr (value, q\<lparr>cq_m_data := (cq_m_data q)[unat (CircularQueue_front_offset q) := None],
                     cq_m_size := cq_m_size q - 1\<rparr>))"

fun CircularQueue_clear_loop :: "nat \<Rightarrow> 'a CircularQueue \<Rightarrow> 'a CircularQueue outcome" where
  "CircularQueue_clear_loop 0 q = Inr q"
| "CircularQueue_clear_loop (Suc count) q =
     bindE (CircularQueue_front q) (\<lambda>_.
       CircularQueue_clear_loop count
         (q\<lparr>cq_m_data := (cq_m_data q)[unat (CircularQueue_front_offset q) := None],
            cq_m_size := cq_m_size q - 1\<rparr>))"

definition CircularQueue_clear :: "'a CircularQueue \<Rightarrow> 'a CircularQueue outcome" where
  "CircularQueue_clear q = CircularQueue_clear_loop (unat (cq_m_size q)) q"

text \<open>Move assignment returns both queues: the target and the emptied source.\<close>

fun CircularQueue_move_loop ::
  "nat \<Rightarrow> 'a CircularQueue \<Rightarrow> 'a CircularQueue \<Rightarrow> ('a CircularQueue \<times> 'a CircularQueue) outcome"
where
  "CircularQueue_move_loop 0 q other = Inr (q, other)"
| "CircularQueue_move_loop (Suc count) q other =
     bindE (CircularQueue_dequeue other) (\<lambda>(v, other').
     bindE (CircularQueue_enqueue v q) (\<lambda>(_, q').
       CircularQueue_move_loop count q' other'))"

definition CircularQueue_move_assign ::
  "'a CircularQueue \<Rightarrow> 'a CircularQueue \<Rightarrow> ('a CircularQueue \<times> 'a CircularQueue) outcome" where
  "CircularQueue_move_assign q other =
     bindE (CircularQueue_clear q) (\<lambda>q.
     bindE (CircularQueue_move_loop (unat (cq_m_size other)) q other) (\<lambda>(q, other).
       checkE (cq_m_size other = 0) (ASSERT ''other.m_size == 0'') (Inr (q, other))))"

subsection \<open>Ring positions\<close>

text \<open>The slot that lies \<open>d\<close> places before offset \<open>o\<close> in a ring of \<open>S\<close> slots.\<close>

definition ring_back :: "nat \<Rightarrow> nat \<Rightarrow> nat \<Rightarrow> nat" where
  "ring_back S p d = (p + S - d) mod S"

lemma ring_back_less [simp]: "0 < S \<Longrightarrow> ring_back S p d < S"
  by (simp add: ring_back_def)

lemma ring_back_eq:
  "p < S \<Longrightarrow> d \<le> S \<Longrightarrow> ring_back S p d = (if d \<le> p then p - d else p + S - d)"
  by (auto simp: ring_back_def mod_if)

lemma ring_back_advance:
  "p < S \<Longrightarrow> d < S \<Longrightarrow> ring_back S ((p + 1) mod S) (Suc d) = ring_back S p d"
  by (cases "p + 1 = S") (auto simp: ring_back_eq)

lemma ring_back_inj:
  "p < S \<Longrightarrow> d \<le> S \<Longrightarrow> e \<le> S \<Longrightarrow> 0 < d \<Longrightarrow> 0 < e \<Longrightarrow>
   ring_back S p d = ring_back S p e \<Longrightarrow> d = e"
  by (auto simp: ring_back_eq split: if_splits)

lemma ring_back_not_self: "p < S \<Longrightarrow> 0 < d \<Longrightarrow> d < S \<Longrightarrow> ring_back S p d \<noteq> p"
  by (auto simp: ring_back_eq)

text \<open>The source's word expression for that slot never wraps when \<open>2 * S\<close> fits in 32 bits.\<close>

lemma ring_offset_word:
  assumes "unat (p::u32) < S" and "d \<le> S" and "2 * S \<le> 2 ^ 32"
  shows "unat ((p - of_nat d + of_nat S) mod of_nat S) = ring_back S (unat p) d"
proof -
  have "p - of_nat d + of_nat S = (of_nat (unat p + S - d) :: u32)"
    using assms by (simp add: of_nat_diff)
  moreover have "unat p + S - d < 2 ^ 32" and "S < 2 ^ 32" using assms by auto
  ultimately show ?thesis
    by (simp add: ring_back_def unat_mod_distrib unat_of_nat)
qed

subsection \<open>Well-formed queues and the list they hold\<close>

definition CircularQueue_pos :: "'a CircularQueue \<Rightarrow> nat \<Rightarrow> nat" where
  "CircularQueue_pos q d = ring_back (length (cq_m_data q)) (unat (cq_m_offset q)) d"

text \<open>A slot is alive exactly if it is one of the \<open>m_size\<close> slots before \<open>m_offset\<close>.\<close>

definition CircularQueue_inv :: "'a CircularQueue \<Rightarrow> bool" where
  "CircularQueue_inv q \<longleftrightarrow>
     (let S = length (cq_m_data q) in
        2 * S \<le> 2 ^ 32 \<and> unat (cq_m_offset q) < S \<and> unat (cq_m_size q) \<le> S \<and>
        (\<forall>d \<in> {1..S}.
           (cq_m_data q ! CircularQueue_pos q d \<noteq> None) = (d \<le> unat (cq_m_size q))))"

definition CircularQueue_items :: "'a CircularQueue \<Rightarrow> 'a list" where
  "CircularQueue_items q =
     map (\<lambda>i. the (cq_m_data q ! CircularQueue_pos q (unat (cq_m_size q) - i)))
       [0..<unat (cq_m_size q)]"

lemma CircularQueue_inv_eval:
  "CircularQueue_inv q \<longleftrightarrow>
     2 * length (cq_m_data q) \<le> 2 ^ 32 \<and> unat (cq_m_offset q) < length (cq_m_data q) \<and>
     unat (cq_m_size q) \<le> length (cq_m_data q) \<and>
     list_all (\<lambda>d. (cq_m_data q ! CircularQueue_pos q d \<noteq> None) = (d \<le> unat (cq_m_size q)))
       [1..<Suc (length (cq_m_data q))]"
  by (simp only: CircularQueue_inv_def Let_def list_all_iff set_upt atLeastLessThanSuc_atLeastAtMost)

lemma length_items [simp]: "length (CircularQueue_items q) = unat (cq_m_size q)"
  by (simp add: CircularQueue_items_def)

lemma CircularQueue_invD:
  assumes "CircularQueue_inv q"
  shows "2 * length (cq_m_data q) \<le> 2 ^ 32"
    and "unat (cq_m_offset q) < length (cq_m_data q)"
    and "unat (cq_m_size q) \<le> length (cq_m_data q)"
    and "0 < d \<Longrightarrow> d \<le> length (cq_m_data q) \<Longrightarrow>
         (cq_m_data q ! CircularQueue_pos q d = None) = (unat (cq_m_size q) < d)"
  using assms unfolding CircularQueue_inv_def Let_def
  by (simp_all del: not_None_eq) (metis One_nat_def Suc_leI atLeastAtMost_iff not_less)

lemma CircularQueue_capacity_nat [word_nat]:
  "CircularQueue_inv q \<Longrightarrow> unat (CircularQueue_capacity q) = length (cq_m_data q)"
  using CircularQueue_invD(1)[of q]
  by (simp add: CircularQueue_capacity_def unat_of_nat)

lemma CircularQueue_slot:
  assumes inv: "CircularQueue_inv q" and d: "0 < d" "d \<le> unat (cq_m_size q)"
  shows "cq_m_data q ! CircularQueue_pos q d
           = Some (CircularQueue_items q ! (unat (cq_m_size q) - d))"
proof -
  have "cq_m_data q ! CircularQueue_pos q d \<noteq> None"
    using CircularQueue_invD(3,4)[OF inv] d by auto
  then show ?thesis using d by (simp add: CircularQueue_items_def)
qed

lemma CircularQueue_offset_word:
  assumes "CircularQueue_inv q" and "d \<le> length (cq_m_data q)"
  shows "unat ((cq_m_offset q - of_nat d + CircularQueue_capacity q) mod CircularQueue_capacity q)
           = CircularQueue_pos q d"
  using CircularQueue_invD[OF assms(1)] assms(2)
  by (simp add: CircularQueue_capacity_def CircularQueue_pos_def ring_offset_word)

lemma CircularQueue_front_offset_pos:
  "CircularQueue_inv q \<Longrightarrow>
   unat (CircularQueue_front_offset q) = CircularQueue_pos q (unat (cq_m_size q))"
  using CircularQueue_offset_word[of q "unat (cq_m_size q)"] CircularQueue_invD(3)[of q]
  by (simp add: CircularQueue_front_offset_def)

lemma CircularQueue_pos_less:
  "CircularQueue_inv q \<Longrightarrow> CircularQueue_pos q d < length (cq_m_data q)"
  using CircularQueue_invD(2)[of q] unfolding CircularQueue_pos_def by (intro ring_back_less) auto

subsection \<open>Reading operations\<close>

lemma CircularQueue_front_eq:
  assumes inv: "CircularQueue_inv q"
  shows "CircularQueue_front q =
     (case CircularQueue_items q of [] \<Rightarrow> Inl (ASSERT ''m_size > 0'') | x # _ \<Rightarrow> Inr x)"
proof (cases "unat (cq_m_size q)")
  case 0
  then have "cq_m_size q = 0" by (simp add: unat_eq_zero)
  then show ?thesis by (simp add: CircularQueue_front_def CircularQueue_items_def)
next
  case (Suc n)
  then have "cq_m_size q > 0" by (metis unat_0 word_gt_0 nat.distinct(1))
  moreover obtain x xs where x: "CircularQueue_items q = x # xs"
    using Suc length_items[of q] by (cases "CircularQueue_items q") auto
  ultimately show ?thesis
    using CircularQueue_slot[OF inv, of "unat (cq_m_size q)"] Suc CircularQueue_pos_less[OF inv]
    by (simp add: CircularQueue_front_def slot_read_def CircularQueue_front_offset_pos[OF inv])
qed

lemma CircularQueue_at_eq:
  assumes inv: "CircularQueue_inv q"
  shows "CircularQueue_at q i =
     (if unat i < length (CircularQueue_items q) then Inr (CircularQueue_items q ! unat i)
      else Inl (ASSERT ''m_size > index''))"
proof (cases "unat i < unat (cq_m_size q)")
  case True
  let ?d = "unat (cq_m_size q) - unat i"
  have "cq_m_offset q - cq_m_size q + i = cq_m_offset q - of_nat ?d"
    using True by (simp add: of_nat_diff)
  then have "unat ((cq_m_offset q - cq_m_size q + i + CircularQueue_capacity q)
                mod CircularQueue_capacity q) = CircularQueue_pos q ?d"
    using CircularQueue_offset_word[OF inv, of ?d] CircularQueue_invD(3)[OF inv]
    by (simp only: diff_le_self le_trans)
  moreover have "cq_m_size q > i" using True by (simp add: word_less_nat_alt)
  ultimately show ?thesis
    using CircularQueue_slot[OF inv, of ?d] CircularQueue_pos_less[OF inv, of ?d] True
    by (simp add: CircularQueue_at_def slot_read_def)
next
  case False
  then have "\<not> cq_m_size q > i" by (simp add: word_less_nat_alt)
  then show ?thesis using False by (simp add: CircularQueue_at_def)
qed

lemma CircularQueue_back_eq:
  assumes inv: "CircularQueue_inv q"
  shows "CircularQueue_back q =
     (if CircularQueue_items q = [] then Inl (ASSERT ''m_size > 0'')
      else Inr (last (CircularQueue_items q)))"
proof (cases "unat (cq_m_size q)")
  case 0
  then have "cq_m_size q = 0" by (simp add: unat_eq_zero)
  then show ?thesis by (simp add: CircularQueue_back_def CircularQueue_items_def)
next
  case (Suc n)
  then have "cq_m_size q > 0" by (metis unat_0 word_gt_0 nat.distinct(1))
  moreover have "CircularQueue_items q \<noteq> []" using Suc length_items[of q] by force
  moreover have "1 \<le> length (cq_m_data q)" using CircularQueue_invD(2)[OF inv] by simp
  ultimately show ?thesis
    using CircularQueue_slot[OF inv, of 1] CircularQueue_offset_word[OF inv, of 1]
      CircularQueue_pos_less[OF inv] Suc
    by (simp add: CircularQueue_back_def slot_read_def last_conv_nth)
qed

subsection \<open>Writing operations\<close>

text \<open>
  Every writing operation stores into one slot and moves one end of the occupied range, so its
  correctness follows from which slot each distance denotes before and after.
\<close>

lemma CircularQueue_slot_eq:
  assumes inv: "CircularQueue_inv q" and d: "0 < d" "d \<le> length (cq_m_data q)"
  shows "cq_m_data q ! CircularQueue_pos q d =
    (if d \<le> unat (cq_m_size q)
     then Some (CircularQueue_items q ! (unat (cq_m_size q) - d)) else None)"
  using CircularQueue_slot[OF inv d(1)] CircularQueue_invD(4)[OF inv d] by simp

lemma CircularQueue_repI:
  assumes "2 * length (cq_m_data q) \<le> 2 ^ 32"
    and off: "unat (cq_m_offset q) < length (cq_m_data q)"
    and len: "length xs = unat (cq_m_size q)" "length xs \<le> length (cq_m_data q)"
    and slot: "\<And>d. 0 < d \<Longrightarrow> d \<le> length (cq_m_data q) \<Longrightarrow>
      cq_m_data q ! CircularQueue_pos q d =
        (if d \<le> length xs then Some (xs ! (length xs - d)) else None)"
  shows "CircularQueue_inv q" and "CircularQueue_items q = xs"
proof -
  show "CircularQueue_inv q"
    using assms(1) off len slot by (simp add: CircularQueue_inv_def Let_def)
  show "CircularQueue_items q = xs"
  proof (rule nth_equalityI)
    fix i assume "i < length (CircularQueue_items q)"
    then show "CircularQueue_items q ! i = xs ! i"
      using len slot[of "length xs - i"] by (simp add: CircularQueue_items_def)
  qed (simp add: len)
qed

lemma word_pos_iff: "(0 < (w::u32)) = (0 < unat w)"
  by (simp add: word_less_nat_alt)

lemma CircularQueue_enqueue_state:
  fixes q v
  defines "q' \<equiv> q\<lparr>cq_m_data := (cq_m_data q)[unat (cq_m_offset q) := Some v],
                    cq_m_offset := (cq_m_offset q + 1) mod CircularQueue_capacity q,
                    cq_m_size := cq_m_size q + 1\<rparr>"
  assumes inv: "CircularQueue_inv q" and room: "unat (cq_m_size q) < length (cq_m_data q)"
  shows "CircularQueue_inv q'" and "CircularQueue_items q' = CircularQueue_items q @ [v]"
proof -
  let ?S = "length (cq_m_data q)" and ?p = "unat (cq_m_offset q)"
  note D = CircularQueue_invD[OF inv]
  have S: "?S < 2 ^ 32" using D(1,2) by simp
  have size': "unat (cq_m_size q') = Suc (unat (cq_m_size q))"
    using unat_inc[OF room S] by (simp add: q'_def)
  have off': "unat (cq_m_offset q') = (?p + 1) mod ?S"
    using unat_inc[OF D(2) S] CircularQueue_capacity_nat[OF inv]
    by (simp add: q'_def unat_mod_distrib)
  have pos': "CircularQueue_pos q' (Suc d) = CircularQueue_pos q d" if "d < ?S" for d
    using ring_back_advance[OF D(2) that] off' by (simp add: CircularQueue_pos_def q'_def)
  have slot': "cq_m_data q' ! CircularQueue_pos q' d =
      (if d \<le> length (CircularQueue_items q @ [v])
       then Some ((CircularQueue_items q @ [v]) ! (length (CircularQueue_items q @ [v]) - d))
       else None)" if d: "0 < d" "d \<le> length (cq_m_data q')" for d
  proof -
    obtain e where e: "d = Suc e" "e < ?S" using d by (cases d) (auto simp: q'_def)
    show ?thesis
    proof (cases "e = 0")
      case True
      then have "CircularQueue_pos q' d = ?p"
        using pos'[OF e(2)] e(1) D(2) by (simp add: CircularQueue_pos_def ring_back_def)
      then show ?thesis using True e D(2) by (simp add: q'_def nth_append)
    next
      case False
      then have "CircularQueue_pos q e \<noteq> ?p"
        using ring_back_not_self[OF D(2)] e(2) by (simp add: CircularQueue_pos_def)
      then show ?thesis
        using pos'[OF e(2)] CircularQueue_slot_eq[OF inv, of e] False e
        by (simp add: q'_def nth_append Suc_diff_le)
    qed
  qed
  have "unat (cq_m_offset q') < length (cq_m_data q')"
    using off' D(2) by (simp add: q'_def) (metis gr_implies_not0 mod_less_divisor neq0_conv)
  with slot' show "CircularQueue_inv q'"
    and "CircularQueue_items q' = CircularQueue_items q @ [v]"
    using CircularQueue_repI[of q' "CircularQueue_items q @ [v]"] D(1) size' room
    by (simp_all add: q'_def)
qed

lemma CircularQueue_enqueue_ok:
  assumes inv: "CircularQueue_inv q" and room: "unat (cq_m_size q) < length (cq_m_data q)"
  shows "\<exists>q'. CircularQueue_enqueue v q = Inr (v, q') \<and> CircularQueue_inv q' \<and>
    CircularQueue_items q' = CircularQueue_items q @ [v] \<and>
    length (cq_m_data q') = length (cq_m_data q)"
  using CircularQueue_enqueue_state[OF inv room, of v] room
    CircularQueue_back_eq[OF CircularQueue_enqueue_state(1)[OF inv room, of v]]
    CircularQueue_invD(2)[OF inv] CircularQueue_capacity_nat[OF inv]
  by (simp add: CircularQueue_enqueue_def Let_def word_less_nat_alt)

lemma CircularQueue_enqueue_full:
  assumes "CircularQueue_inv q" and "unat (cq_m_size q) = length (cq_m_data q)"
  shows "CircularQueue_enqueue v q = Inl (ASSERT ''m_size < Size'')"
  using assms CircularQueue_capacity_nat[OF assms(1)]
  by (simp add: CircularQueue_enqueue_def word_less_nat_alt)

lemma CircularQueue_enqueue_front_state:
  fixes q v
  defines "slot \<equiv> (cq_m_offset q - cq_m_size q - 1 + CircularQueue_capacity q)
                      mod CircularQueue_capacity q"
  defines "q' \<equiv> q\<lparr>cq_m_data := (cq_m_data q)[unat slot := Some v],
                    cq_m_size := cq_m_size q + 1\<rparr>"
  assumes inv: "CircularQueue_inv q" and room: "unat (cq_m_size q) < length (cq_m_data q)"
  shows "CircularQueue_inv q'" and "CircularQueue_items q' = v # CircularQueue_items q"
proof -
  let ?S = "length (cq_m_data q)" and ?n = "unat (cq_m_size q)"
  note D = CircularQueue_invD[OF inv]
  have "?S < 2 ^ 32" using D(1,2) by simp
  from unat_inc[OF room this] have size': "unat (cq_m_size q') = Suc ?n" by (simp add: q'_def)
  have "cq_m_offset q - cq_m_size q - 1 = cq_m_offset q - of_nat (Suc ?n)" by simp
  with CircularQueue_offset_word[OF inv, of "Suc ?n"] room
  have slot: "unat slot = CircularQueue_pos q (Suc ?n)"
    by (simp only: slot_def Suc_leI)
  have pos': "CircularQueue_pos q' d = CircularQueue_pos q d" for d
    by (simp add: CircularQueue_pos_def q'_def)
  have other: "CircularQueue_pos q d \<noteq> unat slot" if "0 < d" "d \<le> ?S" "d \<noteq> Suc ?n" for d
    using ring_back_inj[OF D(2), of d "Suc ?n"] that room slot
    by (auto simp: CircularQueue_pos_def)
  have slot': "cq_m_data q' ! CircularQueue_pos q' d =
      (if d \<le> length (v # CircularQueue_items q)
       then Some ((v # CircularQueue_items q) ! (length (v # CircularQueue_items q) - d))
       else None)" if d: "0 < d" "d \<le> length (cq_m_data q')" for d
  proof (cases "d = Suc ?n")
    case True
    then show ?thesis
      unfolding pos' using slot CircularQueue_pos_less[OF inv] by (simp add: q'_def)
  next
    case False
    then show ?thesis
      unfolding pos' using other[of d] CircularQueue_slot_eq[OF inv, of d] d
      by (auto simp: q'_def Suc_diff_le)
  qed
  then show "CircularQueue_inv q'" and "CircularQueue_items q' = v # CircularQueue_items q"
    using CircularQueue_repI[of q' "v # CircularQueue_items q"] D size' room
    by (simp_all add: q'_def)
qed

lemma CircularQueue_enqueue_front_ok:
  assumes inv: "CircularQueue_inv q" and room: "unat (cq_m_size q) < length (cq_m_data q)"
  shows "\<exists>q'. CircularQueue_enqueue_front v q = Inr (v, q') \<and> CircularQueue_inv q' \<and>
    CircularQueue_items q' = v # CircularQueue_items q \<and>
    length (cq_m_data q') = length (cq_m_data q)"
  using CircularQueue_enqueue_front_state[OF inv room, of v] room
    CircularQueue_front_eq[OF CircularQueue_enqueue_front_state(1)[OF inv room, of v]]
    CircularQueue_invD(2)[OF inv] CircularQueue_capacity_nat[OF inv]
  by (simp add: CircularQueue_enqueue_front_def Let_def word_less_nat_alt)

text \<open>Destroying the front element, which \<^verbatim>\<open>dequeue\<close> and \<^verbatim>\<open>clear\<close> share.\<close>

lemma CircularQueue_pop_state:
  fixes q
  defines "q' \<equiv> q\<lparr>cq_m_data := (cq_m_data q)[unat (CircularQueue_front_offset q) := None],
                    cq_m_size := cq_m_size q - 1\<rparr>"
  assumes inv: "CircularQueue_inv q" and some: "CircularQueue_items q = x # xs"
  shows "CircularQueue_inv q'" and "CircularQueue_items q' = xs"
proof -
  let ?S = "length (cq_m_data q)" and ?n = "unat (cq_m_size q)"
  note D = CircularQueue_invD[OF inv]
  have n: "?n = Suc (length xs)" using some length_items[of q] by simp
  then have size': "unat (cq_m_size q') = length xs"
    using unat_dec[of "cq_m_size q"] by (simp add: q'_def)
  have slot: "unat (CircularQueue_front_offset q) = CircularQueue_pos q ?n"
    by (rule CircularQueue_front_offset_pos[OF inv])
  have pos': "CircularQueue_pos q' d = CircularQueue_pos q d" for d
    by (simp add: CircularQueue_pos_def q'_def)
  have slot': "cq_m_data q' ! CircularQueue_pos q' d =
      (if d \<le> length xs then Some (xs ! (length xs - d)) else None)"
    if d: "0 < d" "d \<le> length (cq_m_data q')" for d
  proof (cases "d = ?n")
    case True
    then show ?thesis
      unfolding pos' using slot CircularQueue_pos_less[OF inv] n by (simp add: q'_def)
  next
    case False
    then have "CircularQueue_pos q d \<noteq> CircularQueue_pos q ?n"
      using ring_back_inj[OF D(2), of d ?n] d n D(3)
      by (auto simp: CircularQueue_pos_def q'_def)
    then show ?thesis
      unfolding pos' using CircularQueue_slot_eq[OF inv, of d] d False slot some n
      by (auto simp: q'_def Suc_diff_le)
  qed
  then show "CircularQueue_inv q'" and "CircularQueue_items q' = xs"
    using CircularQueue_repI[of q' xs] D size' n by (simp_all add: q'_def)
qed

lemma CircularQueue_dequeue_ok:
  assumes inv: "CircularQueue_inv q" and some: "CircularQueue_items q = x # xs"
  shows "\<exists>q'. CircularQueue_dequeue q = Inr (x, q') \<and> CircularQueue_inv q' \<and>
    CircularQueue_items q' = xs \<and> length (cq_m_data q') = length (cq_m_data q)"
  using CircularQueue_pop_state[OF inv some] CircularQueue_front_eq[OF inv] some
  by (simp add: CircularQueue_dequeue_def)

lemma CircularQueue_dequeue_empty:
  assumes inv: "CircularQueue_inv q" and none: "CircularQueue_items q = []"
  shows "CircularQueue_dequeue q = Inl (ASSERT ''m_size > 0'')"
  using CircularQueue_front_eq[OF inv] none by (simp add: CircularQueue_dequeue_def)

text \<open>Clearing and move assignment are loops over the operations above.\<close>

lemma CircularQueue_clear_loop_ok:
  "CircularQueue_inv q \<Longrightarrow> unat (cq_m_size q) = count \<Longrightarrow>
   \<exists>q'. CircularQueue_clear_loop count q = Inr q' \<and> CircularQueue_inv q' \<and>
        CircularQueue_items q' = [] \<and> length (cq_m_data q') = length (cq_m_data q)"
proof (induction count arbitrary: q)
  case 0
  then show ?case by (simp add: CircularQueue_items_def)
next
  case (Suc count)
  obtain x xs where some: "CircularQueue_items q = x # xs"
    using Suc.prems(2) length_items[of q] by (cases "CircularQueue_items q") auto
  let ?q = "q\<lparr>cq_m_data := (cq_m_data q)[unat (CircularQueue_front_offset q) := None],
              cq_m_size := cq_m_size q - 1\<rparr>"
  have "unat (cq_m_size ?q) = count"
    using CircularQueue_pop_state(2)[OF Suc.prems(1) some] length_items[of ?q]
      length_items[of q] some Suc.prems(2) by simp
  from Suc.IH[OF CircularQueue_pop_state(1)[OF Suc.prems(1) some] this]
  show ?case using CircularQueue_front_eq[OF Suc.prems(1)] some by simp
qed

lemma CircularQueue_clear_ok:
  "CircularQueue_inv q \<Longrightarrow>
   \<exists>q'. CircularQueue_clear q = Inr q' \<and> CircularQueue_inv q' \<and>
        CircularQueue_items q' = [] \<and> length (cq_m_data q') = length (cq_m_data q)"
  by (simp add: CircularQueue_clear_def CircularQueue_clear_loop_ok)

lemma CircularQueue_new_length [simp]: "length (cq_m_data (CircularQueue_new Size)) = Size"
  by (simp add: CircularQueue_new_def)

lemma CircularQueue_new_inv:
  assumes "0 < Size" and "2 * Size \<le> 2 ^ 32"
  shows "CircularQueue_inv (CircularQueue_new Size)"
    and "CircularQueue_items (CircularQueue_new Size) = []"
  using CircularQueue_repI[of "CircularQueue_new Size" "[]"] assms
    ring_back_less[of Size] by (simp_all add: CircularQueue_new_def CircularQueue_pos_def)

subsection \<open>The queue provides the FIFO contract\<close>

interpretation cq: bounded_fifo CircularQueue_enqueue CircularQueue_dequeue CircularQueue_items
  "\<lambda>q. length (cq_m_data q)" CircularQueue_inv
proof
  fix q :: "'a CircularQueue" and x
  assume inv: "CircularQueue_inv q"
  show "length (CircularQueue_items q) \<le> length (cq_m_data q)"
    using CircularQueue_invD(3)[OF inv] by simp
  show "\<exists>e. CircularQueue_enqueue x q = Inl e"
    if "length (CircularQueue_items q) = length (cq_m_data q)"
    using CircularQueue_enqueue_full[OF inv] that by auto
qed (auto simp: CircularQueue_enqueue_ok CircularQueue_dequeue_ok CircularQueue_dequeue_empty)

lemma CircularQueue_move_loop_ok:
  "CircularQueue_inv q \<Longrightarrow> CircularQueue_inv p \<Longrightarrow> length (CircularQueue_items p) = count \<Longrightarrow>
   length (CircularQueue_items q) + count \<le> length (cq_m_data q) \<Longrightarrow>
   \<exists>q' p'. CircularQueue_move_loop count q p = Inr (q', p') \<and>
     CircularQueue_inv q' \<and> CircularQueue_items q' = CircularQueue_items q @ CircularQueue_items p \<and>
     CircularQueue_inv p' \<and> CircularQueue_items p' = []"
proof (induction count arbitrary: q p)
  case 0
  then show ?case by (auto simp del: length_items)
next
  case (Suc count)
  then obtain x xs where x: "CircularQueue_items p = x # xs"
    by (cases "CircularQueue_items p") auto
  from CircularQueue_dequeue_ok[OF Suc.prems(2) x] obtain p' where
    p': "CircularQueue_dequeue p = Inr (x, p')" "CircularQueue_inv p'"
        "CircularQueue_items p' = xs" by blast
  from cq.enq_room[OF Suc.prems(1), of x] Suc.prems(4) obtain q' where
    q': "CircularQueue_enqueue x q = Inr (x, q')" "CircularQueue_inv q'"
        "CircularQueue_items q' = CircularQueue_items q @ [x]"
        "length (cq_m_data q') = length (cq_m_data q)" by auto
  have "length (CircularQueue_items p') = count" using Suc.prems(3) x p' by simp
  from Suc.IH[OF q'(2) p'(2) this] show ?case
    using Suc.prems(4) x p' q' by (simp del: length_items)
qed

lemma CircularQueue_move_assign_ok:
  assumes "CircularQueue_inv q" and "CircularQueue_inv p"
    and "length (cq_m_data p) \<le> length (cq_m_data q)"
  shows "\<exists>q' p'. CircularQueue_move_assign q p = Inr (q', p') \<and>
     CircularQueue_inv q' \<and> CircularQueue_items q' = CircularQueue_items p \<and>
     CircularQueue_inv p' \<and> CircularQueue_items p' = []"
proof -
  from CircularQueue_clear_ok[OF assms(1)] obtain q0 where
    q0: "CircularQueue_clear q = Inr q0" "CircularQueue_inv q0" "CircularQueue_items q0 = []"
        "length (cq_m_data q0) = length (cq_m_data q)" by blast
  from CircularQueue_move_loop_ok[OF q0(2) assms(2) refl] CircularQueue_invD(3)[OF assms(2)]
    assms(3) q0 obtain q' p' where
    m: "CircularQueue_move_loop (unat (cq_m_size p)) q0 p = Inr (q', p')"
       "CircularQueue_inv q'" "CircularQueue_items q' = CircularQueue_items p"
       "CircularQueue_inv p'" "CircularQueue_items p' = []" by force
  have "cq_m_size p' = 0" using m(5) length_items[of p'] by (simp add: unat_eq_zero)
  with m q0(1) show ?thesis by (simp add: CircularQueue_move_assign_def)
qed

subsection \<open>The abstract queue and the refinement\<close>

text \<open>
  The promise of the class, independent of its layout: a list of at most \<open>cap\<close> elements.  The
  operations of both sides run over a list of calls and collect what each call returns; the
  first crash ends the run.
\<close>

datatype 'a queue_op =
  Enqueue 'a | Enqueue_Front 'a | Dequeue | Front | Back | At usize | Clear

fun fifo_step :: "nat \<Rightarrow> 'a queue_op \<Rightarrow> 'a list \<Rightarrow> ('a option \<times> 'a list) outcome" where
  "fifo_step cap (Enqueue x) xs =
     (if length xs < cap then Inr (Some x, xs @ [x]) else Inl (ASSERT ''m_size < Size''))"
| "fifo_step cap (Enqueue_Front x) xs =
     (if length xs < cap then Inr (Some x, x # xs) else Inl (ASSERT ''m_size < Size''))"
| "fifo_step cap Dequeue xs =
     (case xs of [] \<Rightarrow> Inl (ASSERT ''m_size > 0'') | x # xs' \<Rightarrow> Inr (Some x, xs'))"
| "fifo_step cap Front xs =
     (case xs of [] \<Rightarrow> Inl (ASSERT ''m_size > 0'') | x # _ \<Rightarrow> Inr (Some x, xs))"
| "fifo_step cap Back xs =
     (if xs = [] then Inl (ASSERT ''m_size > 0'') else Inr (Some (last xs), xs))"
| "fifo_step cap (At i) xs =
     (if unat i < length xs then Inr (Some (xs ! unat i), xs)
      else Inl (ASSERT ''m_size > index''))"
| "fifo_step cap Clear xs = Inr (None, [])"

fun CircularQueue_step ::
  "'a queue_op \<Rightarrow> 'a CircularQueue \<Rightarrow> ('a option \<times> 'a CircularQueue) outcome" where
  "CircularQueue_step (Enqueue x) q =
     bindE (CircularQueue_enqueue x q) (\<lambda>(r, q). Inr (Some r, q))"
| "CircularQueue_step (Enqueue_Front x) q =
     bindE (CircularQueue_enqueue_front x q) (\<lambda>(r, q). Inr (Some r, q))"
| "CircularQueue_step Dequeue q =
     bindE (CircularQueue_dequeue q) (\<lambda>(r, q). Inr (Some r, q))"
| "CircularQueue_step Front q = bindE (CircularQueue_front q) (\<lambda>r. Inr (Some r, q))"
| "CircularQueue_step Back q = bindE (CircularQueue_back q) (\<lambda>r. Inr (Some r, q))"
| "CircularQueue_step (At i) q = bindE (CircularQueue_at q i) (\<lambda>r. Inr (Some r, q))"
| "CircularQueue_step Clear q = bindE (CircularQueue_clear q) (\<lambda>q. Inr (None, q))"

fun run_ops :: "('op \<Rightarrow> 's \<Rightarrow> ('r \<times> 's) outcome) \<Rightarrow> 'op list \<Rightarrow> 's \<Rightarrow> ('r list \<times> 's) outcome" where
  "run_ops step [] s = Inr ([], s)"
| "run_ops step (x # xs) s =
     bindE (step x s) (\<lambda>(r, s'). bindE (run_ops step xs s') (\<lambda>(rs, s''). Inr (r # rs, s'')))"

lemma CircularQueue_step_refines:
  assumes inv: "CircularQueue_inv q"
  shows "map_sum id (map_prod id CircularQueue_items) (CircularQueue_step x q)
           = fifo_step (length (cq_m_data q)) x (CircularQueue_items q) \<and>
         (\<forall>r q'. CircularQueue_step x q = Inr (r, q') \<longrightarrow>
            CircularQueue_inv q' \<and> length (cq_m_data q') = length (cq_m_data q))"
proof (cases x)
  case (Enqueue v)
  then show ?thesis
    using CircularQueue_enqueue_ok[OF inv, of v] CircularQueue_enqueue_full[OF inv, of v]
      CircularQueue_invD(3)[OF inv]
    by (cases "unat (cq_m_size q) < length (cq_m_data q)") auto
next
  case (Enqueue_Front v)
  show ?thesis
  proof (cases "unat (cq_m_size q) < length (cq_m_data q)")
    case True
    then show ?thesis using CircularQueue_enqueue_front_ok[OF inv, of v] Enqueue_Front by auto
  next
    case False
    then show ?thesis using CircularQueue_capacity_nat[OF inv] Enqueue_Front
      by (simp add: CircularQueue_enqueue_front_def word_less_nat_alt)
  qed
next
  case Dequeue
  then show ?thesis
    using CircularQueue_dequeue_empty[OF inv] CircularQueue_dequeue_ok[OF inv]
    by (cases "CircularQueue_items q") fastforce+
next
  case Clear
  then show ?thesis using CircularQueue_clear_ok[OF inv] by auto
qed (use inv in \<open>auto simp: CircularQueue_front_eq CircularQueue_back_eq CircularQueue_at_eq
       split: list.splits\<close>)

lemma CircularQueue_run_refines:
  "CircularQueue_inv q \<Longrightarrow>
   map_sum id (map_prod id CircularQueue_items) (run_ops CircularQueue_step xs q)
     = run_ops (fifo_step (length (cq_m_data q))) xs (CircularQueue_items q)"
proof (induction xs arbitrary: q)
  case Nil
  then show ?case by simp
next
  case (Cons x xs)
  note step = CircularQueue_step_refines[OF Cons.prems, of x]
  show ?case
  proof (cases "CircularQueue_step x q")
    case (Inl e)
    then show ?thesis using step by (cases "fifo_step (length (cq_m_data q)) x (CircularQueue_items q)") auto
  next
    case (Inr p)
    obtain r q' where p: "p = (r, q')" by (cases p)
    then have "fifo_step (length (cq_m_data q)) x (CircularQueue_items q)
                 = Inr (r, CircularQueue_items q')"
      and "CircularQueue_inv q'" and "length (cq_m_data q') = length (cq_m_data q)"
      using step Inr by auto
    then show ?thesis using Cons.IH[of q'] Inr p
      by (cases "run_ops CircularQueue_step xs q'") (auto simp: bindE_def split: sum.splits)
  qed
qed

text \<open>
  C2. From a freshly constructed queue, every sequence of enqueues at either end, dequeues, reads
  by end or by index and clears returns what the same sequence returns on a list bounded by
  \<open>Size\<close>, crashes at the same call with the same assertion, and ends with the same contents.
  The storage may have up to \<open>2 ^ 31\<close> slots: beyond that the offset arithmetic can wrap.
\<close>

theorem CircularQueue_simulates_fifo:
  assumes "0 < Size" and "2 * Size \<le> 2 ^ 32"
  shows "map_sum id (map_prod id CircularQueue_items)
           (run_ops CircularQueue_step xs (CircularQueue_new Size))
         = run_ops (fifo_step Size) xs []"
  using CircularQueue_run_refines[OF CircularQueue_new_inv(1)[OF assms], of xs]
  by (simp add: CircularQueue_new_inv(2)[OF assms])

theorem CircularQueue_simulates_fifo_witness:
  "map_sum id (map_prod id CircularQueue_items)
     (run_ops CircularQueue_step
        [Enqueue (1::nat), Enqueue 2, Dequeue, Enqueue 3, Enqueue_Front 4, At 2, Dequeue]
        (CircularQueue_new 3))
   = Inr ([Some 1, Some 2, Some 1, Some 3, Some 4, Some 3, Some 4], [2, 3])"
  by (subst CircularQueue_simulates_fifo) simp_all

text \<open>
  C4. Move assignment replaces the contents of the target by those of the source, in order, and
  leaves the source empty with every slot destroyed; it cannot crash when both queues have the
  same \<open>Size\<close>, and both stay well formed.
\<close>

theorem CircularQueue_move_assign_moves:
  assumes "CircularQueue_inv q" and "CircularQueue_inv p"
    and "length (cq_m_data p) = length (cq_m_data q)"
  shows "\<exists>q' p'. CircularQueue_move_assign q p = Inr (q', p') \<and>
     CircularQueue_inv q' \<and> CircularQueue_items q' = CircularQueue_items p \<and>
     CircularQueue_inv p' \<and> CircularQueue_items p' = []"
  using CircularQueue_move_assign_ok[OF assms(1,2)] assms(3) by simp

theorem CircularQueue_move_assign_moves_witness:
  "\<exists>q' p'. CircularQueue_move_assign
        \<lparr>cq_m_offset = 0, cq_m_size = 1, cq_m_data = [None, None, Some (7::nat)]\<rparr>
        \<lparr>cq_m_offset = 1, cq_m_size = 2, cq_m_data = [Some 6, None, Some 5]\<rparr> = Inr (q', p') \<and>
     CircularQueue_inv q' \<and>
     CircularQueue_items q' = CircularQueue_items
        \<lparr>cq_m_offset = 1, cq_m_size = 2, cq_m_data = [Some 6, None, Some 5]\<rparr> \<and>
     CircularQueue_inv p' \<and> CircularQueue_items p' = []"
  by (rule CircularQueue_move_assign_moves) 
     (simp_all add: CircularQueue_inv_eval CircularQueue_pos_def ring_back_def upt_conv_Cons del: upt_Suc)

end
