(* ===== verification/Std_Helpers.thy ===== *)
theory Std_Helpers
  imports Prelude "HOL-Library.Char_ord" "HOL-Library.List_Lexorder"
begin

section \<open>Std/Forward.hpp and Kernel/ABI.cpp: helper functions\<close>

text \<open>
  The arithmetic helpers of \<^verbatim>\<open>Std/Forward.hpp\<close>, on 32-bit words, and the C string functions that
  \<^verbatim>\<open>Kernel/ABI.cpp\<close> defines for the kernel.  A pointer to characters is the list of the bytes from
  the pointer to the end of its object, terminator included; reading past that end is
  \<open>UNDEFINED\<close>.  Plain \<^verbatim>\<open>char\<close> is unsigned on the ARM target, as the order on \<open>char\<close> is here.
\<close>

subsection \<open>Arithmetic helpers\<close>

definition Std_min :: "usize \<Rightarrow> usize \<Rightarrow> usize" where
  "Std_min a b = (if a \<le> b then a else b)"

definition Std_max :: "usize \<Rightarrow> usize \<Rightarrow> usize" where
  "Std_max a b = (if a \<ge> b then a else b)"

definition Std_exchange :: "'a \<Rightarrow> 'a \<Rightarrow> 'a \<times> 'a" where
  "Std_exchange obj new_value = (let old_value = obj in (old_value, new_value))"

definition Std_swap :: "'a \<Rightarrow> 'a \<Rightarrow> 'a \<times> 'a" where
  "Std_swap lhs rhs = (let value = lhs; lhs = rhs; rhs = value in (lhs, rhs))"

definition round_to_alignment :: "uptr \<Rightarrow> usize \<Rightarrow> uptr" where
  "round_to_alignment value alignment = (value - 1 + alignment) AND - alignment"

text \<open>
  The number of significant bits, which gives the compiler's \<^verbatim>\<open>__builtin_clz\<close> (undefined at 0)
  and, on the lowest set bit, \<^verbatim>\<open>__builtin_ctzl\<close> (likewise).
\<close>

fun bit_width :: "nat \<Rightarrow> nat" where
  "bit_width n = (if n = 0 then 0 else Suc (bit_width (n div 2)))"

declare bit_width.simps [simp del]

definition builtin_clz :: "u32 \<Rightarrow> nat outcome" where
  "builtin_clz value =
     checkE (value \<noteq> 0) (UNDEFINED ''__builtin_clz(0)'') (Inr (32 - bit_width (unat value)))"

definition builtin_ctzl :: "u32 \<Rightarrow> nat outcome" where
  "builtin_ctzl value =
     checkE (value \<noteq> 0) (UNDEFINED ''__builtin_ctzl(0)'')
       (Inr (bit_width (unat (value AND - value)) - 1))"

fun popcount_nat :: "nat \<Rightarrow> nat" where
  "popcount_nat n = (if n = 0 then 0 else n mod 2 + popcount_nat (n div 2))"

declare popcount_nat.simps [simp del]

definition builtin_popcount :: "u32 \<Rightarrow> nat" where
  "builtin_popcount value = popcount_nat (unat value)"

text \<open>The shift \<open>1 << 32\<close>, which \<open>value \<ge> 2 ^ 31\<close> asks for, is undefined on a 32-bit \<^verbatim>\<open>int\<close>.\<close>

definition round_to_power_of_two :: "usize \<Rightarrow> usize outcome" where
  "round_to_power_of_two value =
     bindE (builtin_clz value) (\<lambda>clz.
       checkE (32 - clz < 32) (UNDEFINED ''shift by 32'') (Inr (push_bit (32 - clz) 1)))"

definition power_of_two :: "usize \<Rightarrow> usize outcome" where
  "power_of_two value = bindE (builtin_ctzl value) (\<lambda>n. Inr (of_nat n))"

text \<open>How a 32-bit value lies in memory.\<close>

definition u32_bytes :: "u32 \<Rightarrow> u8 list" where
  "u32_bytes w = [ucast w, ucast (drop_bit 8 w), ucast (drop_bit 16 w), ucast (drop_bit 24 w)]"

subsection \<open>C strings and memory comparison\<close>

fun strlen_loop :: "string \<Rightarrow> usize \<Rightarrow> usize outcome" where
  "strlen_loop [] len = Inl (UNDEFINED ''out of bounds'')"
| "strlen_loop (c # str) len = (if c \<noteq> CHR 0x00 then strlen_loop str (len + 1) else Inr len)"

definition strlen :: "string \<Rightarrow> usize outcome" where
  "strlen str = strlen_loop str 0"

fun strcmp :: "string \<Rightarrow> string \<Rightarrow> int outcome" where
  "strcmp (a # as) (b # bs) =
     (if a \<noteq> CHR 0x00 \<and> b \<noteq> CHR 0x00
      then if a < b then Inr (- 1) else if a > b then Inr 1 else strcmp as bs
      else if a \<noteq> CHR 0x00 then Inr 1
      else if b \<noteq> CHR 0x00 then Inr (- 1)
      else Inr 0)"
| "strcmp _ _ = Inl (UNDEFINED ''out of bounds'')"

fun memcmp_loop :: "nat \<Rightarrow> 'a::linorder list \<Rightarrow> 'a list \<Rightarrow> int outcome" where
  "memcmp_loop 0 as bs = Inr 0"
| "memcmp_loop (Suc n) (a # as) (b # bs) =
     (if a < b then Inr (- 1) else if a > b then Inr 1 else memcmp_loop n as bs)"
| "memcmp_loop (Suc n) _ _ = Inl (UNDEFINED ''out of bounds'')"

definition memcmp :: "'a::linorder list \<Rightarrow> 'a list \<Rightarrow> usize \<Rightarrow> int outcome" where
  "memcmp a b n = memcmp_loop (unat n) a b"

subsection \<open>Powers of two\<close>

lemma bit_width_bounds: "0 < n \<Longrightarrow> 2 ^ (bit_width n - 1) \<le> n \<and> n < 2 ^ bit_width n \<and> 0 < bit_width n"
proof (induction n rule: bit_width.induct)
  case (1 n)
  show ?case
  proof (cases "n = 1")
    case True
    then show ?thesis by (simp add: bit_width.simps[of "Suc 0"] bit_width.simps[of 0])
  next
    case False
    let ?w = "bit_width (n div 2)"
    have IH: "2 ^ (?w - 1) \<le> n div 2" "n div 2 < 2 ^ ?w" "0 < ?w"
      using 1 False by auto
    then obtain w where w: "?w = Suc w" by (cases ?w) auto
    have "bit_width n = Suc ?w" using "1.prems" by (simp add: bit_width.simps[of n])
    then show ?thesis using IH w by auto
  qed
qed

lemma bit_width_eqI: "2 ^ k \<le> n \<Longrightarrow> n < 2 ^ Suc k \<Longrightarrow> bit_width n = Suc k"
proof -
  assume n: "2 ^ k \<le> n" "n < 2 ^ Suc k"
  have pos: "0 < n" using n(1) by (metis less_le_trans zero_less_numeral zero_less_power)
  note b = bit_width_bounds[OF pos]
  have "(2::nat) ^ (bit_width n - 1) < 2 ^ Suc k"
    by (rule le_less_trans[OF _ n(2)]) (use b in simp)
  moreover have "(2::nat) ^ k < 2 ^ bit_width n"
    by (rule le_less_trans[OF n(1)]) (use b in simp)
  ultimately have "bit_width n - 1 < Suc k" and "k < bit_width n"
    by (simp_all only: power_strict_increasing_iff one_less_numeral_iff semiring_norm)
  then show ?thesis by simp
qed

lemma bit_width_power [simp]: "bit_width (2 ^ k) = Suc k"
  by (rule bit_width_eqI) simp_all

lemma bit_width_le:
  assumes "n < 2 ^ k"
  shows "bit_width n \<le> k"
proof (cases "n = 0")
  case False
  note b = bit_width_bounds[of n]
  have "(2::nat) ^ (bit_width n - 1) < 2 ^ k"
    by (rule le_less_trans[OF _ assms]) (use b False in simp)
  then have "bit_width n - 1 < k"
    by (simp only: power_strict_increasing_iff one_less_numeral_iff semiring_norm)
  then show ?thesis by simp
qed (simp add: bit_width.simps)

lemma unat_power_two: "k < 32 \<Longrightarrow> unat (2 ^ k :: u32) = 2 ^ k"
proof -
  assume "k < 32"
  then have "(2::nat) ^ k < 2 ^ 32" by (rule power_strict_increasing) simp
  moreover have "(2 ^ k :: u32) = of_nat (2 ^ k)" by simp
  ultimately show ?thesis by (metis word_of_nat_unat_eq)
qed

lemma unat_push_bit_one: "k < 32 \<Longrightarrow> unat (push_bit k 1 :: u32) = 2 ^ k"
  by (simp add: push_bit_eq_mult unat_power_two)

lemma builtin_ctzl_power [simp]: "k < 32 \<Longrightarrow> builtin_ctzl (2 ^ k) = Inr k"
proof -
  assume k: "k < 32"
  have "(2 ^ k :: u32) AND - (2 ^ k) = 2 ^ k"
    by (rule bit_word_eqI) (auto simp: bit_and_iff bit_exp_iff minus_exp_eq_not_mask bit_not_iff bit_mask_iff)
  moreover have "unat (2 ^ k :: u32) = 2 ^ k" using k by (simp add: unat_power_two)
  moreover have "(2 ^ k :: u32) \<noteq> 0" using k by simp
  ultimately show ?thesis by (simp add: builtin_ctzl_def)
qed

lemma power_of_two_power [simp]: "k < 32 \<Longrightarrow> power_of_two (2 ^ k) = Inr (of_nat k)"
  by (simp add: power_of_two_def)

lemma round_to_power_of_two_eq:
  assumes "value \<noteq> 0" and "unat value < 2 ^ 31"
  shows "round_to_power_of_two value = Inr (push_bit (bit_width (unat value)) 1)"
proof -
  have "bit_width (unat value) \<le> 31" using assms(2) by (rule bit_width_le)
  then show ?thesis using assms(1) by (simp add: round_to_power_of_two_def builtin_clz_def)
qed

lemma round_to_power_of_two_bounds:
  assumes "round_to_power_of_two value = Inr r"
  shows "\<exists>k. 0 < k \<and> k < 32 \<and> r = 2 ^ k \<and> 2 ^ (k - 1) \<le> unat value \<and> unat value < 2 ^ k"
proof -
  have v: "value \<noteq> 0" and k: "bit_width (unat value) < 32"
    and r: "r = push_bit (bit_width (unat value)) 1"
    using assms bit_width_le[of "unat value" 32]
    by (auto simp: round_to_power_of_two_def builtin_clz_def outcome_simps)
  have "0 < unat value" using v by (simp add: unat_gt_0)
  from bit_width_bounds[OF this] k r show ?thesis
    by (intro exI[of _ "bit_width (unat value)"]) (simp add: push_bit_eq_mult)
qed

lemma round_to_alignment_eq:
  assumes "k < 32" and "unat value + 2 ^ k \<le> 2 ^ 32"
  shows "unat (round_to_alignment value (2 ^ k)) = ((unat value + 2 ^ k - 1) div 2 ^ k) * 2 ^ k"
proof -
  let ?v = "value - 1 + 2 ^ k :: u32"
  have "Suc 0 \<le> unat value + 2 ^ k" by (metis Suc_leI add_gr_0 zero_less_numeral zero_less_power)
  then have "?v = of_nat (unat value + 2 ^ k - 1)" by simp
  then have v: "unat ?v = unat value + 2 ^ k - 1"
    using assms(2) by (intro word_of_nat_unat_eq) (auto simp: less_eq_Suc_le)
  have "?v AND - (2 ^ k) = push_bit k (drop_bit k ?v)"
    unfolding minus_exp_eq_not_mask
    by (rule bit_word_eqI) (auto simp: bit_and_iff bit_not_iff bit_mask_iff bit_push_bit_iff bit_drop_bit_eq)
  then have "unat (round_to_alignment value (2 ^ k)) = unat (push_bit k (drop_bit k ?v))"
    by (simp add: round_to_alignment_def)
  also have "\<dots> = push_bit k (drop_bit k (unat ?v))"
  proof -
    have "push_bit k (drop_bit k (unat ?v)) \<le> unat ?v" by (simp add: push_bit_eq_mult drop_bit_eq_div)
    also have "\<dots> < 2 ^ 32" using unsigned_less[of ?v] by simp
    finally show ?thesis
      by (simp add: unsigned_push_bit_eq unsigned_drop_bit_eq take_bit_nat_eq_self)
  qed
  finally show ?thesis by (simp add: v push_bit_eq_mult drop_bit_eq_div)
qed

subsection \<open>What the helpers compute\<close>

definition compare_sign :: "'a::linorder \<Rightarrow> 'a \<Rightarrow> int" where
  "compare_sign a b = (if a < b then - 1 else if b < a then 1 else 0)"

lemma memcmp_loop_sign:
  "n \<le> length a \<Longrightarrow> n \<le> length b \<Longrightarrow>
   memcmp_loop n a b = Inr (compare_sign (take n a) (take n b))"
proof (induction n a b rule: memcmp_loop.induct)
  case (2 n a as b bs)
  then show ?case by (auto simp: compare_sign_def)
qed (auto simp: compare_sign_def)

lemma memcmp_sign:
  "unat n \<le> length a \<Longrightarrow> unat n \<le> length b \<Longrightarrow>
   memcmp a b n = Inr (compare_sign (take (unat n) a) (take (unat n) b))"
  by (simp add: memcmp_def memcmp_loop_sign)

lemma strlen_loop_terminated:
  "CHR 0x00 \<notin> set s \<Longrightarrow> strlen_loop (s @ CHR 0x00 # t) len = Inr (len + of_nat (length s))"
  by (induction s arbitrary: len) (auto simp: algebra_simps)

lemma strlen_terminated:
  "CHR 0x00 \<notin> set s \<Longrightarrow> strlen (s @ CHR 0x00 # t) = Inr (of_nat (length s))"
  by (simp add: strlen_def strlen_loop_terminated)

lemma strcmp_terminated:
  "CHR 0x00 \<notin> set a \<Longrightarrow> CHR 0x00 \<notin> set b \<Longrightarrow>
   strcmp (a @ CHR 0x00 # x) (b @ CHR 0x00 # y) = Inr (compare_sign a b)"
proof (induction a arbitrary: b)
  case Nil
  then show ?case by (cases b) (auto simp: compare_sign_def)
next
  case (Cons c a)
  show ?case
  proof (cases b)
    case Nil
    then show ?thesis using Cons.prems by (auto simp: compare_sign_def)
  next
    case (Cons d b')
    then show ?thesis
      using Cons.prems Cons.IH[of b'] by (auto simp: compare_sign_def)
  qed
qed

lemma round_to_power_of_two_doubles:
  assumes "value \<noteq> 0" and "unat value < 2 ^ 31"
  shows "\<exists>r k. round_to_power_of_two value = Inr r \<and> unat r = 2 ^ k \<and> unat value < unat r \<and>
     unat r \<le> 2 * unat value"
proof -
  let ?w = "bit_width (unat value)"
  have eq: "round_to_power_of_two value = Inr (push_bit ?w 1)"
    using assms by (simp add: round_to_power_of_two_eq)
  have "?w \<le> 31" using assms(2) by (intro bit_width_le) simp
  then have r: "unat (push_bit ?w 1 :: u32) = 2 ^ ?w" by (simp add: unat_power_two)
  have b: "2 ^ (?w - 1) \<le> unat value" "unat value < 2 ^ ?w" "0 < ?w"
    using bit_width_bounds[of "unat value"] assms(1) by (auto simp: unat_gt_0)
  then obtain w where "?w = Suc w" by (cases ?w) auto
  then have "2 ^ ?w \<le> 2 * unat value" using b(1) by simp
  with eq r b(2) show ?thesis by auto
qed

text \<open>
  C5. For arguments from 1 to \<open>2 ^ 31 - 1\<close>, \<^verbatim>\<open>round_to_power_of_two\<close> returns the least power of two
  that is strictly greater than its argument (so a power of two is doubled, not kept); for 0 and
  from \<open>2 ^ 31\<close> on its result is undefined.
\<close>

theorem round_to_power_of_two_least_above:
  "(if value = 0 \<or> 2 ^ 31 \<le> unat value
    then \<exists>why. round_to_power_of_two value = Inl (UNDEFINED why)
    else \<exists>r k. round_to_power_of_two value = Inr r \<and> unat r = 2 ^ k \<and> unat value < unat r \<and>
           unat r \<le> 2 * unat value)"
proof (cases "value = 0 \<or> 2 ^ 31 \<le> unat value")
  case True
  have "\<not> bit_width (unat value) < 32" if big: "2 ^ 31 \<le> unat value"
    using bit_width_eqI[OF big] by simp
  then show ?thesis using True
    by (auto simp: round_to_power_of_two_def builtin_clz_def checkE_def bindE_def)
next
  case False
  then show ?thesis using round_to_power_of_two_doubles[of "value"] by simp
qed

text \<open>
  C6. On terminated strings the kernel's \<^verbatim>\<open>strcmp\<close> returns the sign of the lexicographic
  comparison of the characters before the terminators, whatever follows them in memory.
\<close>

theorem strcmp_lexicographic:
  assumes "CHR 0x00 \<notin> set a" and "CHR 0x00 \<notin> set b"
  shows "strcmp (a @ CHR 0x00 # x) (b @ CHR 0x00 # y)
           = Inr (if a < b then - 1 else if b < a then 1 else 0)"
  using strcmp_terminated[OF assms] by (simp add: compare_sign_def)

theorem strcmp_lexicographic_witness:
  "strcmp (''.data'' @ CHR 0x00 # ''zz'') (''.bss'' @ CHR 0x00 # [])
     = Inr (if ''.data'' < ''.bss'' then - 1 else if ''.bss'' < ''.data'' then 1 else 0)"
  by (rule strcmp_lexicographic) simp_all

end
