(* ===== verification/Strings.thy ===== *)
theory Strings
  imports Std_Helpers
begin

section \<open>Std/Span.hpp\<close>

text \<open>
  A span is a pointer and a size.  The pointer is modelled by the elements of the underlying
  object from where it points to the object's end, so a span may see less than the object holds
  and reading past the object is undefined.  Writing through a span returns the changed elements.
\<close>

subsection \<open>Spans\<close>

record 'a Span =
  sp_m_data :: "'a list"
  sp_m_size :: usize

definition Span_new :: "'a Span" where
  "Span_new = \<lparr>sp_m_data = [], sp_m_size = 0\<rparr>"

definition Span_of :: "'a list \<Rightarrow> usize \<Rightarrow> 'a Span" where
  "Span_of data sz = \<lparr>sp_m_data = data, sp_m_size = sz\<rparr>"

definition Span_clear :: "'a Span \<Rightarrow> 'a Span" where
  "Span_clear s = s\<lparr>sp_m_data := [], sp_m_size := 0\<rparr>"

definition Span_size :: "'a Span \<Rightarrow> usize" where
  "Span_size s = sp_m_size s"

definition Span_is_empty :: "'a Span \<Rightarrow> bool" where
  "Span_is_empty s \<longleftrightarrow> sp_m_size s = 0"

definition Span_at :: "'a Span \<Rightarrow> usize \<Rightarrow> 'a outcome" where
  "Span_at s index =
     (if unat index < length (sp_m_data s) then Inr (sp_m_data s ! unat index)
      else Inl (UNDEFINED ''out of bounds''))"

definition Span_put :: "'a Span \<Rightarrow> usize \<Rightarrow> 'a \<Rightarrow> 'a Span outcome" where
  "Span_put s index v =
     (if unat index < length (sp_m_data s)
      then Inr (s\<lparr>sp_m_data := (sp_m_data s)[unat index := v]\<rparr>)
      else Inl (UNDEFINED ''out of bounds''))"

definition Span_slice :: "'a Span \<Rightarrow> usize \<Rightarrow> 'a Span outcome" where
  "Span_slice s offset =
     checkE (offset \<le> Span_size s) (VERIFY ''offset <= size()'')
       (Inr \<lparr>sp_m_data = drop (unat offset) (sp_m_data s), sp_m_size = Span_size s - offset\<rparr>)"

function Span_copy_loop :: "'a Span \<Rightarrow> 'a Span \<Rightarrow> usize \<Rightarrow> 'a Span outcome" where
  "Span_copy_loop s other index =
     (if index < Span_size s
      then bindE (Span_at s index) (\<lambda>v.
           bindE (Span_put other index v) (\<lambda>other. Span_copy_loop s other (index + 1)))
      else Inr other)"
  by pat_completeness auto
termination
proof (relation "measure (\<lambda>(s, other, index). 2 ^ 32 - unat index)", goal_cases)
  case (2 s other index v other')
  then have "unat index < unat (Span_size s)" by (simp add: word_less_nat_alt)
  then have "unat (index + 1) = Suc (unat index)"
    using unat_inc[of index "unat (Span_size s)"] unsigned_less[of "Span_size s"] by simp
  moreover have "unat index < 2 ^ 32" using unsigned_less[of index] by simp
  ultimately show ?case by (simp del: unat_bound32)
qed simp

declare Span_copy_loop.simps [simp del]

text \<open>The result is the size of the destination, as written.\<close>

definition Span_copy_to :: "'a Span \<Rightarrow> 'a Span \<Rightarrow> (usize \<times> 'a Span) outcome" where
  "Span_copy_to s other =
     checkE (Span_size other \<ge> Span_size s) (VERIFY ''other.size() >= size()'')
       (bindE (Span_copy_loop s other 0) (\<lambda>other. Inr (Span_size other, other)))"

text \<open>\<^verbatim>\<open>memcpy\<close> of bytes between two objects.\<close>

definition memcpy_list :: "'a list \<Rightarrow> 'a list \<Rightarrow> nat \<Rightarrow> 'a list outcome" where
  "memcpy_list destination source count =
     (if count \<le> length destination \<and> count \<le> length source
      then Inr (take count source @ drop count destination)
      else Inl (UNDEFINED ''out of bounds''))"

definition Span_copy_trimmed_to :: "u8 Span \<Rightarrow> u8 Span \<Rightarrow> (usize \<times> u8 Span) outcome" where
  "Span_copy_trimmed_to s other =
     (let count = min (Span_size s) (Span_size other)
      in bindE (memcpy_list (sp_m_data other) (sp_m_data s) (unat count))
           (\<lambda>data. Inr (count, other\<lparr>sp_m_data := data\<rparr>)))"

text \<open>What a span shows, and when it is backed by its object.\<close>

definition view :: "'a Span \<Rightarrow> 'a list" where
  "view s = take (unat (sp_m_size s)) (sp_m_data s)"

definition span_ok :: "'a Span \<Rightarrow> bool" where
  "span_ok s \<longleftrightarrow> unat (sp_m_size s) \<le> length (sp_m_data s)"

lemma length_view: "span_ok s \<Longrightarrow> length (view s) = unat (sp_m_size s)"
  by (simp add: view_def span_ok_def)

lemma Span_at_view:
  "span_ok s \<Longrightarrow> unat i < length (view s) \<Longrightarrow> Span_at s i = Inr (view s ! unat i)"
  by (simp add: Span_at_def view_def span_ok_def)

lemma Span_slice_view:
  assumes "span_ok s" and "unat offset \<le> length (view s)"
  shows "\<exists>t. Span_slice s offset = Inr t \<and> span_ok t \<and> view t = drop (unat offset) (view s)"
proof -
  have le: "offset \<le> Span_size s"
    using assms by (simp add: Span_size_def length_view word_le_nat_alt)
  then have "unat (Span_size s - offset) = unat (Span_size s) - unat offset"
    by (simp add: unat_sub_small word_le_nat_alt)
  with le assms show ?thesis
    by (simp add: Span_slice_def view_def span_ok_def Span_size_def drop_take)
qed

subsection \<open>Iterating over a span\<close>

definition SpanIterator_end :: "'a Span \<Rightarrow> 'a Span" where
  "SpanIterator_end s = \<lparr>sp_m_data = drop (unat (Span_size s)) (sp_m_data s), sp_m_size = 0\<rparr>"

definition SpanIterator_next :: "'a Span \<Rightarrow> 'a Span" where
  "SpanIterator_next s = s\<lparr>sp_m_data := drop 1 (sp_m_data s), sp_m_size := Span_size s - 1\<rparr>"

text \<open>Two pointers into one object are equal when the same number of elements lies ahead.\<close>

definition SpanIterator_equal :: "'a Span \<Rightarrow> 'a Span \<Rightarrow> bool" where
  "SpanIterator_equal s t \<longleftrightarrow> length (sp_m_data s) = length (sp_m_data t)"

fun SpanIterator_collect :: "nat \<Rightarrow> 'a Span \<Rightarrow> 'a Span \<Rightarrow> 'a list outcome" where
  "SpanIterator_collect fuel it end =
     (if SpanIterator_equal it end then Inr []
      else if fuel = 0 then Inl DIVERGES
      else bindE (Span_at it 0) (\<lambda>v.
           bindE (SpanIterator_collect (fuel - 1) (SpanIterator_next it) end) (\<lambda>vs. Inr (v # vs))))"

declare SpanIterator_collect.simps [simp del]

lemma SpanIterator_collect_view:
  "n \<le> length xs \<Longrightarrow> n \<le> fuel \<Longrightarrow> length (sp_m_data e) = length xs - n \<Longrightarrow>
   SpanIterator_collect fuel \<lparr>sp_m_data = xs, sp_m_size = k\<rparr> e = Inr (take n xs)"
proof (induction n arbitrary: xs k fuel)
  case 0
  then show ?case by (subst SpanIterator_collect.simps) (simp add: SpanIterator_equal_def)
next
  case (Suc n)
  then obtain y ys where xs: "xs = y # ys" by (cases xs) auto
  have "SpanIterator_collect (fuel - 1) \<lparr>sp_m_data = ys, sp_m_size = k - 1\<rparr> e = Inr (take n ys)"
    using Suc.prems xs by (intro Suc.IH) auto
  then show ?case
    using Suc.prems xs
    by (subst SpanIterator_collect.simps)
      (auto simp: SpanIterator_equal_def SpanIterator_next_def Span_at_def Span_size_def)
qed

lemma iterate_view:
  "span_ok s \<Longrightarrow> SpanIterator_collect (unat (Span_size s)) s (SpanIterator_end s) = Inr (view s)"
  using SpanIterator_collect_view[of "unat (sp_m_size s)" "sp_m_data s" "unat (sp_m_size s)"
      "SpanIterator_end s" "sp_m_size s"]
  by (cases s) (simp add: span_ok_def view_def SpanIterator_end_def Span_size_def)

subsection \<open>Copying\<close>

lemma Span_copy_loop_copies:
  assumes "span_ok s" and "span_ok t" and "sp_m_size s \<le> sp_m_size t" and "index \<le> sp_m_size s"
  shows "Span_copy_loop s t index = Inr (t\<lparr>sp_m_data :=
     take (unat index) (sp_m_data t) @ drop (unat index) (view s) @
     drop (unat (sp_m_size s)) (sp_m_data t)\<rparr>)"
  using assms
proof (induction s t index rule: Span_copy_loop.induct)
  case (1 s t index)
  show ?case
  proof (cases "index < sp_m_size s")
    case True
    have i: "unat index < length (view s)" "unat index < length (sp_m_data t)"
      "unat (index + 1) = Suc (unat index)" "index + 1 \<le> sp_m_size s"
    proof -
      show "unat index < length (view s)" using True 1(2) by (simp add: length_view word_less_nat_alt)
      show "unat index < length (sp_m_data t)"
        using True 1(3,4) by (simp add: span_ok_def word_less_nat_alt word_le_nat_alt)
      show "unat (index + 1) = Suc (unat index)"
        using True unat_inc[of index "unat (sp_m_size s)"] unsigned_less[of "sp_m_size s"]
        by (simp add: word_less_nat_alt)
      with True show "index + 1 \<le> sp_m_size s" by (simp add: word_less_nat_alt word_le_nat_alt)
    qed
    define t' where "t' = t\<lparr>sp_m_data := (sp_m_data t)[unat index := view s ! unat index]\<rparr>"
    have "Span_copy_loop s t' (index + 1) = Inr (t'\<lparr>sp_m_data :=
        take (unat (index + 1)) (sp_m_data t') @ drop (unat (index + 1)) (view s) @
        drop (unat (sp_m_size s)) (sp_m_data t')\<rparr>)"
      using 1(1)[of "view s ! unat index" t'] True 1(2-4) i Span_at_view[OF 1(2) i(1)]
      by (auto simp: t'_def Span_size_def Span_put_def span_ok_def)
    moreover have "unat index < unat (sp_m_size s)" using True by (simp add: word_less_nat_alt)
    ultimately show ?thesis
      using True i Span_at_view[OF 1(2) i(1)]
      by (subst Span_copy_loop.simps)
        (simp add: Span_size_def Span_put_def t'_def take_Suc_conv_app_nth Cons_nth_drop_Suc)
  next
    case False
    then have e: "unat index = unat (sp_m_size s)" using 1(5) by (simp add: word_less_nat_alt word_le_nat_alt)
    then show ?thesis using False length_view[OF 1(2)] 1(3,4)
      by (subst Span_copy_loop.simps) (simp add: Span_size_def)
  qed
qed

text \<open>
  C17. Copying a span writes exactly its elements over the front of the destination and leaves the
  rest; it crashes exactly when the destination is smaller, and it returns the destination's size,
  not the number of elements copied.
\<close>

theorem Span_copy_to_copies:
  assumes "span_ok s" and "span_ok t"
  shows "Span_copy_to s t =
    (if sp_m_size s \<le> sp_m_size t
     then Inr (sp_m_size t, t\<lparr>sp_m_data := view s @ drop (length (view s)) (sp_m_data t)\<rparr>)
     else Inl (VERIFY ''other.size() >= size()''))"
  using Span_copy_loop_copies[OF assms, of 0] length_view[OF assms(1)]
  by (simp add: Span_copy_to_def Span_size_def checkE_def)

theorem Span_copy_to_copies_witness:
  "Span_copy_to (Span_of [1, 2 :: nat] 2) (Span_of [7, 8, 9] 3)
     = Inr (3, \<lparr>sp_m_data = [1, 2, 9], sp_m_size = 3\<rparr>)"
  using Span_copy_to_copies[of "Span_of [1, 2 :: nat] 2" "Span_of [7, 8, 9] 3"]
  by (simp add: span_ok_def Span_of_def view_def)

end
