(* ===== verification/Paths.thy ===== *)
theory Paths
  imports Strings
begin

section \<open>Std/StringView.hpp, Std/Lexer.hpp and Std/Path.hpp\<close>

text \<open>
  String views are spans of characters, the lexer walks a view with an offset, and a path is parsed
  with the lexer.  A lexer is related to the characters it has left; parsing is then equivalent to
  splitting at slashes, and printing and parsing are inverse on paths with proper components.
\<close>

subsection \<open>String views\<close>

type_synonym StringView = "char Span"

fun builtin_strchr :: "string \<Rightarrow> char \<Rightarrow> nat option outcome" where
  "builtin_strchr [] ch = Inl (UNDEFINED ''out of bounds'')"
| "builtin_strchr (c # cs) ch =
     (if c = ch then Inr (Some 0)
      else if c = CHR 0x00 then Inr None
      else bindE (builtin_strchr cs ch) (\<lambda>r. Inr (map_option Suc r)))"

definition StringView_index_of :: "StringView \<Rightarrow> char \<Rightarrow> usize option outcome" where
  "StringView_index_of s ch =
     bindE (builtin_strchr (sp_m_data s) ch) (\<lambda>pointer.
       case pointer of None \<Rightarrow> Inr None | Some n \<Rightarrow> Inr (Some (of_nat n)))"

definition StringView_substr :: "StringView \<Rightarrow> usize \<Rightarrow> StringView outcome" where
  "StringView_substr s index =
     checkE (index \<le> Span_size s) (VERIFY ''index <= size()'')
       (Inr (Span_of (drop (unat index) (sp_m_data s)) (Span_size s - index)))"

definition StringView_substr_range :: "StringView \<Rightarrow> usize \<Rightarrow> usize \<Rightarrow> StringView outcome" where
  "StringView_substr_range s start end =
     checkE (start \<le> end) (VERIFY ''start <= end'')
     (checkE (end \<le> Span_size s) (VERIFY ''end <= size()'')
       (Inr (Span_of (drop (unat start) (sp_m_data s)) (end - start))))"

definition StringView_trim :: "StringView \<Rightarrow> usize \<Rightarrow> StringView" where
  "StringView_trim s sz = (let sz = Std_min (Span_size s) sz in Span_of (sp_m_data s) sz)"

definition StringView_strcpy_to :: "StringView \<Rightarrow> char Span \<Rightarrow> char Span outcome" where
  "StringView_strcpy_to s other =
     checkE (Span_size other \<ge> Span_size s + 1) (VERIFY ''other.size() >= size() + 1'')
     (bindE (memcpy_list (sp_m_data other) (sp_m_data s) (unat (Span_size s))) (\<lambda>data.
      Span_put (other\<lparr>sp_m_data := data\<rparr>) (Span_size s) (CHR 0x00)))"

definition StringView_starts_with :: "StringView \<Rightarrow> char \<Rightarrow> bool outcome" where
  "StringView_starts_with s ch =
     (if Span_size s \<ge> 1 then bindE (Span_at s 0) (\<lambda>c. Inr (c = ch)) else Inr False)"

datatype strong_ordering = Less | Equal | Greater

definition StringView_compare :: "StringView \<Rightarrow> StringView \<Rightarrow> strong_ordering outcome" where
  "StringView_compare s rhs =
     (if Span_size s < Span_size rhs then Inr Less
      else if Span_size s > Span_size rhs then Inr Greater
      else bindE (memcmp (sp_m_data s) (sp_m_data rhs) (Span_size s)) (\<lambda>retval.
        if retval < 0 then Inr Less else if retval > 0 then Inr Greater else Inr Equal))"

definition StringView_equal :: "StringView \<Rightarrow> StringView \<Rightarrow> bool outcome" where
  "StringView_equal s rhs = bindE (StringView_compare s rhs) (\<lambda>r. Inr (r = Equal))"

text \<open>Strings are ordered by length first.\<close>

definition shortlex :: "string \<Rightarrow> string \<Rightarrow> bool" where
  "shortlex xs ys \<longleftrightarrow> length xs < length ys \<or> length xs = length ys \<and> xs < ys"

text \<open>
  C18. The comparison of string views is the length-lexicographic order of what they show: it never
  reads outside them, equality is equality of the characters, and exactly one of the three results
  holds.
\<close>

theorem StringView_compare_shortlex:
  assumes "span_ok s" and "span_ok t"
  shows "StringView_compare s t = Inr
    (if view s = view t then Equal else if shortlex (view s) (view t) then Less else Greater)"
proof -
  have len: "length (view s) = unat (sp_m_size s)" "length (view t) = unat (sp_m_size t)"
    using assms by (simp_all add: length_view)
  consider "sp_m_size s < sp_m_size t" | "sp_m_size t < sp_m_size s" | "sp_m_size s = sp_m_size t"
    by (rule linorder_cases)
  then show ?thesis
  proof cases
    case 3
    have "memcmp (sp_m_data s) (sp_m_data t) (sp_m_size s) = Inr (compare_sign (view s) (view t))"
      using assms 3 memcmp_sign[of "sp_m_size s" "sp_m_data s" "sp_m_data t"]
      by (simp add: span_ok_def view_def)
    then show ?thesis
      using 3 len by (auto simp: StringView_compare_def Span_size_def compare_sign_def shortlex_def)
  qed (use len in \<open>auto simp: StringView_compare_def Span_size_def shortlex_def word_less_nat_alt\<close>)
qed

theorem StringView_compare_shortlex_witness:
  "StringView_compare (Span_of ''zz'' 2) (Span_of ''abc'' 3) = Inr Less"
  using StringView_compare_shortlex[of "Span_of ''zz'' 2" "Span_of ''abc'' 3"]
  by (simp add: span_ok_def Span_of_def view_def shortlex_def)

text \<open>
  C19. \<^verbatim>\<open>index_of\<close> does not stop at the end of the view: when the character is not in the view but
  follows it in the underlying object, the result is an index past the view's end.
\<close>

lemma builtin_strchr_found:
  "ch \<notin> set xs \<Longrightarrow> CHR 0x00 \<notin> set xs \<Longrightarrow> builtin_strchr (xs @ ch # ys) ch = Inr (Some (length xs))"
  by (induction xs) auto

theorem StringView_index_of_overruns:
  assumes "sp_m_data s = view s @ us @ ch # vs" and "length (view s @ us) < 2 ^ 32"
    and "ch \<notin> set (view s @ us)" and "CHR 0x00 \<notin> set (view s @ us)"
  shows "\<exists>n. StringView_index_of s ch = Inr (Some n) \<and> length (view s) \<le> unat n"
proof -
  have "builtin_strchr ((view s @ us) @ ch # vs) ch = Inr (Some (length (view s @ us)))"
    using assms(3,4) by (intro builtin_strchr_found)
  then have "StringView_index_of s ch = Inr (Some (of_nat (length (view s @ us))))"
    using assms(1) by (simp add: StringView_index_of_def)
  moreover have "unat (of_nat (length (view s @ us)) :: u32) = length (view s @ us)"
    by (rule word_of_nat_unat_eq[OF refl assms(2)])
  ultimately show ?thesis by auto
qed

theorem StringView_index_of_overruns_witness:
  "\<exists>n. StringView_index_of (Span_of (''key=value'' @ [CHR 0x00]) 3) (CHR ''='') = Inr (Some n) \<and>
     length (view (Span_of (''key=value'' @ [CHR 0x00]) 3)) \<le> unat n"
  by (rule StringView_index_of_overruns[where us = "[]" and vs = "''value'' @ [CHR 0x00]"])
    (simp_all add: Span_of_def view_def)

subsection \<open>The lexer\<close>

record Lexer =
  lx_m_input :: StringView
  lx_m_offset :: usize

definition Lexer_new :: "StringView \<Rightarrow> Lexer" where
  "Lexer_new input = \<lparr>lx_m_input = input, lx_m_offset = 0\<rparr>"

definition Lexer_eof :: "Lexer \<Rightarrow> bool" where
  "Lexer_eof lx \<longleftrightarrow> lx_m_offset lx \<ge> Span_size (lx_m_input lx)"

definition Lexer_peek :: "Lexer \<Rightarrow> char option outcome" where
  "Lexer_peek lx =
     (if Lexer_eof lx then Inr None
      else bindE (Span_at (lx_m_input lx) (lx_m_offset lx)) (\<lambda>c. Inr (Some c)))"

definition Lexer_peek_or_null :: "Lexer \<Rightarrow> char outcome" where
  "Lexer_peek_or_null lx =
     bindE (Lexer_peek lx) (\<lambda>r. Inr (case r of Some c \<Rightarrow> c | None \<Rightarrow> CHR 0x00))"

definition Lexer_consume :: "Lexer \<Rightarrow> (char \<times> Lexer) outcome" where
  "Lexer_consume lx =
     checkE (\<not> Lexer_eof lx) (ASSERT ''!eof()'')
     (bindE (Span_at (lx_m_input lx) (lx_m_offset lx)) (\<lambda>c.
      Inr (c, lx\<lparr>lx_m_offset := lx_m_offset lx + 1\<rparr>)))"

definition Lexer_try_consume :: "Lexer \<Rightarrow> char \<Rightarrow> (bool \<times> Lexer) outcome" where
  "Lexer_try_consume lx ch =
     checkE (ch \<noteq> CHR 0x00) (ASSERT ''ch != 0'')
     (bindE (Lexer_peek_or_null lx) (\<lambda>c.
      if c = ch then bindE (Lexer_consume lx) (\<lambda>(_, lx). Inr (True, lx)) else Inr (False, lx)))"

definition Lexer_remaining :: "Lexer \<Rightarrow> usize" where
  "Lexer_remaining lx = Span_size (lx_m_input lx) - lx_m_offset lx"

fun Lexer_matches :: "nat \<Rightarrow> Lexer \<Rightarrow> StringView \<Rightarrow> usize \<Rightarrow> bool outcome" where
  "Lexer_matches fuel lx str i =
     (if i < Span_size str
      then if fuel = 0 then Inl DIVERGES
           else bindE (Span_at (lx_m_input lx) (lx_m_offset lx + i)) (\<lambda>a.
                bindE (Span_at str i) (\<lambda>b.
                if a \<noteq> b then Inr False else Lexer_matches (fuel - 1) lx str (i + 1)))
      else Inr True)"

declare Lexer_matches.simps [simp del]

definition Lexer_try_consume_view :: "Lexer \<Rightarrow> StringView \<Rightarrow> (bool \<times> Lexer) outcome" where
  "Lexer_try_consume_view lx str =
     (if Span_size str > Lexer_remaining lx then Inr (False, lx)
      else bindE (Lexer_matches (unat (Span_size str)) lx str 0) (\<lambda>m.
        if m then Inr (True, lx\<lparr>lx_m_offset := lx_m_offset lx + Span_size str\<rparr>)
        else Inr (False, lx)))"

fun Lexer_consume_until_loop :: "nat \<Rightarrow> Lexer \<Rightarrow> char \<Rightarrow> Lexer outcome" where
  "Lexer_consume_until_loop fuel lx ch =
     (if Lexer_eof lx then Inr lx
      else bindE (Lexer_peek_or_null lx) (\<lambda>c.
        if c = ch then Inr lx
        else if fuel = 0 then Inl DIVERGES
        else bindE (Lexer_consume lx) (\<lambda>(_, lx). Lexer_consume_until_loop (fuel - 1) lx ch)))"

declare Lexer_consume_until_loop.simps [simp del]

definition Lexer_consume_until :: "Lexer \<Rightarrow> char \<Rightarrow> (StringView \<times> Lexer) outcome" where
  "Lexer_consume_until lx ch =
     (let offset = lx_m_offset lx
      in bindE (Lexer_consume_until_loop (unat (Span_size (lx_m_input lx))) lx ch) (\<lambda>lx.
         bindE (StringView_substr_range (lx_m_input lx) offset (lx_m_offset lx)) (\<lambda>v. Inr (v, lx))))"

text \<open>What a lexer has left.\<close>

definition rest :: "Lexer \<Rightarrow> string" where
  "rest lx = drop (unat (lx_m_offset lx)) (view (lx_m_input lx))"

definition lexer_ok :: "Lexer \<Rightarrow> bool" where
  "lexer_ok lx \<longleftrightarrow> span_ok (lx_m_input lx) \<and> lx_m_offset lx \<le> sp_m_size (lx_m_input lx)"

lemma lexer_new: "span_ok s \<Longrightarrow> lexer_ok (Lexer_new s) \<and> rest (Lexer_new s) = view s"
  by (simp add: lexer_ok_def rest_def Lexer_new_def)

lemma eof_rest: "lexer_ok lx \<Longrightarrow> Lexer_eof lx \<longleftrightarrow> rest lx = []"
  by (auto simp: lexer_ok_def rest_def Lexer_eof_def Span_size_def length_view word_le_nat_alt)

lemma rest_Cons:
  assumes "lexer_ok lx" and "rest lx = c # cs"
  shows "Span_at (lx_m_input lx) (lx_m_offset lx) = Inr c"
    and "unat (lx_m_offset lx + 1) = Suc (unat (lx_m_offset lx))"
    and "unat (lx_m_offset lx) < unat (sp_m_size (lx_m_input lx))"
proof -
  have ok: "span_ok (lx_m_input lx)" using assms(1) by (simp add: lexer_ok_def)
  have less: "unat (lx_m_offset lx) < length (view (lx_m_input lx))"
    using assms(2) by (metis rest_def drop_all leI list.discI)
  then have "view (lx_m_input lx) ! unat (lx_m_offset lx) = c"
    using assms(2) by (metis rest_def hd_drop_conv_nth list.sel(1))
  with less show "Span_at (lx_m_input lx) (lx_m_offset lx) = Inr c" by (simp add: Span_at_view[OF ok])
  from less show "unat (lx_m_offset lx) < unat (sp_m_size (lx_m_input lx))" by (simp add: length_view[OF ok])
  then show "unat (lx_m_offset lx + 1) = Suc (unat (lx_m_offset lx))"
    by (simp add: unat_inc less_trans[OF _ unat_bound32])
qed

lemma consume_rest:
  assumes "lexer_ok lx" and "rest lx = c # cs"
  shows "\<exists>lx'. Lexer_consume lx = Inr (c, lx') \<and> lexer_ok lx' \<and> rest lx' = cs \<and>
     lx_m_input lx' = lx_m_input lx \<and> lx_m_offset lx' = lx_m_offset lx + 1"
proof -
  note R = rest_Cons[OF assms]
  have "drop (Suc (unat (lx_m_offset lx))) (view (lx_m_input lx)) = cs"
    using assms(2) by (simp add: rest_def drop_Suc flip: tl_drop)
  then show ?thesis
    using R assms eof_rest[OF assms(1)]
    by (auto simp: Lexer_consume_def lexer_ok_def rest_def word_le_nat_alt)
qed

lemma peek_rest:
  "lexer_ok lx \<Longrightarrow> Lexer_peek_or_null lx = Inr (case rest lx of [] \<Rightarrow> CHR 0x00 | c # _ \<Rightarrow> c)"
  using eof_rest[of lx] rest_Cons(1)[of lx]
  by (cases "rest lx") (auto simp: Lexer_peek_or_null_def Lexer_peek_def)

lemma try_consume_rest:
  assumes "lexer_ok lx" and "ch \<noteq> CHR 0x00"
  shows "\<exists>lx'. Lexer_try_consume lx ch = Inr (rest lx \<noteq> [] \<and> hd (rest lx) = ch, lx') \<and>
     lexer_ok lx' \<and> rest lx' = (if rest lx \<noteq> [] \<and> hd (rest lx) = ch then tl (rest lx) else rest lx)"
proof (cases "rest lx")
  case Nil
  then show ?thesis using assms peek_rest[OF assms(1)] by (simp add: Lexer_try_consume_def)
next
  case (Cons c cs)
  then show ?thesis
    using assms peek_rest[OF assms(1)] consume_rest[OF assms(1) Cons]
    by (auto simp: Lexer_try_consume_def)
qed

lemma consume_until_loop_rest:
  "lexer_ok lx \<Longrightarrow> length (rest lx) \<le> fuel \<Longrightarrow>
   \<exists>lx'. Lexer_consume_until_loop fuel lx ch = Inr lx' \<and> lexer_ok lx' \<and>
     rest lx' = dropWhile (\<lambda>c. c \<noteq> ch) (rest lx) \<and> lx_m_input lx' = lx_m_input lx \<and>
     unat (lx_m_offset lx') = unat (lx_m_offset lx) + length (takeWhile (\<lambda>c. c \<noteq> ch) (rest lx))"
proof (induction fuel arbitrary: lx)
  case 0
  then show ?case using eof_rest[of lx] by (subst Lexer_consume_until_loop.simps) simp
next
  case (Suc fuel)
  show ?case
  proof (cases "rest lx")
    case Nil
    then show ?thesis using Suc.prems eof_rest[of lx]
      by (subst Lexer_consume_until_loop.simps) simp
  next
    case (Cons c cs)
    show ?thesis
    proof (cases "c = ch")
      case True
      then show ?thesis using Suc.prems Cons eof_rest[of lx] peek_rest[of lx]
        by (subst Lexer_consume_until_loop.simps) simp
    next
      case False
      obtain lx1 where lx1: "Lexer_consume lx = Inr (c, lx1)" "lexer_ok lx1" "rest lx1 = cs"
        "lx_m_input lx1 = lx_m_input lx" "lx_m_offset lx1 = lx_m_offset lx + 1"
        using consume_rest[OF Suc.prems(1) Cons] by blast
      have off: "unat (lx_m_offset lx1) = Suc (unat (lx_m_offset lx))"
        using rest_Cons(2)[OF Suc.prems(1) Cons] lx1(5) by simp
      from Suc.IH[OF lx1(2)] Suc.prems(2) Cons lx1(3,4) off obtain lx2 where
        "Lexer_consume_until_loop fuel lx1 ch = Inr lx2" "lexer_ok lx2"
        "rest lx2 = dropWhile (\<lambda>c. c \<noteq> ch) cs" "lx_m_input lx2 = lx_m_input lx"
        "unat (lx_m_offset lx2) = Suc (unat (lx_m_offset lx)) + length (takeWhile (\<lambda>c. c \<noteq> ch) cs)"
        by auto
      then show ?thesis using False Cons lx1(1) Suc.prems(1) eof_rest[of lx] peek_rest[of lx]
        by (subst Lexer_consume_until_loop.simps) simp
    qed
  qed
qed

lemma consume_until_rest:
  assumes "lexer_ok lx"
  shows "\<exists>v lx'. Lexer_consume_until lx ch = Inr (v, lx') \<and> span_ok v \<and>
     view v = takeWhile (\<lambda>c. c \<noteq> ch) (rest lx) \<and> lexer_ok lx' \<and>
     rest lx' = dropWhile (\<lambda>c. c \<noteq> ch) (rest lx)"
proof -
  let ?w = "takeWhile (\<lambda>c. c \<noteq> ch) (rest lx)" and ?in = "lx_m_input lx" and ?o = "lx_m_offset lx"
  have ok: "span_ok ?in" and le: "?o \<le> sp_m_size ?in" using assms by (simp_all add: lexer_ok_def)
  have "length (rest lx) \<le> unat (Span_size ?in)"
    by (simp add: rest_def Span_size_def length_view[OF ok])
  from consume_until_loop_rest[OF assms this] obtain lx' where
    lx': "Lexer_consume_until_loop (unat (Span_size ?in)) lx ch = Inr lx'" "lexer_ok lx'"
    "rest lx' = dropWhile (\<lambda>c. c \<noteq> ch) (rest lx)" "lx_m_input lx' = ?in"
    "unat (lx_m_offset lx') = unat ?o + length ?w" by blast
  define v where "v = Span_of (drop (unat ?o) (sp_m_data ?in)) (lx_m_offset lx' - ?o)"
  have o': "?o \<le> lx_m_offset lx'" "lx_m_offset lx' \<le> sp_m_size ?in"
    using lx'(2,4,5) by (simp_all add: lexer_ok_def word_le_nat_alt)
  then have len: "unat (lx_m_offset lx' - ?o) = length ?w"
    using lx'(5) by (simp add: unat_sub_small word_le_nat_alt)
  have "take (length ?w) (rest lx) = ?w" by (metis takeWhile_eq_take)
  moreover have "take (length ?w) (drop (unat ?o) (sp_m_data ?in)) = take (length ?w) (rest lx)"
  proof -
    have "unat ?o + length ?w \<le> unat (sp_m_size ?in)"
      using o'(2) lx'(5) by (simp add: word_le_nat_alt)
    then show ?thesis by (simp add: rest_def view_def drop_take min_def)
  qed
  ultimately have "view v = ?w" by (simp add: v_def Span_of_def view_def len)
  moreover have "span_ok v"
    using o'(2) lx'(5) ok len by (simp add: v_def Span_of_def span_ok_def word_le_nat_alt)
  moreover have "Lexer_consume_until lx ch = Inr (v, lx')"
    using lx'(1,4) o' by (simp add: Lexer_consume_until_def Let_def StringView_substr_range_def
        v_def Span_size_def)
  ultimately show ?thesis using lx' by blast
qed


subsection \<open>Paths\<close>

record Path =
  pa_m_is_absolute :: bool
  pa_m_components :: "string list"

definition Path_empty :: Path where
  "Path_empty = \<lparr>pa_m_is_absolute = False, pa_m_components = []\<rparr>"

fun Path_parse_loop :: "nat \<Rightarrow> Lexer \<Rightarrow> string list \<Rightarrow> string list outcome" where
  "Path_parse_loop fuel lexer m_components =
     (if Lexer_eof lexer then Inr m_components
      else if fuel = 0 then Inl DIVERGES
      else bindE (Lexer_consume_until lexer (CHR ''/'')) (\<lambda>(component, lexer).
           let m_components = m_components @ [view component]
           in bindE (if \<not> Lexer_eof lexer then Lexer_try_consume lexer (CHR ''/'') else Inr (False, lexer))
                (\<lambda>(_, lexer). Path_parse_loop (fuel - 1) lexer m_components)))"

declare Path_parse_loop.simps [simp del]

definition Path_new :: "StringView \<Rightarrow> Path outcome" where
  "Path_new path =
     checkE (Span_size path \<ge> 1) (VERIFY ''path.size() >= 1'')
     (let lexer = Lexer_new path
      in bindE (Lexer_try_consume lexer (CHR ''/'')) (\<lambda>(m_is_absolute, lexer).
         bindE (Path_parse_loop (unat (Span_size path)) lexer []) (\<lambda>m_components.
         Inr \<lparr>pa_m_is_absolute = m_is_absolute, pa_m_components = m_components\<rparr>)))"

definition Path_parent :: "Path \<Rightarrow> Path outcome" where
  "Path_parent p =
     checkE (length (pa_m_components p) \<ge> 1) (VERIFY ''m_components.size() >= 1'')
     (let parent = Path_empty\<lparr>pa_m_is_absolute := pa_m_is_absolute p\<rparr>
      in Inr (parent\<lparr>pa_m_components := take (length (pa_m_components p) - 1) (pa_m_components p)\<rparr>))"

definition Path_filename :: "Path \<Rightarrow> string outcome" where
  "Path_filename p =
     checkE (length (pa_m_components p) \<ge> 1) (VERIFY ''m_components.size() >= 1'')
       (Inr (pa_m_components p ! (length (pa_m_components p) - 1)))"

fun Path_string_loop :: "bool \<Rightarrow> string list \<Rightarrow> string \<Rightarrow> string" where
  "Path_string_loop put_slash [] builder = builder"
| "Path_string_loop put_slash (component # cs) builder =
     Path_string_loop True cs ((if put_slash then builder @ ''/'' else builder) @ component)"

definition Path_string :: "Path \<Rightarrow> string" where
  "Path_string p =
     (if pa_m_is_absolute p \<and> length (pa_m_components p) = 0 then ''/''
      else Path_string_loop (pa_m_is_absolute p) (pa_m_components p) [])"

definition Path_append :: "Path \<Rightarrow> Path \<Rightarrow> Path outcome" where
  "Path_append p rhs =
     checkE (\<not> pa_m_is_absolute rhs) (ASSERT ''!rhs.is_absolute()'')
       (Inr (p\<lparr>pa_m_components := pa_m_components p @ pa_m_components rhs\<rparr>))"

definition Path_assign :: "Path \<Rightarrow> Path \<Rightarrow> Path" where
  "Path_assign p rhs =
     p\<lparr>pa_m_is_absolute := pa_m_is_absolute rhs, pa_m_components := pa_m_components rhs\<rparr>"

text \<open>
  The reference: a string without its leading slash is cut at every slash; a trailing slash
  does not start another component, but two slashes in a row enclose an empty one.
\<close>

function split_slash :: "string \<Rightarrow> string list" where
  "split_slash xs =
     (if xs = [] then []
      else takeWhile (\<lambda>c. c \<noteq> CHR ''/'') xs # split_slash (tl (dropWhile (\<lambda>c. c \<noteq> CHR ''/'') xs)))"
  by pat_completeness auto
termination
proof (relation "measure length")
  fix xs :: string assume "xs \<noteq> []"
  then have "0 < length xs" by simp
  with length_dropWhile_le[of "\<lambda>c. c \<noteq> CHR ''/''" xs]
  have "length (dropWhile (\<lambda>c. c \<noteq> CHR ''/'') xs) - 1 < length xs" by linarith
  then show "(tl (dropWhile (\<lambda>c. c \<noteq> CHR ''/'') xs), xs) \<in> measure length"
    by (simp only: in_measure length_tl)
qed simp

declare split_slash.simps [simp del]

lemma path_step:
  assumes "lexer_ok lx" and "rest lx \<noteq> []"
  shows "\<exists>v lx1 b lx2. Lexer_consume_until lx (CHR ''/'') = Inr (v, lx1) \<and>
     view v = takeWhile (\<lambda>c. c \<noteq> CHR ''/'') (rest lx) \<and>
     (if \<not> Lexer_eof lx1 then Lexer_try_consume lx1 (CHR ''/'') else Inr (False, lx1)) = Inr (b, lx2) \<and>
     lexer_ok lx2 \<and> rest lx2 = tl (dropWhile (\<lambda>c. c \<noteq> CHR ''/'') (rest lx))"
proof -
  from consume_until_rest[OF assms(1)] obtain v lx1 where
    1: "Lexer_consume_until lx (CHR ''/'') = Inr (v, lx1)"
    "view v = takeWhile (\<lambda>c. c \<noteq> CHR ''/'') (rest lx)" "lexer_ok lx1"
    "rest lx1 = dropWhile (\<lambda>c. c \<noteq> CHR ''/'') (rest lx)" by blast
  let ?q = "if \<not> Lexer_eof lx1 then Lexer_try_consume lx1 (CHR ''/'') else Inr (False, lx1)"
  have "\<exists>b lx2. ?q = Inr (b, lx2) \<and> lexer_ok lx2 \<and> rest lx2 = tl (rest lx1)"
  proof (cases "rest lx1 = []")
    case True
    then show ?thesis using eof_rest[OF 1(3)] 1(3) by auto
  next
    case False
    then have "hd (rest lx1) = CHR ''/''"
      using hd_dropWhile[of "\<lambda>c. c \<noteq> CHR ''/''" "rest lx"] unfolding 1(4) by blast
    then show ?thesis
      using False eof_rest[OF 1(3)] try_consume_rest[OF 1(3), of "CHR ''/''"] by auto
  qed
  then obtain b lx2 where 2: "?q = Inr (b, lx2)" "lexer_ok lx2" "rest lx2 = tl (rest lx1)" by blast
  show ?thesis
    by (rule exI[where x = v], rule exI[where x = lx1], rule exI[where x = b], rule exI[where x = lx2])
      (intro conjI 1(1,2) 2(1,2) 2(3)[unfolded 1(4)])
qed

lemma path_parse_loop:
  "lexer_ok lx \<Longrightarrow> length (rest lx) \<le> fuel \<Longrightarrow>
   Path_parse_loop fuel lx acc = Inr (acc @ split_slash (rest lx))"
proof (induction fuel arbitrary: lx acc)
  case 0
  then show ?case using eof_rest[of lx]
    by (subst Path_parse_loop.simps) (simp add: split_slash.simps)
next
  case (Suc fuel)
  show ?case
  proof (cases "rest lx = []")
    case True
    then show ?thesis using Suc.prems eof_rest[of lx]
      by (subst Path_parse_loop.simps) (simp add: split_slash.simps)
  next
    case False
    from path_step[OF Suc.prems(1) False] obtain v lx1 b lx2 where
      st: "Lexer_consume_until lx (CHR ''/'') = Inr (v, lx1)"
      "view v = takeWhile (\<lambda>c. c \<noteq> CHR ''/'') (rest lx)"
      "(if \<not> Lexer_eof lx1 then Lexer_try_consume lx1 (CHR ''/'') else Inr (False, lx1)) = Inr (b, lx2)"
      "lexer_ok lx2" "rest lx2 = tl (dropWhile (\<lambda>c. c \<noteq> CHR ''/'') (rest lx))" by blast
    have "length (rest lx2) \<le> fuel"
      using Suc.prems(2) False st(5) length_dropWhile_le[of "\<lambda>c. c \<noteq> CHR ''/''" "rest lx"]
      by (cases "rest lx") auto
    note IH = Suc.IH[OF st(4) this, of "acc @ [view v]"]
    have "\<not> Lexer_eof lx" using False eof_rest[OF Suc.prems(1)] by simp
    then have "Path_parse_loop (Suc fuel) lx acc = Inr ((acc @ [view v]) @ split_slash (rest lx2))"
      using st(1,3) IH by (subst Path_parse_loop.simps) simp
    also have "split_slash (rest lx) = view v # split_slash (rest lx2)"
      using False st(2,5) by (subst split_slash.simps) simp
    ultimately show ?thesis by simp
  qed
qed

lemma Path_new_eq:
  assumes "span_ok s"
  shows "Path_new s =
    (case view s of
       [] \<Rightarrow> Inl (VERIFY ''path.size() >= 1'')
     | c # cs \<Rightarrow> Inr \<lparr>pa_m_is_absolute = (c = CHR ''/''),
         pa_m_components = split_slash (if c = CHR ''/'' then cs else c # cs)\<rparr>)"
proof (cases "view s")
  case Nil
  then have "sp_m_size s = 0" using length_view[OF assms] by (simp add: unat_eq_zero)
  then show ?thesis using Nil by (simp add: Path_new_def Span_size_def)
next
  case (Cons c cs)
  then have sz: "unat (sp_m_size s) = Suc (length cs)" using length_view[OF assms] by simp
  then have ge: "1 \<le> sp_m_size s" by (simp add: word_le_nat_alt)
  from try_consume_rest[of "Lexer_new s" "CHR ''/''"] lexer_new[OF assms] Cons obtain lx where
    lx: "Lexer_try_consume (Lexer_new s) (CHR ''/'') = Inr (c = CHR ''/'', lx)" "lexer_ok lx"
      "rest lx = (if c = CHR ''/'' then cs else c # cs)" by auto
  have "length (rest lx) \<le> unat (sp_m_size s)" using lx(3) sz by simp
  from path_parse_loop[OF lx(2) this, of "[]"] show ?thesis
    using lx Cons ge by (simp add: Path_new_def Span_size_def Let_def)
qed

text \<open>
  C20. Parsing a path reads any view with at least one character to its end, never crashes, and
  yields the components between the slashes: the constructor's loop is equivalent to cutting the
  string at every slash, after a leading one that makes the path absolute.  Only the empty view
  stops the kernel.
\<close>

theorem Path_new_splits:
  assumes "span_ok s"
  shows "Path_new s =
    (case view s of
       [] \<Rightarrow> Inl (VERIFY ''path.size() >= 1'')
     | c # cs \<Rightarrow> Inr \<lparr>pa_m_is_absolute = (c = CHR ''/''),
         pa_m_components = split_slash (if c = CHR ''/'' then cs else c # cs)\<rparr>)"
  by (rule Path_new_eq[OF assms])

theorem Path_new_splits_witness:
  "Path_new (Span_of ''/etc//motd'' 10) =
     Inr \<lparr>pa_m_is_absolute = True, pa_m_components = [''etc'', [], ''motd'']\<rparr>"
  using Path_new_splits[of "Span_of ''/etc//motd'' 10"]
  by (simp add: span_ok_def Span_of_def view_def split_slash.simps)

lemma split_slash_Cons:
  "c \<noteq> [] \<Longrightarrow> CHR ''/'' \<notin> set c \<Longrightarrow> split_slash (c @ CHR ''/'' # xs) = c # split_slash xs"
  by (subst split_slash.simps) (auto simp: takeWhile_append dropWhile_append)

lemma split_slash_single: "c \<noteq> [] \<Longrightarrow> CHR ''/'' \<notin> set c \<Longrightarrow> split_slash c = [c]"
proof -
  assume c: "c \<noteq> []" "CHR ''/'' \<notin> set c"
  then have all: "\<forall>x\<in>set c. x \<noteq> CHR ''/''" by auto
  have t: "takeWhile (\<lambda>c. c \<noteq> CHR ''/'') c = c" using all by (simp only: takeWhile_eq_all_conv)
  have d: "dropWhile (\<lambda>c. c \<noteq> CHR ''/'') c = []" using all by (simp only: dropWhile_eq_Nil_conv)
  have "split_slash [] = []" by (simp add: split_slash.simps)
  then show ?thesis using c(1) by (subst split_slash.simps) (simp only: t d list.sel if_False)
qed

definition path_ok :: "Path \<Rightarrow> bool" where
  "path_ok p \<longleftrightarrow> (\<forall>c\<in>set (pa_m_components p). c \<noteq> [] \<and> CHR ''/'' \<notin> set c)"

lemma string_loop_append: "Path_string_loop b cs xs = xs @ Path_string_loop b cs []"
proof (induction cs arbitrary: b xs)
  case (Cons c cs)
  have "Path_string_loop b (c # cs) xs =
      ((if b then xs @ ''/'' else xs) @ c) @ Path_string_loop True cs []"
    using Cons[of True "(if b then xs @ ''/'' else xs) @ c"] by simp
  moreover have "Path_string_loop b (c # cs) [] =
      ((if b then ''/'' else []) @ c) @ Path_string_loop True cs []"
    using Cons[of True "(if b then ''/'' else []) @ c"] by (cases b) simp_all
  ultimately show ?case by (cases b) simp_all
qed simp

lemma split_string_loop:
  "cs \<noteq> [] \<Longrightarrow> \<forall>c\<in>set cs. c \<noteq> [] \<and> CHR ''/'' \<notin> set c \<Longrightarrow>
   split_slash (Path_string_loop False cs []) = cs"
proof (induction cs)
  case (Cons c cs)
  show ?case
  proof (cases cs)
    case Nil
    then show ?thesis using Cons.prems by (simp add: split_slash_single)
  next
    case (Cons d ds)
    have eq: "Path_string_loop False (c # cs) [] = c @ CHR ''/'' # Path_string_loop False cs []"
      using Cons string_loop_append[of True ds "c @ ''/'' @ d"] string_loop_append[of True ds d] by simp
    show ?thesis
      using Cons.prems Cons Cons.IH eq by (simp add: split_slash_Cons)
  qed
qed simp

lemma string_loop_True:
  "cs \<noteq> [] \<Longrightarrow> Path_string_loop True cs [] = CHR ''/'' # Path_string_loop False cs []"
proof (cases cs)
  case (Cons d ds)
  then show ?thesis
    using string_loop_append[of True ds "''/'' @ d"] string_loop_append[of True ds d] by simp
qed simp

lemma string_loop_hd:
  "cs \<noteq> [] \<Longrightarrow> \<forall>c\<in>set cs. c \<noteq> [] \<and> CHR ''/'' \<notin> set c \<Longrightarrow>
   \<exists>x xs. Path_string_loop False cs [] = x # xs \<and> x \<noteq> CHR ''/''"
proof (cases cs)
  case (Cons d ds)
  assume "\<forall>c\<in>set cs. c \<noteq> [] \<and> CHR ''/'' \<notin> set c"
  then show ?thesis
    using Cons string_loop_append[of True ds d] by (cases d) auto
qed simp

text \<open>
  C21. Printing a path and parsing what was printed gives the path back, for every absolute path and
  every non-empty relative one whose components are non-empty and free of slashes.
\<close>

theorem Path_string_roundtrip:
  assumes "path_ok p" and "pa_m_is_absolute p \<or> pa_m_components p \<noteq> []"
    and "length (Path_string p) < 2 ^ 32"
  shows "Path_new (Span_of (Path_string p) (of_nat (length (Path_string p)))) = Inr p"
proof -
  let ?s = "Span_of (Path_string p) (of_nat (length (Path_string p)))"
  have ok: "span_ok ?s" and v: "view ?s = Path_string p"
    using word_of_nat_unat_eq[OF refl assms(3)] by (simp_all add: span_ok_def Span_of_def view_def)
  show ?thesis
  proof (cases "pa_m_components p = []")
    case True
    then have "view ?s = ''/''" using v assms(2) by (simp add: Path_string_def)
    then show ?thesis
      using Path_new_eq[OF ok] True assms(2) by (simp add: split_slash.simps)
  next
    case False
    note ok' = assms(1)[unfolded path_ok_def]
    obtain x xs where x: "Path_string_loop False (pa_m_components p) [] = x # xs" "x \<noteq> CHR ''/''"
      using string_loop_hd[OF False ok'] by blast
    show ?thesis
      using Path_new_eq[OF ok] v False x split_string_loop[OF False ok'] string_loop_True[OF False]
      by (cases "pa_m_is_absolute p") (simp_all add: Path_string_def)
  qed
qed

theorem Path_string_roundtrip_witness:
  "Path_new (Span_of (Path_string \<lparr>pa_m_is_absolute = True, pa_m_components = [''dev'', ''tty'']\<rparr>) 8) =
     Inr \<lparr>pa_m_is_absolute = True, pa_m_components = [''dev'', ''tty'']\<rparr>"
  using Path_string_roundtrip[of "\<lparr>pa_m_is_absolute = True, pa_m_components = [''dev'', ''tty'']\<rparr>"]
  by (simp add: path_ok_def Path_string_def)

text \<open>A path below a directory has that directory as its parent and the name as its filename.\<close>

lemma path_parent_append:
  "Path_append p \<lparr>pa_m_is_absolute = False, pa_m_components = [name]\<rparr> = Inr q \<Longrightarrow>
   Path_parent q = Inr p \<and> Path_filename q = Inr name"
  by (auto simp: Path_append_def Path_parent_def Path_filename_def Path_empty_def outcome_simps)

end
