(* ===== verification/Values.thy ===== *)
theory Values
  imports Prelude
begin

section \<open>Std/Optional.hpp, Std/Result.hpp, Std/Singleton.hpp and Std/ArmedScopeGuard.hpp\<close>

text \<open>
  The classes that hold one value.  Their storage is a slot: \<open>Some v\<close> while an object lives in
  it and \<open>None\<close> otherwise, so that reading or destroying an object outside its lifetime is an
  undefined outcome.  A family of optionals is related to a family of option values, operation by
  operation, with both operands of an assignment possibly the same object.
\<close>

subsection \<open>Optional\<close>

record 'a Optional =
  op_m_value :: "'a option"
  op_m_is_valid :: bool

definition Optional_new :: "'a Optional" where
  "Optional_new = \<lparr>op_m_value = None, op_m_is_valid = False\<rparr>"

definition Optional_of :: "'a \<Rightarrow> 'a Optional" where
  "Optional_of v = \<lparr>op_m_value = Some v, op_m_is_valid = True\<rparr>"

definition Optional_is_valid :: "'a Optional \<Rightarrow> bool" where
  "Optional_is_valid x = op_m_is_valid x"

definition Optional_value :: "'a Optional \<Rightarrow> 'a outcome" where
  "Optional_value x =
     (case op_m_value x of
        Some v \<Rightarrow> Inr v
      | None \<Rightarrow> Inl (UNDEFINED ''object outside its lifetime''))"

definition Optional_clear :: "'a Optional \<Rightarrow> 'a Optional outcome" where
  "Optional_clear x =
     (if op_m_is_valid x
      then let x = x\<lparr>op_m_is_valid := False\<rparr>
           in bindE (Optional_value x) (\<lambda>_. Inr (x\<lparr>op_m_value := None\<rparr>))
      else Inr x)"

definition Optional_value_or :: "'a Optional \<Rightarrow> 'a \<Rightarrow> 'a outcome" where
  "Optional_value_or x fallback =
     (if Optional_is_valid x then Optional_value x else Inr fallback)"

definition Optional_must :: "'a Optional \<Rightarrow> 'a outcome" where
  "Optional_must x = checkE (Optional_is_valid x) (VERIFY ''is_valid()'') (Optional_value x)"

text \<open>The overload on a temporary moves the value out and clears.\<close>

definition Optional_must_move :: "'a Optional \<Rightarrow> ('a \<times> 'a Optional) outcome" where
  "Optional_must_move x =
     checkE (Optional_is_valid x) (VERIFY ''is_valid()'')
     (bindE (Optional_value x) (\<lambda>tmp.
      bindE (Optional_clear x) (\<lambda>x. Inr (tmp, x))))"

text \<open>
  Assignment takes its operands from a family of variables, because they may be the same object:
  what \<open>other\<close> refers to is read after \<^verbatim>\<open>clear()\<close>.  A reference to a value names an object elsewhere
  or the object inside of an optional, which is what \<^verbatim>\<open>value()\<close> and \<^verbatim>\<open>must()\<close> return.
\<close>

type_synonym 'a vars = "nat \<Rightarrow> 'a"

datatype 'a value_ref = Elsewhere 'a | Inside nat

definition read_ref :: "'a Optional vars \<Rightarrow> 'a value_ref \<Rightarrow> 'a outcome" where
  "read_ref s r = (case r of Elsewhere v \<Rightarrow> Inr v | Inside j \<Rightarrow> Optional_value (s j))"

definition Optional_assign_value :: "'a Optional vars \<Rightarrow> nat \<Rightarrow> 'a value_ref \<Rightarrow> 'a Optional vars outcome" where
  "Optional_assign_value s this other =
     bindE (Optional_clear (s this)) (\<lambda>x.
     let s = s(this := x\<lparr>op_m_is_valid := True\<rparr>)
     in bindE (read_ref s other) (\<lambda>v. Inr (s(this := (s this)\<lparr>op_m_value := Some v\<rparr>))))"

definition Optional_assign_copy :: "'a Optional vars \<Rightarrow> nat \<Rightarrow> nat \<Rightarrow> 'a Optional vars outcome" where
  "Optional_assign_copy s this other =
     bindE (Optional_clear (s this)) (\<lambda>x.
     let s = s(this := x)
     in if Optional_is_valid (s other)
        then bindE (Optional_value (s other)) (\<lambda>v.
             Inr (s(this := (s this)\<lparr>op_m_is_valid := True, op_m_value := Some v\<rparr>)))
        else Inr s)"

definition Optional_assign_move :: "'a Optional vars \<Rightarrow> nat \<Rightarrow> nat \<Rightarrow> 'a Optional vars outcome" where
  "Optional_assign_move s this other =
     bindE (Optional_clear (s this)) (\<lambda>x.
     let s = s(this := x)
     in if Optional_is_valid (s other)
        then bindE (Optional_value (s other)) (\<lambda>v.
             let s = s(this := (s this)\<lparr>op_m_is_valid := True, op_m_value := Some v\<rparr>)
             in bindE (Optional_clear (s other)) (\<lambda>y. Inr (s(other := y))))
        else Inr s)"

text \<open>
  The constructors run on storage whose earlier object, if any, has been destroyed; the copy and
  move constructors assign to an empty optional.
\<close>

definition Optional_copy :: "'a Optional vars \<Rightarrow> nat \<Rightarrow> nat \<Rightarrow> 'a Optional vars outcome" where
  "Optional_copy s this other = Optional_assign_copy (s(this := Optional_new)) this other"

definition Optional_move :: "'a Optional vars \<Rightarrow> nat \<Rightarrow> nat \<Rightarrow> 'a Optional vars outcome" where
  "Optional_move s this other = Optional_assign_move (s(this := Optional_new)) this other"

definition Optional_destroy :: "'a Optional vars \<Rightarrow> nat \<Rightarrow> 'a Optional vars outcome" where
  "Optional_destroy s this = bindE (Optional_clear (s this)) (\<lambda>x. Inr (s(this := x)))"

datatype 'a optional_op =
    MakeEmpty nat
  | MakeValue nat "'a value_ref"
  | MakeCopy nat nat
  | MakeMove nat nat
  | SetValue nat "'a value_ref"
  | AssignCopy nat nat
  | AssignMove nat nat
  | Clear nat
  | IsValid nat
  | Must nat
  | MustMove nat
  | ValueOr nat 'a

datatype 'a optional_answer = Nothing | Flag bool | Just 'a

fun Optional_step :: "'a optional_op \<Rightarrow> 'a Optional vars \<Rightarrow> ('a optional_answer \<times> 'a Optional vars) outcome" where
  "Optional_step (MakeEmpty i) s =
     bindE (Optional_destroy s i) (\<lambda>s. Inr (Nothing, s(i := Optional_new)))"
| "Optional_step (MakeValue i r) s =
     bindE (Optional_destroy s i) (\<lambda>s. bindE (read_ref s r) (\<lambda>v. Inr (Nothing, s(i := Optional_of v))))"
| "Optional_step (MakeCopy i j) s =
     bindE (Optional_destroy s i) (\<lambda>s. bindE (Optional_copy s i j) (\<lambda>s. Inr (Nothing, s)))"
| "Optional_step (MakeMove i j) s =
     bindE (Optional_destroy s i) (\<lambda>s. bindE (Optional_move s i j) (\<lambda>s. Inr (Nothing, s)))"
| "Optional_step (SetValue i r) s = bindE (Optional_assign_value s i r) (\<lambda>s. Inr (Nothing, s))"
| "Optional_step (AssignCopy i j) s = bindE (Optional_assign_copy s i j) (\<lambda>s. Inr (Nothing, s))"
| "Optional_step (AssignMove i j) s = bindE (Optional_assign_move s i j) (\<lambda>s. Inr (Nothing, s))"
| "Optional_step (Clear i) s = bindE (Optional_clear (s i)) (\<lambda>x. Inr (Nothing, s(i := x)))"
| "Optional_step (IsValid i) s = Inr (Flag (Optional_is_valid (s i)), s)"
| "Optional_step (Must i) s = bindE (Optional_must (s i)) (\<lambda>v. Inr (Just v, s))"
| "Optional_step (MustMove i) s = bindE (Optional_must_move (s i)) (\<lambda>(v, x). Inr (Just v, s(i := x)))"
| "Optional_step (ValueOr i v) s = bindE (Optional_value_or (s i) v) (\<lambda>v. Inr (Just v, s))"

fun run_Optional :: "'a optional_op list \<Rightarrow> 'a Optional vars \<Rightarrow> ('a optional_answer list \<times> 'a Optional vars) outcome" where
  "run_Optional [] s = Inr ([], s)"
| "run_Optional (op # ops) s = bindE (Optional_step op s) (\<lambda>(r, s).
     bindE (run_Optional ops s) (\<lambda>(rs, s). Inr (r # rs, s)))"

text \<open>
  The same operations on option values.  Assigning a variable to itself empties it; a reference
  into a variable that is empty, or that the operation empties before it reads, reads a dead object.
\<close>

definition option_ref :: "'a option vars \<Rightarrow> 'a value_ref \<Rightarrow> 'a outcome" where
  "option_ref A r =
     (case r of
        Elsewhere v \<Rightarrow> Inr v
      | Inside j \<Rightarrow> (case A j of Some v \<Rightarrow> Inr v | None \<Rightarrow> Inl (UNDEFINED ''object outside its lifetime'')))"

fun option_step :: "'a optional_op \<Rightarrow> 'a option vars \<Rightarrow> ('a optional_answer \<times> 'a option vars) outcome" where
  "option_step (MakeEmpty i) A = Inr (Nothing, A(i := None))"
| "option_step (MakeValue i r) A = bindE (option_ref (A(i := None)) r) (\<lambda>v. Inr (Nothing, A(i := Some v)))"
| "option_step (MakeCopy i j) A = Inr (Nothing, A(i := (if i = j then None else A j)))"
| "option_step (MakeMove i j) A = Inr (Nothing, A(i := (if i = j then None else A j), j := None))"
| "option_step (SetValue i r) A = bindE (option_ref (A(i := None)) r) (\<lambda>v. Inr (Nothing, A(i := Some v)))"
| "option_step (AssignCopy i j) A = Inr (Nothing, A(i := (if i = j then None else A j)))"
| "option_step (AssignMove i j) A = Inr (Nothing, A(i := (if i = j then None else A j), j := None))"
| "option_step (Clear i) A = Inr (Nothing, A(i := None))"
| "option_step (IsValid i) A = Inr (Flag (A i \<noteq> None), A)"
| "option_step (Must i) A = (case A i of Some v \<Rightarrow> Inr (Just v, A) | None \<Rightarrow> Inl (VERIFY ''is_valid()''))"
| "option_step (MustMove i) A =
     (case A i of Some v \<Rightarrow> Inr (Just v, A(i := None)) | None \<Rightarrow> Inl (VERIFY ''is_valid()''))"
| "option_step (ValueOr i v) A = Inr (Just (case A i of Some w \<Rightarrow> w | None \<Rightarrow> v), A)"

fun run_option :: "'a optional_op list \<Rightarrow> 'a option vars \<Rightarrow> ('a optional_answer list \<times> 'a option vars) outcome" where
  "run_option [] A = Inr ([], A)"
| "run_option (op # ops) A = bindE (option_step op A) (\<lambda>(r, A).
     bindE (run_option ops A) (\<lambda>(rs, A). Inr (r # rs, A)))"

definition optional_rep :: "'a option \<Rightarrow> 'a Optional" where
  "optional_rep v = \<lparr>op_m_value = v, op_m_is_valid = (v \<noteq> None)\<rparr>"

lemma optional_rep_sel [simp]:
  "op_m_value (optional_rep v) = v" "op_m_is_valid (optional_rep v) \<longleftrightarrow> v \<noteq> None"
  by (simp_all add: optional_rep_def)

lemma optional_rep_upd [simp]:
  "(optional_rep v)\<lparr>op_m_is_valid := True, op_m_value := Some w\<rparr> = optional_rep (Some w)"
  by (simp add: optional_rep_def)

lemma optional_rep_clear [simp]: "Optional_clear (optional_rep v) = Inr (optional_rep None)"
  by (cases v) (simp_all add: Optional_clear_def Optional_value_def optional_rep_def)

lemma optional_rep_value [simp]: "Optional_value (optional_rep (Some v)) = Inr v"
  by (simp add: Optional_value_def)

lemma optional_rep_valid [simp]: "Optional_is_valid (optional_rep v) \<longleftrightarrow> v \<noteq> None"
  by (simp add: Optional_is_valid_def)

lemma rep_fun_upd: "(\<lambda>k. optional_rep (A k))(i := optional_rep v) = (\<lambda>k. optional_rep ((A(i := v)) k))"
  by (simp add: fun_eq_iff)

lemma read_ref_rep:
  "(\<And>k. op_m_value (s k) = A k) \<Longrightarrow> read_ref s r = option_ref A r"
  by (auto simp: read_ref_def option_ref_def Optional_value_def split: value_ref.splits)

lemma Optional_destroy_rep:
  "Optional_destroy (\<lambda>k. optional_rep (A k)) i = Inr (\<lambda>k. optional_rep ((A(i := None)) k))"
  by (simp add: Optional_destroy_def rep_fun_upd)

lemma assign_value_rep:
  "Optional_assign_value (\<lambda>k. optional_rep (A k)) i r =
   bindE (option_ref (A(i := None)) r) (\<lambda>v. Inr (\<lambda>k. optional_rep ((A(i := Some v)) k)))"
proof -
  let ?s = "(\<lambda>k. optional_rep (A k))(i := (optional_rep None)\<lparr>op_m_is_valid := True\<rparr>)"
  have "read_ref ?s r = option_ref (A(i := None)) r" by (rule read_ref_rep) auto
  moreover have "?s(i := (?s i)\<lparr>op_m_value := Some v\<rparr>) = (\<lambda>k. optional_rep ((A(i := Some v)) k))" for v
    by (auto simp: fun_eq_iff optional_rep_def)
  ultimately show ?thesis by (simp add: Optional_assign_value_def Let_def)
qed

lemma assign_copy_rep:
  "Optional_assign_copy (\<lambda>k. optional_rep (A k)) i j =
   Inr (\<lambda>k. optional_rep ((A(i := (if i = j then None else A j))) k))"
  by (cases "A j") (auto simp: Optional_assign_copy_def Let_def fun_eq_iff)

lemma assign_move_rep:
  "Optional_assign_move (\<lambda>k. optional_rep (A k)) i j =
   Inr (\<lambda>k. optional_rep ((A(i := (if i = j then None else A j), j := None)) k))"
  by (cases "A j") (auto simp: Optional_assign_move_def Let_def fun_eq_iff)

lemma Optional_new_rep: "(\<lambda>k. optional_rep (A k))(i := Optional_new) = (\<lambda>k. optional_rep ((A(i := None)) k))"
  by (auto simp: fun_eq_iff Optional_new_def optional_rep_def)

lemma Optional_of_rep: "Optional_of v = optional_rep (Some v)"
  by (simp add: Optional_of_def optional_rep_def)

lemmas Optional_reps = Optional_destroy_rep assign_value_rep assign_copy_rep assign_move_rep
  Optional_new_rep Optional_of_rep rep_fun_upd

lemma Optional_step_rep:
  "Optional_step op (\<lambda>k. optional_rep (A k)) =
   bindE (option_step op A) (\<lambda>(r, A). Inr (r, \<lambda>k. optional_rep (A k)))"
proof (cases op)
  case (MakeEmpty i)
  then show ?thesis by (simp add: Optional_reps del: fun_upd_apply)
next
  case (MakeValue i r)
  have "read_ref (\<lambda>k. optional_rep ((A(i := None)) k)) r = option_ref (A(i := None)) r"
    by (rule read_ref_rep) simp
  then show ?thesis using MakeValue by (simp add: Optional_reps bindE_assoc del: fun_upd_apply)
next
  case (MakeCopy i j)
  then show ?thesis by (simp add: Optional_copy_def Optional_reps del: fun_upd_apply) simp
next
  case (MakeMove i j)
  then show ?thesis by (simp add: Optional_move_def Optional_reps del: fun_upd_apply) simp
next
  case (Must i)
  then show ?thesis by (cases "A i") (simp_all add: Optional_must_def)
next
  case (MustMove i)
  then show ?thesis by (cases "A i") (simp_all add: Optional_must_move_def rep_fun_upd)
next
  case (ValueOr i v)
  then show ?thesis by (cases "A i") (simp_all add: Optional_value_or_def)
qed (simp_all add: Optional_reps bindE_assoc)

text \<open>
  C22. Optionals are option values: any sequence of constructions, assignments, moves, clears and
  reads on a family of optionals, all empty at first, gives the same answers and the same failures
  as on option values.  The failures are the verification in \<^verbatim>\<open>must()\<close> and one undefined read: an
  assignment from a reference into the assigned optional itself (or into an empty one), since \<^verbatim>\<open>operator=\<close> destroys the old value before it reads the new one.
  Assigning an optional to itself empties it for the same reason.
\<close>

theorem Optional_simulates_option:
  "run_Optional ops (\<lambda>_. Optional_new) =
   bindE (run_option ops (\<lambda>_. None)) (\<lambda>(rs, A). Inr (rs, \<lambda>k. optional_rep (A k)))"
proof -
  have "run_Optional ops (\<lambda>k. optional_rep (A k)) =
      bindE (run_option ops A) (\<lambda>(rs, A). Inr (rs, \<lambda>k. optional_rep (A k)))" for A
  proof (induction ops arbitrary: A)
    case (Cons op ops)
    show ?case
      by (simp add: Optional_step_rep bindE_assoc split_beta Cons.IH)
  qed simp
  from this[of "\<lambda>_. None"] show ?thesis by (simp add: Optional_new_def optional_rep_def)
qed

subsection \<open>Result\<close>

record ('v, 'e) Result =
  re_m_ok :: bool
  re_m_value :: "'v option"
  re_m_error :: "'e option"

definition Result_from_value :: "'v \<Rightarrow> ('v, 'e) Result" where
  "Result_from_value v = \<lparr>re_m_ok = True, re_m_value = Some v, re_m_error = None\<rparr>"

definition Result_from_error :: "'e \<Rightarrow> ('v, 'e) Result" where
  "Result_from_error e = \<lparr>re_m_ok = False, re_m_value = None, re_m_error = Some e\<rparr>"

definition member_read :: "'a option \<Rightarrow> 'a outcome" where
  "member_read m = (case m of Some v \<Rightarrow> Inr v | None \<Rightarrow> Inl (UNDEFINED ''inactive member of a union''))"

definition Result_destroy :: "('v, 'e) Result \<Rightarrow> ('v, 'e) Result outcome" where
  "Result_destroy r =
     (if re_m_ok r then bindE (member_read (re_m_value r)) (\<lambda>_. Inr (r\<lparr>re_m_value := None\<rparr>))
      else bindE (member_read (re_m_error r)) (\<lambda>_. Inr (r\<lparr>re_m_error := None\<rparr>)))"

definition Result_value :: "('v, 'e) Result \<Rightarrow> 'v outcome" where
  "Result_value r = checkE (re_m_ok r) (ASSERT ''m_ok'') (member_read (re_m_value r))"

definition Result_error :: "('v, 'e) Result \<Rightarrow> 'e outcome" where
  "Result_error r = checkE (\<not> re_m_ok r) (ASSERT ''!m_ok'') (member_read (re_m_error r))"

definition Result_must :: "('v, 'e) Result \<Rightarrow> 'v outcome" where
  "Result_must r = Result_value r"

definition Result_ok :: "('v, 'e) Result \<Rightarrow> bool" where
  "Result_ok r = re_m_ok r"

definition Result_is_error :: "('v, 'e) Result \<Rightarrow> bool" where
  "Result_is_error r = (\<not> re_m_ok r)"

lemma Result_value_simps [simp]:
  "Result_value (Result_from_value v) = Inr v"
  "Result_value (Result_from_error e) = Inl (ASSERT ''m_ok'')"
  "Result_must (Result_from_value v) = Inr v"
  "Result_error (Result_from_error e) = Inr e"
  "Result_error (Result_from_value v) = Inl (ASSERT ''!m_ok'')"
  "\<not> Result_is_error (Result_from_value v)" "Result_is_error (Result_from_error e)"
  "Result_ok (Result_from_value v)" "\<not> Result_ok (Result_from_error e)"
  by (simp_all add: Result_value_def Result_must_def Result_error_def Result_is_error_def
      Result_ok_def Result_from_value_def Result_from_error_def member_read_def)

lemma Result_destroy_once:
  "\<exists>r. Result_destroy (Result_from_value v) = Inr r"
  "\<exists>r. Result_destroy (Result_from_error e) = Inr r"
  by (simp_all add: Result_destroy_def Result_from_value_def Result_from_error_def member_read_def)

subsection \<open>Singleton\<close>

record 'a Singleton =
  si_m_initialized :: bool
  si_m_instance :: "'a option"

definition Singleton_container :: "'a Singleton" where
  "Singleton_container = \<lparr>si_m_initialized = False, si_m_instance = None\<rparr>"

text \<open>The flag is set before the constructor runs, which sees it.\<close>

definition Singleton_initialize ::
  "'a Singleton \<Rightarrow> ('a Singleton \<Rightarrow> 'a outcome) \<Rightarrow> 'a Singleton outcome" where
  "Singleton_initialize s constructor =
     checkE (\<not> si_m_initialized s) (VERIFY ''!m_initialized'')
     (let s = s\<lparr>si_m_initialized := True\<rparr>
      in bindE (constructor s) (\<lambda>v. Inr (s\<lparr>si_m_instance := Some v\<rparr>)))"

definition Singleton_is_initialized :: "'a Singleton \<Rightarrow> bool" where
  "Singleton_is_initialized s = si_m_initialized s"

definition Singleton_the :: "'a Singleton \<Rightarrow> 'a outcome" where
  "Singleton_the s =
     checkE (si_m_initialized s) (VERIFY ''m_initialized'')
     (case si_m_instance s of
        Some v \<Rightarrow> Inr v
      | None \<Rightarrow> Inl (UNDEFINED ''object outside its lifetime''))"

text \<open>One initialisation, then every access sees its object; a second one stops.\<close>

lemma Singleton_initialize_the:
  "Singleton_initialize Singleton_container constructor = Inr s \<Longrightarrow>
     \<exists>v. constructor (Singleton_container\<lparr>si_m_initialized := True\<rparr>) = Inr v \<and>
       Singleton_the s = Inr v \<and> Singleton_initialize s c = Inl (VERIFY ''!m_initialized'')"
  by (auto simp: Singleton_initialize_def Singleton_the_def Let_def outcome_simps)

subsection \<open>ArmedScopeGuard\<close>

record 's ArmedScopeGuard =
  ag_m_callback :: "'s \<Rightarrow> 's"
  ag_m_armed :: bool

definition ArmedScopeGuard_new :: "('s \<Rightarrow> 's) \<Rightarrow> 's ArmedScopeGuard" where
  "ArmedScopeGuard_new callback = \<lparr>ag_m_callback = callback, ag_m_armed = True\<rparr>"

definition ArmedScopeGuard_move :: "'s ArmedScopeGuard \<Rightarrow> 's ArmedScopeGuard \<times> 's ArmedScopeGuard" where
  "ArmedScopeGuard_move other =
     (\<lparr>ag_m_callback = ag_m_callback other, ag_m_armed = ag_m_armed other\<rparr>, other\<lparr>ag_m_armed := False\<rparr>)"

definition ArmedScopeGuard_destroy :: "'s ArmedScopeGuard \<Rightarrow> 's \<Rightarrow> 's" where
  "ArmedScopeGuard_destroy g s = (if ag_m_armed g then ag_m_callback g s else s)"

definition ArmedScopeGuard_assign ::
  "'s ArmedScopeGuard \<Rightarrow> 's ArmedScopeGuard \<Rightarrow> ('s ArmedScopeGuard \<times> 's ArmedScopeGuard) outcome" where
  "ArmedScopeGuard_assign g other =
     checkE (\<not> ag_m_armed g) (VERIFY ''!m_armed'')
       (Inr (g\<lparr>ag_m_armed := ag_m_armed other, ag_m_callback := ag_m_callback other\<rparr>,
             other\<lparr>ag_m_armed := False\<rparr>))"

definition ArmedScopeGuard_disarm :: "'s ArmedScopeGuard \<Rightarrow> 's ArmedScopeGuard" where
  "ArmedScopeGuard_disarm g = g\<lparr>ag_m_armed := False\<rparr>"

text \<open>However a guard is moved around, destroying both objects runs the callback once.\<close>

lemma ArmedScopeGuard_move_once:
  "ArmedScopeGuard_move (ArmedScopeGuard_new c) = (g, h) \<Longrightarrow>
     ArmedScopeGuard_destroy h (ArmedScopeGuard_destroy g s) = c s"
  by (auto simp: ArmedScopeGuard_move_def ArmedScopeGuard_new_def ArmedScopeGuard_destroy_def)

lemma ArmedScopeGuard_assign_once:
  "ArmedScopeGuard_assign g (ArmedScopeGuard_new c) = Inr (g', h) \<Longrightarrow>
     ArmedScopeGuard_destroy h (ArmedScopeGuard_destroy g' s) = c s"
  by (auto simp: ArmedScopeGuard_assign_def ArmedScopeGuard_new_def ArmedScopeGuard_destroy_def outcome_simps)

end
