(* ===== verification/Owning.thy ===== *)
theory Owning
  imports Prelude "HOL-Library.Multiset"
begin

section \<open>Std/RefPtr.hpp and Std/OwnPtr.hpp\<close>

text \<open>
  Owning pointers over an explicit heap.  Objects are numbered; a heap knows which of them live
  and, for reference-counted ones, their counts.  The pointers of a program are a list of
  variables, so that the two operands of an assignment can be the same variable.  The
  invariants say that counts are numbers of owners and that nothing dangles or leaks.
\<close>

subsection \<open>Reference counts\<close>

record ref_heap =
  rh_m_refcount :: "nat \<Rightarrow> usize option"
  rh_fresh :: nat
  rh_m_pointer :: "nat option list"

definition RefCounted_ref :: "ref_heap \<Rightarrow> nat \<Rightarrow> ref_heap outcome" where
  "RefCounted_ref h x =
     (case rh_m_refcount h x of
        None \<Rightarrow> Inl (UNDEFINED ''object outside its lifetime'')
      | Some m_refcount \<Rightarrow>
          checkE (m_refcount \<ge> 1) (VERIFY ''m_refcount >= 1'')
            (Inr (h\<lparr>rh_m_refcount := (rh_m_refcount h)(x \<mapsto> m_refcount + 1)\<rparr>)))"

definition RefCounted_unref :: "ref_heap \<Rightarrow> nat \<Rightarrow> ref_heap outcome" where
  "RefCounted_unref h x =
     (case rh_m_refcount h x of
        None \<Rightarrow> Inl (UNDEFINED ''object outside its lifetime'')
      | Some m_refcount \<Rightarrow>
          checkE (m_refcount > 0) (VERIFY ''m_refcount > 0'')
            (let m_refcount = m_refcount - 1
             in if m_refcount = 0 then Inr (h\<lparr>rh_m_refcount := (rh_m_refcount h)(x := None)\<rparr>)
                else Inr (h\<lparr>rh_m_refcount := (rh_m_refcount h)(x \<mapsto> m_refcount)\<rparr>)))"

definition RefCounted_new :: "ref_heap \<Rightarrow> nat \<times> ref_heap" where
  "RefCounted_new h =
     (rh_fresh h, h\<lparr>rh_m_refcount := (rh_m_refcount h)(rh_fresh h \<mapsto> 1), rh_fresh := Suc (rh_fresh h)\<rparr>)"

text \<open>A dangling object comes with its initial reference.\<close>

definition RefPtr_adopt :: "ref_heap \<Rightarrow> nat \<Rightarrow> nat option outcome" where
  "RefPtr_adopt h x =
     (case rh_m_refcount h x of
        None \<Rightarrow> Inl (UNDEFINED ''object outside its lifetime'')
      | Some c \<Rightarrow> checkE (c = 1) (VERIFY ''m_pointer->refcount() == 1'') (Inr (Some x)))"

definition RefCounted_construct :: "ref_heap \<Rightarrow> (nat option \<times> ref_heap) outcome" where
  "RefCounted_construct h =
     (let (x, h) = RefCounted_new h in bindE (RefPtr_adopt h x) (\<lambda>p. Inr (p, h)))"

definition RefPtr_clear :: "ref_heap \<Rightarrow> nat \<Rightarrow> ref_heap outcome" where
  "RefPtr_clear h i =
     bindE (case rh_m_pointer h ! i of Some x \<Rightarrow> RefCounted_unref h x | None \<Rightarrow> Inr h)
       (\<lambda>h. Inr (h\<lparr>rh_m_pointer := (rh_m_pointer h)[i := None]\<rparr>))"

definition RefPtr_is_null :: "ref_heap \<Rightarrow> nat \<Rightarrow> bool" where
  "RefPtr_is_null h i = (rh_m_pointer h ! i = None)"

definition RefPtr_must :: "ref_heap \<Rightarrow> nat \<Rightarrow> nat outcome" where
  "RefPtr_must h i =
     (case rh_m_pointer h ! i of Some x \<Rightarrow> Inr x | None \<Rightarrow> Inl (VERIFY ''m_pointer != nullptr''))"

definition RefPtr_assign_copy :: "ref_heap \<Rightarrow> nat \<Rightarrow> nat \<Rightarrow> ref_heap outcome" where
  "RefPtr_assign_copy h i j =
     bindE (RefPtr_clear h i) (\<lambda>h.
     let h = h\<lparr>rh_m_pointer := (rh_m_pointer h)[i := rh_m_pointer h ! j]\<rparr>
     in case rh_m_pointer h ! i of Some x \<Rightarrow> RefCounted_ref h x | None \<Rightarrow> Inr h)"

definition RefPtr_assign_move :: "ref_heap \<Rightarrow> nat \<Rightarrow> nat \<Rightarrow> ref_heap outcome" where
  "RefPtr_assign_move h i j =
     bindE (RefPtr_clear h i) (\<lambda>h.
     let old_value = rh_m_pointer h ! j
     in Inr (h\<lparr>rh_m_pointer := (rh_m_pointer h)[j := None, i := old_value]\<rparr>))"

text \<open>The constructors initialise a variable that owned nothing.\<close>

definition RefPtr_copy :: "ref_heap \<Rightarrow> nat \<Rightarrow> nat \<Rightarrow> ref_heap outcome" where
  "RefPtr_copy h i j =
     (let h = h\<lparr>rh_m_pointer := (rh_m_pointer h)[i := rh_m_pointer h ! j]\<rparr>
      in case rh_m_pointer h ! i of Some x \<Rightarrow> RefCounted_ref h x | None \<Rightarrow> Inr h)"

definition RefPtr_move :: "ref_heap \<Rightarrow> nat \<Rightarrow> nat \<Rightarrow> ref_heap" where
  "RefPtr_move h i j =
     h\<lparr>rh_m_pointer := (rh_m_pointer h)[j := None, i := rh_m_pointer h ! j]\<rparr>"

definition RefPtr_of :: "ref_heap \<Rightarrow> nat \<Rightarrow> nat \<Rightarrow> ref_heap outcome" where
  "RefPtr_of h i x =
     (let h = h\<lparr>rh_m_pointer := (rh_m_pointer h)[i := Some x]\<rparr> in RefCounted_ref h x)"

text \<open>
  Programs over reference pointers.  \<open>Construct i\<close> assigns a new object to a variable; the \<open>Make\<close>
  operations destroy what the variable held and run a constructor on it: the copy and the move
  constructor, and the one from a reference, which a program gets from a pointer that is not null.
\<close>

datatype ref_op =
    Construct nat | RefCopy nat nat | RefMove nat nat | RefClear nat
  | MakeRefCopy nat nat | MakeRefMove nat nat | MakeRefOf nat nat

fun ref_step :: "ref_op \<Rightarrow> ref_heap \<Rightarrow> ref_heap outcome" where
  "ref_step (Construct i) h =
     bindE (RefCounted_construct h) (\<lambda>(p, h).
     bindE (RefPtr_clear h i) (\<lambda>h. Inr (h\<lparr>rh_m_pointer := (rh_m_pointer h)[i := p]\<rparr>)))"
| "ref_step (RefCopy i j) h = RefPtr_assign_copy h i j"
| "ref_step (RefMove i j) h = RefPtr_assign_move h i j"
| "ref_step (RefClear i) h = RefPtr_clear h i"
| "ref_step (MakeRefCopy i j) h = bindE (RefPtr_clear h i) (\<lambda>h. RefPtr_copy h i j)"
| "ref_step (MakeRefMove i j) h = bindE (RefPtr_clear h i) (\<lambda>h. Inr (RefPtr_move h i j))"
| "ref_step (MakeRefOf i j) h =
     (if RefPtr_is_null h j then Inr h
      else bindE (RefPtr_must h j) (\<lambda>x. bindE (RefPtr_clear h i) (\<lambda>h. RefPtr_of h i x)))"

fun run_ref :: "ref_op list \<Rightarrow> ref_heap \<Rightarrow> ref_heap outcome" where
  "run_ref [] h = Inr h"
| "run_ref (op # ops) h = bindE (ref_step op h) (run_ref ops)"

text \<open>The operations on \<open>n\<close> variables; no constructor reads the variable it constructs.\<close>

fun op_in :: "nat \<Rightarrow> ref_op \<Rightarrow> bool" where
  "op_in n (Construct i) \<longleftrightarrow> i < n"
| "op_in n (RefCopy i j) \<longleftrightarrow> i < n \<and> j < n"
| "op_in n (RefMove i j) \<longleftrightarrow> i < n \<and> j < n"
| "op_in n (RefClear i) \<longleftrightarrow> i < n"
| "op_in n (MakeRefCopy i j) \<longleftrightarrow> i < n \<and> j < n \<and> i \<noteq> j"
| "op_in n (MakeRefMove i j) \<longleftrightarrow> i < n \<and> j < n \<and> i \<noteq> j"
| "op_in n (MakeRefOf i j) \<longleftrightarrow> i < n \<and> j < n \<and> i \<noteq> j"

definition ref_init :: "nat \<Rightarrow> ref_heap" where
  "ref_init n = \<lparr>rh_m_refcount = (\<lambda>_. None), rh_fresh = 0, rh_m_pointer = replicate n None\<rparr>"

definition owners :: "nat option list \<Rightarrow> nat \<Rightarrow> nat" where
  "owners ps x = count (mset ps) (Some x)"

lemma owners_upd:
  "i < length ps \<Longrightarrow> owners (ps[i := p]) x + (if ps ! i = Some x then 1 else 0) =
     owners ps x + (if p = Some x then 1 else 0)"
  using count_greater_zero_iff[of "mset ps" "ps ! i"] nth_mem[of i ps]
  by (auto simp: owners_def mset_update Suc_diff_Suc simp del: count_greater_zero_iff nth_mem)

lemma owners_le: "owners ps x \<le> length ps"
  unfolding owners_def by (metis count_le_size size_mset)

lemma owners_less: "i < length ps \<Longrightarrow> ps ! i = None \<Longrightarrow> owners ps x < length ps"
  using owners_upd[of i ps "Some x" x] owners_le[of "ps[i := Some x]" x] by simp

text \<open>\<open>extra\<close> counts references that no variable holds yet.\<close>

definition counts_ok :: "ref_heap \<Rightarrow> (nat \<Rightarrow> nat) \<Rightarrow> bool" where
  "counts_ok h extra \<longleftrightarrow> (\<forall>x. case rh_m_refcount h x of
       None \<Rightarrow> owners (rh_m_pointer h) x + extra x = 0
     | Some c \<Rightarrow> unat c = owners (rh_m_pointer h) x + extra x \<and> 0 < unat c \<and> x < rh_fresh h)"

definition ref_ok :: "nat \<Rightarrow> ref_heap \<Rightarrow> bool" where
  "ref_ok n h \<longleftrightarrow> length (rh_m_pointer h) = n \<and> counts_ok h (\<lambda>_. 0)"

lemma owners_pointer: "i < length ps \<Longrightarrow> ps ! i = Some x \<Longrightarrow> 0 < owners ps x"
  by (metis count_greater_zero_iff nth_mem owners_def set_mset_mset)

lemma clear_ok:
  assumes "counts_ok h extra" and i: "i < length (rh_m_pointer h)"
  shows "\<exists>h'. RefPtr_clear h i = Inr h' \<and> counts_ok h' extra \<and> rh_fresh h' = rh_fresh h \<and>
     rh_m_pointer h' = (rh_m_pointer h)[i := None]"
proof (cases "rh_m_pointer h ! i")
  case None
  then have "(rh_m_pointer h)[i := None] = rh_m_pointer h" by (metis list_update_id)
  then show ?thesis using None assms by (simp add: RefPtr_clear_def)
next
  case (Some x)
  let ?ps = "rh_m_pointer h" let ?ps' = "?ps[i := None]"
  have own: "owners ?ps' y + (if y = x then 1 else 0) = owners ?ps y" for y
    using owners_upd[OF i, of None y] Some by auto
  have "0 < owners ?ps x" using owners_pointer[OF i Some] .
  then obtain c where c: "rh_m_refcount h x = Some c" "unat c = owners ?ps x + extra x" "0 < unat c"
    "x < rh_fresh h"
    using assms(1)[unfolded counts_ok_def, rule_format, of x] by (auto split: option.splits)
  have c1: "unat (c - 1) = owners ?ps' x + extra x" using unat_dec[OF c(3)] c(2) own[of x] by simp
  have pos: "c > 0" using c(3) by (simp add: word_less_nat_alt)
  define h' where "h' = h\<lparr>rh_m_refcount := (rh_m_refcount h)
    (x := if c - 1 = 0 then None else Some (c - 1)), rh_m_pointer := ?ps'\<rparr>"
  have "RefPtr_clear h i = Inr h'"
    using Some c(1) pos by (simp add: RefPtr_clear_def RefCounted_unref_def Let_def h'_def)
  moreover have "counts_ok h' extra"
    unfolding counts_ok_def
  proof
    fix y
    show "case rh_m_refcount h' y of
        None \<Rightarrow> owners (rh_m_pointer h') y + extra y = 0
      | Some c \<Rightarrow> unat c = owners (rh_m_pointer h') y + extra y \<and> 0 < unat c \<and> y < rh_fresh h'"
    proof (cases "y = x")
      case True
      have "c - 1 = 0 \<longleftrightarrow> unat (c - 1) = 0" by (metis unat_eq_zero)
      then show ?thesis using True c1 c(4) by (auto simp: h'_def)
    next
      case False
      then have "rh_m_refcount h' y = rh_m_refcount h y" "owners ?ps y = owners (rh_m_pointer h') y"
        "rh_fresh h' = rh_fresh h" using own[of y] by (simp_all add: h'_def)
      then show ?thesis using assms(1)[unfolded counts_ok_def, rule_format, of y] by (simp only:)
    qed
  qed
  ultimately show ?thesis by (simp add: h'_def)
qed

lemma ref_pointer_ok:
  assumes ok: "counts_ok h (\<lambda>_. 0)" and i: "i < length (rh_m_pointer h)" and none: "rh_m_pointer h ! i = None"
    and x: "0 < owners (rh_m_pointer h) x" and len: "length (rh_m_pointer h) < 2 ^ 32"
  shows "\<exists>h'. RefCounted_ref (h\<lparr>rh_m_pointer := (rh_m_pointer h)[i := Some x]\<rparr>) x = Inr h' \<and>
     counts_ok h' (\<lambda>_. 0) \<and> rh_m_pointer h' = (rh_m_pointer h)[i := Some x]"
proof -
  let ?ps = "rh_m_pointer h" let ?ps' = "?ps[i := Some x]"
  have own: "owners ?ps' y = owners ?ps y + (if y = x then 1 else 0)" for y
    using owners_upd[OF i, of "Some x" y] none by auto
  from x obtain c where c: "rh_m_refcount h x = Some c" "unat c = owners ?ps x" "0 < unat c" "x < rh_fresh h"
    using ok[unfolded counts_ok_def, rule_format, of x] by (auto split: option.splits)
  have lt: "unat c < length ?ps" using owners_less[OF i none, of x] c(2) by simp
  have c1: "unat (c + 1) = owners ?ps' x" using unat_inc[OF lt len] c(2) own[of x] by simp
  have ge: "1 \<le> c" using c(3) by (simp add: word_le_nat_alt)
  define h' where "h' = h\<lparr>rh_m_pointer := ?ps', rh_m_refcount := (rh_m_refcount h)(x \<mapsto> c + 1)\<rparr>"
  have "RefCounted_ref (h\<lparr>rh_m_pointer := ?ps'\<rparr>) x = Inr h'"
    using c(1) ge by (simp add: RefCounted_ref_def h'_def)
  moreover have "counts_ok h' (\<lambda>_. 0)"
    unfolding counts_ok_def
  proof
    fix y
    show "case rh_m_refcount h' y of
        None \<Rightarrow> owners (rh_m_pointer h') y + 0 = 0
      | Some c \<Rightarrow> unat c = owners (rh_m_pointer h') y + 0 \<and> 0 < unat c \<and> y < rh_fresh h'"
    proof (cases "y = x")
      case True
      then show ?thesis using c1 own[of x] c(4) by (simp add: h'_def)
    next
      case False
      then have "rh_m_refcount h' y = rh_m_refcount h y" "owners ?ps y = owners (rh_m_pointer h') y"
        "rh_fresh h' = rh_fresh h" using own[of y] by (simp_all add: h'_def)
      then show ?thesis using ok[unfolded counts_ok_def, rule_format, of y] by (simp only:)
    qed
  qed
  ultimately show ?thesis by (simp add: h'_def)
qed

lemma ref_copy_ok:
  assumes "ref_ok n h" and "n < 2 ^ 32" and "i < n" and "j < n"
  shows "\<exists>h'. RefPtr_assign_copy h i j = Inr h' \<and> ref_ok n h'"
proof -
  have len: "length (rh_m_pointer h) = n" and ok: "counts_ok h (\<lambda>_. 0)"
    using assms(1) by (simp_all add: ref_ok_def)
  obtain h1 where h1: "RefPtr_clear h i = Inr h1" "counts_ok h1 (\<lambda>_. 0)"
    "rh_m_pointer h1 = (rh_m_pointer h)[i := None]" using clear_ok[OF ok] len assms(3) by blast
  have i1: "i < length (rh_m_pointer h1)" "rh_m_pointer h1 ! i = None" using h1(3) len assms(3) by simp_all
  show ?thesis
  proof (cases "rh_m_pointer h1 ! j")
    case None
    then have "(rh_m_pointer h1)[i := None] = rh_m_pointer h1" using i1 by (metis list_update_id)
    then show ?thesis using None h1 len i1
      by (simp add: RefPtr_assign_copy_def ref_ok_def counts_ok_def cong: option.case_cong)
  next
    case (Some x)
    have "0 < owners (rh_m_pointer h1) x" using owners_pointer[OF _ Some] h1(3) len assms(4) by simp
    from ref_pointer_ok[OF h1(2) i1 this] obtain h2 where
      "RefCounted_ref (h1\<lparr>rh_m_pointer := (rh_m_pointer h1)[i := Some x]\<rparr>) x = Inr h2"
      "counts_ok h2 (\<lambda>_. 0)" "rh_m_pointer h2 = (rh_m_pointer h1)[i := Some x]"
      using h1(3) len assms(2) by auto
    then show ?thesis using Some h1 len i1 by (simp add: RefPtr_assign_copy_def ref_ok_def)
  qed
qed

lemma ref_move_ok:
  assumes "ref_ok n h" and "i < n" and "j < n"
  shows "\<exists>h'. RefPtr_assign_move h i j = Inr h' \<and> ref_ok n h'"
proof -
  have len: "length (rh_m_pointer h) = n" and ok: "counts_ok h (\<lambda>_. 0)"
    using assms(1) by (simp_all add: ref_ok_def)
  obtain h1 where h1: "RefPtr_clear h i = Inr h1" "counts_ok h1 (\<lambda>_. 0)"
    "rh_m_pointer h1 = (rh_m_pointer h)[i := None]" using clear_ok[OF ok] len assms(2) by blast
  let ?ps = "rh_m_pointer h1" let ?p = "?ps ! j" let ?ps' = "?ps[j := None, i := ?p]"
  have l1: "length ?ps = n" and none: "?ps ! i = None" using h1(3) len assms(2) by simp_all
  have "owners ?ps' x = owners ?ps x" for x
  proof -
    have "owners (?ps[j := None]) x + (if ?p = Some x then 1 else 0) = owners ?ps x"
      using owners_upd[of j ?ps None x] l1 assms(3) by simp
    moreover have "?ps[j := None] ! i = None" using none l1 assms(2) by (cases "i = j") simp_all
    then have "owners ?ps' x = owners (?ps[j := None]) x + (if ?p = Some x then 1 else 0)"
      using owners_upd[of i "?ps[j := None]" ?p x] l1 assms(2) by simp
    ultimately show ?thesis by simp
  qed
  then have "counts_ok (h1\<lparr>rh_m_pointer := ?ps'\<rparr>) (\<lambda>_. 0)" using h1(2) by (simp add: counts_ok_def cong: option.case_cong)
  then show ?thesis using h1(1) l1 by (simp add: RefPtr_assign_move_def ref_ok_def Let_def)
qed

lemma construct_ok:
  assumes "ref_ok n h" and "i < n"
  shows "\<exists>h'. ref_step (Construct i) h = Inr h' \<and> ref_ok n h'"
proof -
  have len: "length (rh_m_pointer h) = n" and ok: "counts_ok h (\<lambda>_. 0)"
    using assms(1) by (simp_all add: ref_ok_def)
  let ?x = "rh_fresh h"
  define h1 where "h1 = h\<lparr>rh_m_refcount := (rh_m_refcount h)(?x \<mapsto> 1), rh_fresh := Suc ?x\<rparr>"
  have x0: "rh_m_refcount h ?x = None" "owners (rh_m_pointer h) ?x = 0"
    using ok[unfolded counts_ok_def, rule_format, of ?x] by (auto split: option.splits)
  have con: "RefCounted_construct h = Inr (Some ?x, h1)"
    by (simp add: RefCounted_construct_def RefCounted_new_def RefPtr_adopt_def h1_def)
  have "counts_ok h1 (\<lambda>y. if y = ?x then 1 else 0)"
    unfolding counts_ok_def
  proof
    fix y
    show "case rh_m_refcount h1 y of
        None \<Rightarrow> owners (rh_m_pointer h1) y + (if y = ?x then 1 else 0) = 0
      | Some c \<Rightarrow> unat c = owners (rh_m_pointer h1) y + (if y = ?x then 1 else 0) \<and> 0 < unat c \<and>
          y < rh_fresh h1"
      using ok[unfolded counts_ok_def, rule_format, of y] x0 by (auto simp: h1_def split: option.splits)
  qed
  from clear_ok[OF this] obtain h2 where h2: "RefPtr_clear h1 i = Inr h2"
    "counts_ok h2 (\<lambda>y. if y = ?x then 1 else 0)" "rh_m_pointer h2 = (rh_m_pointer h)[i := None]"
    using len assms(2) by (auto simp: h1_def)
  have i2: "i < length (rh_m_pointer h2)" "rh_m_pointer h2 ! i = None" using h2(3) len assms(2) by simp_all
  have own: "owners ((rh_m_pointer h2)[i := Some ?x]) y = owners (rh_m_pointer h2) y + (if y = ?x then 1 else 0)" for y
    using owners_upd[OF i2(1), of "Some ?x" y] i2(2) by auto
  have "counts_ok (h2\<lparr>rh_m_pointer := (rh_m_pointer h2)[i := Some ?x]\<rparr>) (\<lambda>_. 0)"
    using h2(2) by (simp add: counts_ok_def own cong: option.case_cong)
  then show ?thesis using con h2 len by (simp add: ref_ok_def)
qed

lemma make_copy_eq: "ref_step (MakeRefCopy i j) h = ref_step (RefCopy i j) h"
  by (simp add: RefPtr_copy_def RefPtr_assign_copy_def)

lemma make_move_eq: "ref_step (MakeRefMove i j) h = ref_step (RefMove i j) h"
  by (simp add: RefPtr_move_def RefPtr_assign_move_def Let_def)

lemma make_of_ok:
  assumes "ref_ok n h" and "n < 2 ^ 32" and "i < n" and "j < n" and "i \<noteq> j"
  shows "\<exists>h'. ref_step (MakeRefOf i j) h = Inr h' \<and> ref_ok n h'"
proof (cases "rh_m_pointer h ! j")
  case None
  then show ?thesis using assms(1) by (simp add: RefPtr_is_null_def)
next
  case (Some x)
  have len: "length (rh_m_pointer h) = n" and ok: "counts_ok h (\<lambda>_. 0)"
    using assms(1) by (simp_all add: ref_ok_def)
  obtain h1 where h1: "RefPtr_clear h i = Inr h1" "counts_ok h1 (\<lambda>_. 0)"
    "rh_m_pointer h1 = (rh_m_pointer h)[i := None]" using clear_ok[OF ok] len assms(3) by blast
  have i1: "i < length (rh_m_pointer h1)" "rh_m_pointer h1 ! i = None" using h1(3) len assms(3) by simp_all
  have "rh_m_pointer h1 ! j = Some x" using h1(3) Some assms(5) by simp
  then have "0 < owners (rh_m_pointer h1) x" using owners_pointer[of j] h1(3) len assms(4) by simp
  from ref_pointer_ok[OF h1(2) i1 this] obtain h2 where
    "RefCounted_ref (h1\<lparr>rh_m_pointer := (rh_m_pointer h1)[i := Some x]\<rparr>) x = Inr h2"
    "counts_ok h2 (\<lambda>_. 0)" "rh_m_pointer h2 = (rh_m_pointer h1)[i := Some x]"
    using h1(3) len assms(2) by auto
  then show ?thesis using Some h1 len by (simp add: RefPtr_is_null_def RefPtr_must_def RefPtr_of_def ref_ok_def)
qed

lemma ref_step_ok:
  "ref_ok n h \<Longrightarrow> n < 2 ^ 32 \<Longrightarrow> op_in n op \<Longrightarrow> \<exists>h'. ref_step op h = Inr h' \<and> ref_ok n h'"
proof (cases op)
  case (RefClear i)
  assume "ref_ok n h" "op_in n op"
  then show ?thesis using clear_ok[of h "\<lambda>_. 0" i] RefClear by (auto simp: ref_ok_def)
next
  case (MakeRefCopy i j)
  assume "ref_ok n h" "n < 2 ^ 32" "op_in n op"
  then show ?thesis using ref_copy_ok[of n h i j] unfolding MakeRefCopy make_copy_eq by simp
next
  case (MakeRefMove i j)
  assume "ref_ok n h" "n < 2 ^ 32" "op_in n op"
  then show ?thesis using ref_move_ok[of n h i j] unfolding MakeRefMove make_move_eq by simp
next
  case (MakeRefOf i j)
  assume "ref_ok n h" "n < 2 ^ 32" "op_in n op"
  then show ?thesis using make_of_ok[of n h i j] unfolding MakeRefOf by (simp del: ref_step.simps)
qed (auto simp: ref_copy_ok ref_move_ok construct_ok simp del: ref_step.simps(1))

text \<open>
  C23. Reference counting is exact: whatever the order of object constructions, copy and move
  assignments (self-assignments included), copy and move constructions, constructions from a
  reference and clears on fewer than \<open>2 ^ 32\<close> pointers, no verification fails and no deleted object
  is touched; afterwards an object lives exactly while some pointer points to it, and its count is
  the number of those pointers.
\<close>

theorem RefPtr_counts_owners:
  assumes "n < 2 ^ 32" and "list_all (op_in n) ops"
  shows "\<exists>h. run_ref ops (ref_init n) = Inr h \<and>
     (\<forall>x. map_option unat (rh_m_refcount h x) =
       (if owners (rh_m_pointer h) x = 0 then None else Some (owners (rh_m_pointer h) x)))"
proof -
  have "ref_ok n h \<Longrightarrow> list_all (op_in n) ops \<Longrightarrow> \<exists>h'. run_ref ops h = Inr h' \<and> ref_ok n h'" for h
  proof (induction ops arbitrary: h)
    case (Cons op ops)
    then obtain h1 where "ref_step op h = Inr h1" "ref_ok n h1"
      using ref_step_ok[OF Cons.prems(1) assms(1), of op] by auto
    with Cons show ?case by simp
  qed simp
  moreover have "ref_ok n (ref_init n)"
    by (simp add: ref_ok_def counts_ok_def ref_init_def owners_def)
  ultimately obtain h where h: "run_ref ops (ref_init n) = Inr h" "counts_ok h (\<lambda>_. 0)"
    using assms(2) by (auto simp: ref_ok_def)
  have "map_option unat (rh_m_refcount h x) =
      (if owners (rh_m_pointer h) x = 0 then None else Some (owners (rh_m_pointer h) x))" for x
    using h(2)[unfolded counts_ok_def, rule_format, of x] by (auto split: option.splits)
  with h(1) show ?thesis by blast
qed

theorem RefPtr_counts_owners_witness:
  "\<exists>h. run_ref [Construct 0, MakeRefCopy 1 0, RefCopy 0 0, MakeRefOf 0 1] (ref_init 2) = Inr h"
  using RefPtr_counts_owners[of 2 "[Construct 0, MakeRefCopy 1 0, RefCopy 0 0, MakeRefOf 0 1]"] by auto

text \<open>A pointer assigned to itself becomes null; the object dies if no other pointer owns it.\<close>

lemma RefPtr_self_assign_drops:
  "i < length (rh_m_pointer h) \<Longrightarrow> rh_m_pointer h ! i = Some x \<Longrightarrow> rh_m_refcount h x = Some 1 \<Longrightarrow>
   \<exists>h'. RefPtr_assign_copy h i i = Inr h' \<and> rh_m_refcount h' x = None \<and> rh_m_pointer h' ! i = None"
  by (simp add: RefPtr_assign_copy_def RefPtr_clear_def RefCounted_unref_def Let_def)


subsection \<open>Unique ownership\<close>

text \<open>
  \<^verbatim>\<open>delete\<close> of a null pointer does nothing; of an object that does not live it is undefined.
  \<open>oh_leaked\<close> lists the objects given out by \<^verbatim>\<open>leak()\<close>.
\<close>

record own_heap =
  oh_alive :: "nat set"
  oh_fresh :: nat
  oh_leaked :: "nat list"
  oh_m_pointer :: "nat option list"

definition delete_object :: "own_heap \<Rightarrow> nat option \<Rightarrow> own_heap outcome" where
  "delete_object h p =
     (case p of
        None \<Rightarrow> Inr h
      | Some x \<Rightarrow> if x \<in> oh_alive h then Inr (h\<lparr>oh_alive := oh_alive h - {x}\<rparr>)
                  else Inl (UNDEFINED ''object outside its lifetime''))"

definition own_make :: "own_heap \<Rightarrow> nat option \<times> own_heap" where
  "own_make h = (Some (oh_fresh h),
     h\<lparr>oh_alive := insert (oh_fresh h) (oh_alive h), oh_fresh := Suc (oh_fresh h)\<rparr>)"

definition OwnPtr_clear :: "own_heap \<Rightarrow> nat \<Rightarrow> own_heap outcome" where
  "OwnPtr_clear h i =
     bindE (delete_object h (oh_m_pointer h ! i)) (\<lambda>h.
     Inr (h\<lparr>oh_m_pointer := (oh_m_pointer h)[i := None]\<rparr>))"

definition OwnPtr_leak :: "own_heap \<Rightarrow> nat \<Rightarrow> nat option \<times> own_heap" where
  "OwnPtr_leak h i = (oh_m_pointer h ! i, h\<lparr>oh_m_pointer := (oh_m_pointer h)[i := None]\<rparr>)"

definition OwnPtr_is_null :: "own_heap \<Rightarrow> nat \<Rightarrow> bool" where
  "OwnPtr_is_null h i = (oh_m_pointer h ! i = None)"

definition OwnPtr_assign_move :: "own_heap \<Rightarrow> nat \<Rightarrow> nat \<Rightarrow> own_heap outcome" where
  "OwnPtr_assign_move h i j =
     bindE (OwnPtr_clear h i) (\<lambda>h.
     let old_value = oh_m_pointer h ! j
     in Inr (h\<lparr>oh_m_pointer := (oh_m_pointer h)[j := None, i := old_value]\<rparr>))"

definition OwnPtr_move :: "own_heap \<Rightarrow> nat \<Rightarrow> nat \<Rightarrow> own_heap outcome" where
  "OwnPtr_move h i j =
     (let h = h\<lparr>oh_m_pointer := (oh_m_pointer h)[i := None]\<rparr> in OwnPtr_assign_move h i j)"

definition OwnPtr_assign :: "own_heap \<Rightarrow> nat \<Rightarrow> nat option \<Rightarrow> own_heap outcome" where
  "OwnPtr_assign h i other =
     bindE (OwnPtr_clear h i) (\<lambda>h. Inr (h\<lparr>oh_m_pointer := (oh_m_pointer h)[i := other]\<rparr>))"

text \<open>The move assignment of \<^verbatim>\<open>NonnullOwnPtr\<close> does not clear its own pointer first.\<close>

definition NonnullOwnPtr_assign_move :: "own_heap \<Rightarrow> nat \<Rightarrow> nat \<Rightarrow> own_heap outcome" where
  "NonnullOwnPtr_assign_move h i j =
     bindE (delete_object h (oh_m_pointer h ! i)) (\<lambda>h.
     let old_value = oh_m_pointer h ! j
     in Inr (h\<lparr>oh_m_pointer := (oh_m_pointer h)[j := None, i := old_value]\<rparr>))"

definition NonnullOwnPtr_destroy :: "own_heap \<Rightarrow> nat \<Rightarrow> own_heap outcome" where
  "NonnullOwnPtr_destroy h i = delete_object h (oh_m_pointer h ! i)"

datatype own_op = OwnMake nat | OwnMove nat nat | OwnClear nat | OwnLeak nat

fun own_step :: "own_op \<Rightarrow> own_heap \<Rightarrow> own_heap outcome" where
  "own_step (OwnMake i) h = (let (p, h) = own_make h in OwnPtr_assign h i p)"
| "own_step (OwnMove i j) h = OwnPtr_assign_move h i j"
| "own_step (OwnClear i) h = OwnPtr_clear h i"
| "own_step (OwnLeak i) h =
     (let (p, h) = OwnPtr_leak h i
      in Inr (case p of Some x \<Rightarrow> h\<lparr>oh_leaked := x # oh_leaked h\<rparr> | None \<Rightarrow> h))"

fun run_own :: "own_op list \<Rightarrow> own_heap \<Rightarrow> own_heap outcome" where
  "run_own [] h = Inr h"
| "run_own (op # ops) h = bindE (own_step op h) (run_own ops)"

fun own_op_in :: "nat \<Rightarrow> own_op \<Rightarrow> bool" where
  "own_op_in n (OwnMake i) \<longleftrightarrow> i < n"
| "own_op_in n (OwnMove i j) \<longleftrightarrow> i < n \<and> j < n"
| "own_op_in n (OwnClear i) \<longleftrightarrow> i < n"
| "own_op_in n (OwnLeak i) \<longleftrightarrow> i < n"

definition own_init :: "nat \<Rightarrow> own_heap" where
  "own_init n = \<lparr>oh_alive = {}, oh_fresh = 0, oh_leaked = [], oh_m_pointer = replicate n None\<rparr>"

text \<open>Every living object has one holder: a pointer, or the code it was leaked to.\<close>

definition holders :: "own_heap \<Rightarrow> nat \<Rightarrow> nat" where
  "holders h x = owners (oh_m_pointer h) x + count (mset (oh_leaked h)) x"

definition own_ok :: "nat \<Rightarrow> own_heap \<Rightarrow> bool" where
  "own_ok n h \<longleftrightarrow> length (oh_m_pointer h) = n \<and> (\<forall>x\<in>oh_alive h. x < oh_fresh h) \<and>
     (\<forall>x. holders h x = (if x \<in> oh_alive h then 1 else 0))"

lemma own_clear_ok:
  assumes "own_ok n h" and "i < n"
  shows "\<exists>h'. OwnPtr_clear h i = Inr h' \<and> own_ok n h' \<and> oh_fresh h' = oh_fresh h \<and>
     oh_m_pointer h' = (oh_m_pointer h)[i := None]"
proof (cases "oh_m_pointer h ! i")
  case None
  then have "(oh_m_pointer h)[i := None] = oh_m_pointer h" by (metis list_update_id)
  then show ?thesis using None assms
    by (simp add: OwnPtr_clear_def delete_object_def)
next
  case (Some x)
  let ?ps = "oh_m_pointer h"
  have i: "i < length ?ps" and one: "\<And>y. holders h y = (if y \<in> oh_alive h then 1 else 0)"
    and fr: "\<And>y. y \<in> oh_alive h \<Longrightarrow> y < oh_fresh h" and len: "length ?ps = n"
    using assms by (auto simp: own_ok_def)
  have own: "owners (?ps[i := None]) y + (if y = x then 1 else 0) = owners ?ps y" for y
    using owners_upd[OF i, of None y] Some by auto
  have pos: "0 < owners ?ps x" using owners_pointer[OF i Some] .
  then have x: "x \<in> oh_alive h" using one[of x] by (auto simp: holders_def split: if_splits)
  define h' where "h' = h\<lparr>oh_alive := oh_alive h - {x}, oh_m_pointer := ?ps[i := None]\<rparr>"
  have "count (mset (oh_leaked h)) x = 0" using one[of x] pos x unfolding holders_def by (simp only: if_True)
  then have "holders h' y = (if y \<in> oh_alive h' then 1 else 0)" for y
    using one[of y] own[of y] x by (auto simp: holders_def h'_def split: if_splits)
  then have "own_ok n h'" using fr len by (auto simp: own_ok_def h'_def)
  moreover have "OwnPtr_clear h i = Inr h'" using Some x by (simp add: OwnPtr_clear_def delete_object_def h'_def)
  ultimately show ?thesis by (simp add: h'_def)
qed

lemma own_step_ok:
  assumes "own_ok n h" and "own_op_in n op"
  shows "\<exists>h'. own_step op h = Inr h' \<and> own_ok n h'"
proof (cases op)
  case (OwnMake i)
  let ?x = "oh_fresh h"
  define h1 where "h1 = h\<lparr>oh_alive := insert ?x (oh_alive h), oh_fresh := Suc ?x\<rparr>"
  have x: "holders h ?x = 0" using assms(1) by (auto simp: own_ok_def)
  have i: "i < n" using assms(2) OwnMake by simp
  obtain h2 where h2: "OwnPtr_clear h i = Inr h2" "own_ok n h2" "oh_fresh h2 = ?x"
    "oh_m_pointer h2 = (oh_m_pointer h)[i := None]" using own_clear_ok[OF assms(1) i] by blast
  define h3 where "h3 = h2\<lparr>oh_alive := insert ?x (oh_alive h2), oh_fresh := Suc ?x,
     oh_m_pointer := (oh_m_pointer h2)[i := Some ?x]\<rparr>"
  have "OwnPtr_clear h1 i = Inr (h2\<lparr>oh_alive := insert ?x (oh_alive h2), oh_fresh := Suc ?x\<rparr>)"
    using h2(1) assms(1)
    by (auto simp: OwnPtr_clear_def delete_object_def h1_def own_ok_def outcome_simps insert_Diff_if
        split: option.splits if_splits)
  then have "own_step op h = Inr h3"
    by (simp add: OwnMake own_make_def OwnPtr_assign_def h1_def h3_def)
  moreover have "own_ok n h3"
  proof -
    have l: "i < length (oh_m_pointer h2)" "oh_m_pointer h2 ! i = None" using h2(2,4) i by (auto simp: own_ok_def)
    have own: "owners ((oh_m_pointer h2)[i := Some ?x]) y = owners (oh_m_pointer h2) y + (if y = ?x then 1 else 0)" for y
      using owners_upd[OF l(1), of "Some ?x" y] l(2) by auto
    have "?x \<notin> oh_alive h2" using h2(2,3) by (auto simp: own_ok_def)
    then show ?thesis using h2(2,3)
      by (auto simp: own_ok_def h3_def holders_def own less_Suc_eq)
  qed
  ultimately show ?thesis by blast
next
  case (OwnMove i j)
  have ij: "i < n" "j < n" using assms(2) OwnMove by simp_all
  obtain h1 where h1: "OwnPtr_clear h i = Inr h1" "own_ok n h1"
    "oh_m_pointer h1 = (oh_m_pointer h)[i := None]" using own_clear_ok[OF assms(1) ij(1)] by blast
  let ?ps = "oh_m_pointer h1" let ?p = "?ps ! j" let ?ps' = "?ps[j := None, i := ?p]"
  have l1: "length ?ps = n" and none: "?ps ! i = None" using h1(2,3) ij by (auto simp: own_ok_def)
  have "owners ?ps' x = owners ?ps x" for x
  proof -
    have "owners (?ps[j := None]) x + (if ?p = Some x then 1 else 0) = owners ?ps x"
      using owners_upd[of j ?ps None x] l1 ij by simp
    moreover have "?ps[j := None] ! i = None" using none l1 ij by (cases "i = j") simp_all
    then have "owners ?ps' x = owners (?ps[j := None]) x + (if ?p = Some x then 1 else 0)"
      using owners_upd[of i "?ps[j := None]" ?p x] l1 ij by simp
    ultimately show ?thesis by simp
  qed
  then have "own_ok n (h1\<lparr>oh_m_pointer := ?ps'\<rparr>)" using h1(2) by (simp add: own_ok_def holders_def)
  then show ?thesis using h1(1) OwnMove by (simp add: OwnPtr_assign_move_def Let_def)
next
  case (OwnClear i)
  then show ?thesis using own_clear_ok[OF assms(1), of i] assms(2) by auto
next
  case (OwnLeak i)
  have i: "i < length (oh_m_pointer h)" using assms OwnLeak by (simp add: own_ok_def)
  show ?thesis
  proof (cases "oh_m_pointer h ! i")
    case None
    then have "(oh_m_pointer h)[i := None] = oh_m_pointer h" by (metis list_update_id)
    then show ?thesis using None OwnLeak assms(1) by (simp add: OwnPtr_leak_def)
  next
    case (Some x)
    have own: "owners ((oh_m_pointer h)[i := None]) y + (if y = x then 1 else 0) = owners (oh_m_pointer h) y" for y
      using owners_upd[OF i, of None y] Some by auto
    then have "holders (h\<lparr>oh_m_pointer := (oh_m_pointer h)[i := None], oh_leaked := x # oh_leaked h\<rparr>) y = holders h y" for y
      unfolding holders_def own[symmetric] by simp
    then show ?thesis using Some OwnLeak assms(1) by (simp add: OwnPtr_leak_def own_ok_def)
  qed
qed

text \<open>
  C24. Unique ownership: through any sequence of constructions, moves (onto itself included), clears
  and leaks, no object is deleted twice or used after deletion, and an object lives exactly while
  one pointer, or the code it was leaked to, holds it.
\<close>

theorem OwnPtr_one_owner:
  assumes "list_all (own_op_in n) ops"
  shows "\<exists>h. run_own ops (own_init n) = Inr h \<and>
     (\<forall>x. holders h x = (if x \<in> oh_alive h then 1 else 0))"
proof -
  have "own_ok n h \<Longrightarrow> list_all (own_op_in n) ops \<Longrightarrow> \<exists>h'. run_own ops h = Inr h' \<and> own_ok n h'" for h
  proof (induction ops arbitrary: h)
    case (Cons op ops)
    then obtain h1 where "own_step op h = Inr h1" "own_ok n h1" using own_step_ok[of n h op] by auto
    with Cons show ?case by simp
  qed simp
  moreover have "own_ok n (own_init n)" by (simp add: own_ok_def own_init_def holders_def owners_def)
  ultimately show ?thesis using assms unfolding own_ok_def by blast
qed

theorem OwnPtr_one_owner_witness:
  "\<exists>h. run_own [OwnMake 0, OwnMove 1 0, OwnLeak 1, OwnMove 0 0] (own_init 2) = Inr h"
  using OwnPtr_one_owner[of 2 "[OwnMake 0, OwnMove 1 0, OwnLeak 1, OwnMove 0 0]"] by auto

text \<open>Moving a \<^verbatim>\<open>NonnullOwnPtr\<close> onto itself deletes the object and keeps pointing to it.\<close>

lemma NonnullOwnPtr_self_move_dangles:
  assumes "i < length (oh_m_pointer h)" and "oh_m_pointer h ! i = Some x" and "x \<in> oh_alive h"
  shows "\<exists>h'. NonnullOwnPtr_assign_move h i i = Inr h' \<and>
     NonnullOwnPtr_destroy h' i = Inl (UNDEFINED ''object outside its lifetime'')"
  using assms by (simp add: NonnullOwnPtr_assign_move_def NonnullOwnPtr_destroy_def delete_object_def)

end
