(* ===== verification/Vectors.thy ===== *)
theory Vectors
  imports Std_Helpers
begin

section \<open>Std/Vector.hpp\<close>

text \<open>
  A growable array with optional inline storage.  Both storages are lists of slots, so moving
  elements to a new allocation leaves dead slots behind and reading one is undefined.  The element
  type is given by its size and by whether it is primitive: primitive elements are copied bytewise,
  others are moved one by one and have to be of whole words.  An allocation of
  \<^verbatim>\<open>sizeof(T) * capacity\<close> bytes, computed with wrap-around, holds as many slots as fit.  What is
  appended is a reference, to an object elsewhere or to an element of a vector, and it is read after
  the storage has grown.  A family of vectors is related to a family of lists.
\<close>

record ElementType =
  et_sizeof :: usize
  et_primitive :: bool

record 'a Vector =
  ve_m_use_inline_data :: bool
  ve_m_size :: usize
  ve_m_capacity :: usize
  ve_m_inline_data :: "'a option list"
  ve_m_data :: "'a option list"

definition Vector_new :: "usize \<Rightarrow> 'a Vector" where
  "Vector_new inline_size =
     \<lparr>ve_m_use_inline_data = True, ve_m_size = 0, ve_m_capacity = inline_size,
      ve_m_inline_data = replicate (unat inline_size) None, ve_m_data = []\<rparr>"

definition Vector_data :: "'a Vector \<Rightarrow> 'a option list" where
  "Vector_data v = (if ve_m_use_inline_data v then ve_m_inline_data v else ve_m_data v)"

definition Vector_write :: "'a Vector \<Rightarrow> 'a option list \<Rightarrow> 'a Vector" where
  "Vector_write v data =
     (if ve_m_use_inline_data v then v\<lparr>ve_m_inline_data := data\<rparr> else v\<lparr>ve_m_data := data\<rparr>)"

definition slot_get :: "'a option list \<Rightarrow> nat \<Rightarrow> 'a outcome" where
  "slot_get data i =
     (if i < length data
      then (case data ! i of Some x \<Rightarrow> Inr x | None \<Rightarrow> Inl (UNDEFINED ''object outside its lifetime''))
      else Inl (UNDEFINED ''out of bounds''))"

definition slot_put :: "'a option list \<Rightarrow> nat \<Rightarrow> 'a option \<Rightarrow> 'a option list outcome" where
  "slot_put data i x = (if i < length data then Inr (data[i := x]) else Inl (UNDEFINED ''out of bounds''))"

text \<open>Move-construct the next \<open>k\<close> elements from index \<open>i\<close> on, destroying the old ones.\<close>

fun Vector_move_elements ::
  "nat \<Rightarrow> nat \<Rightarrow> 'a option list \<Rightarrow> 'a option list \<Rightarrow> ('a option list \<times> 'a option list) outcome" where
  "Vector_move_elements 0 i new_data data = Inr (new_data, data)"
| "Vector_move_elements (Suc k) i new_data data =
     bindE (slot_get data i) (\<lambda>x.
     bindE (slot_put new_data i (Some x)) (\<lambda>new_data.
     bindE (slot_put data i None) (\<lambda>data.
     Vector_move_elements k (Suc i) new_data data)))"

text \<open>\<^verbatim>\<open>memcpy\<close> of the first \<open>n\<close> slots; the old ones stay as they are.\<close>

definition Vector_copy_elements ::
  "nat \<Rightarrow> 'a option list \<Rightarrow> 'a option list \<Rightarrow> ('a option list \<times> 'a option list) outcome" where
  "Vector_copy_elements n new_data data =
     (if n \<le> length data \<and> n \<le> length new_data
      then Inr (take n data @ drop n new_data, data) else Inl (UNDEFINED ''out of bounds''))"

definition Vector_ensure_capacity :: "ElementType \<Rightarrow> 'a Vector \<Rightarrow> usize \<Rightarrow> 'a Vector outcome" where
  "Vector_ensure_capacity T v new_capacity =
     (if ve_m_capacity v \<ge> new_capacity then Inr v
      else bindE (round_to_power_of_two new_capacity) (\<lambda>new_capacity.
        let new_data = replicate (unat (et_sizeof T * new_capacity) div unat (et_sizeof T)) None
        in checkE (new_capacity > ve_m_size v) (ASSERT ''new_capacity > m_size'')
           (bindE
             (if et_primitive T then Vector_copy_elements (unat (ve_m_size v)) new_data (Vector_data v)
              else checkE (et_sizeof T mod 4 = 0) (ASSERT ''sizeof(T) % 4 == 0'')
                (Vector_move_elements (unat (ve_m_size v)) 0 new_data (Vector_data v)))
             (\<lambda>(new_data, old).
              Inr ((Vector_write v old)\<lparr>ve_m_data := new_data, ve_m_capacity := new_capacity,
                     ve_m_use_inline_data := False\<rparr>)))))"

text \<open>
  A reference to element \<open>n\<close> of vector \<open>j\<close> names the storage the element was in when the reference
  was made: the inline one or the allocation of a certain capacity, which a vector outgrows before
  it makes another one.
\<close>

datatype 'a element_ref = Elsewhere 'a | Element_at nat "usize option" nat

definition Vector_storage :: "'a Vector \<Rightarrow> usize option" where
  "Vector_storage v = (if ve_m_use_inline_data v then None else Some (ve_m_capacity v))"

definition read_element :: "(nat \<Rightarrow> 'a Vector) \<Rightarrow> 'a element_ref \<Rightarrow> 'a outcome" where
  "read_element s r =
     (case r of
        Elsewhere x \<Rightarrow> Inr x
      | Element_at j None n \<Rightarrow> slot_get (ve_m_inline_data (s j)) n
      | Element_at j (Some c) n \<Rightarrow>
          if Vector_storage (s j) = Some c then slot_get (ve_m_data (s j)) n
          else Inl (UNDEFINED ''deleted allocation''))"

definition Vector_append ::
  "ElementType \<Rightarrow> (nat \<Rightarrow> 'a Vector) \<Rightarrow> nat \<Rightarrow> 'a element_ref \<Rightarrow> (nat \<Rightarrow> 'a Vector) outcome" where
  "Vector_append T s this value =
     bindE (Vector_ensure_capacity T (s this) (ve_m_size (s this) + 1)) (\<lambda>v.
     bindE (read_element (s(this := v)) value) (\<lambda>x.
     bindE (slot_put (Vector_data v) (unat (ve_m_size v)) (Some x)) (\<lambda>data.
     Inr (s(this := (Vector_write v data)\<lparr>ve_m_size := ve_m_size v + 1\<rparr>)))))"

fun Vector_append_all ::
  "ElementType \<Rightarrow> (nat \<Rightarrow> 'a Vector) \<Rightarrow> nat \<Rightarrow> 'a element_ref list \<Rightarrow> (nat \<Rightarrow> 'a Vector) outcome" where
  "Vector_append_all T s this [] = Inr s"
| "Vector_append_all T s this (r # rs) =
     bindE (Vector_append T s this r) (\<lambda>s. Vector_append_all T s this rs)"

definition Vector_extend ::
  "ElementType \<Rightarrow> (nat \<Rightarrow> 'a Vector) \<Rightarrow> nat \<Rightarrow> 'a element_ref list \<Rightarrow> (nat \<Rightarrow> 'a Vector) outcome" where
  "Vector_extend T s this values =
     bindE (Vector_ensure_capacity T (s this) (ve_m_size (s this) + of_nat (length values))) (\<lambda>v.
     Vector_append_all T (s(this := v)) this values)"

text \<open>\<^verbatim>\<open>&v[n]\<close> and the references that \<^verbatim>\<open>span()\<close> and \<^verbatim>\<open>iter()\<close> run through.\<close>

definition Vector_element :: "(nat \<Rightarrow> 'a Vector) \<Rightarrow> nat \<Rightarrow> nat \<Rightarrow> 'a element_ref" where
  "Vector_element s j n = Element_at j (Vector_storage (s j)) n"

definition Vector_elements :: "(nat \<Rightarrow> 'a Vector) \<Rightarrow> nat \<Rightarrow> 'a element_ref list" where
  "Vector_elements s j = map (Vector_element s j) [0..<unat (ve_m_size (s j))]"

definition Vector_size :: "'a Vector \<Rightarrow> usize" where
  "Vector_size v = ve_m_size v"

definition Vector_capacity :: "'a Vector \<Rightarrow> usize" where
  "Vector_capacity v = ve_m_capacity v"

definition Vector_at :: "'a Vector \<Rightarrow> usize \<Rightarrow> 'a outcome" where
  "Vector_at v index = slot_get (Vector_data v) (unat index)"

fun slots_all :: "nat \<Rightarrow> 'a option list \<Rightarrow> 'a list outcome" where
  "slots_all 0 data = Inr []"
| "slots_all (Suc n) (Some x # data) = bindE (slots_all n data) (\<lambda>xs. Inr (x # xs))"
| "slots_all (Suc n) _ = Inl (UNDEFINED ''object outside its lifetime'')"

definition Vector_span :: "'a Vector \<Rightarrow> 'a list outcome" where
  "Vector_span v = slots_all (unat (ve_m_size v)) (Vector_data v)"

fun Vector_destroy_elements :: "nat \<Rightarrow> nat \<Rightarrow> 'a option list \<Rightarrow> 'a option list outcome" where
  "Vector_destroy_elements 0 i data = Inr data"
| "Vector_destroy_elements (Suc k) i data =
     bindE (slot_get data i) (\<lambda>_.
     bindE (slot_put data i None) (Vector_destroy_elements k (Suc i)))"

definition Vector_clear :: "'a Vector \<Rightarrow> 'a Vector outcome" where
  "Vector_clear v =
     bindE (Vector_destroy_elements (unat (ve_m_size v)) 0 (Vector_data v)) (\<lambda>data.
     Inr ((Vector_write v data)\<lparr>ve_m_size := 0\<rparr>))"

definition Vector_destroy :: "'a Vector \<Rightarrow> 'a Vector outcome" where
  "Vector_destroy v = bindE (Vector_clear v) (\<lambda>v. Inr (v\<lparr>ve_m_data := []\<rparr>))"

text \<open>Assignments between members of a family, possibly the same one.\<close>

definition Vector_assign_copy ::
  "ElementType \<Rightarrow> (nat \<Rightarrow> 'a Vector) \<Rightarrow> nat \<Rightarrow> nat \<Rightarrow> (nat \<Rightarrow> 'a Vector) outcome" where
  "Vector_assign_copy T s this other =
     bindE (Vector_clear (s this)) (\<lambda>v.
     let s = s(this := v) in Vector_extend T s this (Vector_elements s other))"

definition Vector_assign_move ::
  "ElementType \<Rightarrow> usize \<Rightarrow> (nat \<Rightarrow> 'a Vector) \<Rightarrow> nat \<Rightarrow> nat \<Rightarrow> (nat \<Rightarrow> 'a Vector) outcome" where
  "Vector_assign_move T inline_size s this other =
     bindE (Vector_clear (s this)) (\<lambda>v.
     let s = s(this := v)
     in if ve_m_use_inline_data (s other)
        then bindE (Vector_extend T s this (Vector_elements s other)) (\<lambda>s.
             bindE (Vector_clear (s other)) (\<lambda>w. Inr (s(other := w))))
        else let s = s(this := (s this)\<lparr>ve_m_data := []\<rparr>);
                 s = s(this := (s this)\<lparr>ve_m_use_inline_data := False,
                       ve_m_capacity := ve_m_capacity (s other), ve_m_size := ve_m_size (s other),
                       ve_m_data := ve_m_data (s other)\<rparr>);
                 s = s(other := (s other)\<lparr>ve_m_use_inline_data := True,
                       ve_m_capacity := inline_size, ve_m_size := 0, ve_m_data := []\<rparr>)
             in Inr s)"

text \<open>The copy and move constructors assign to a new vector.\<close>

definition Vector_copy ::
  "ElementType \<Rightarrow> usize \<Rightarrow> (nat \<Rightarrow> 'a Vector) \<Rightarrow> nat \<Rightarrow> nat \<Rightarrow> (nat \<Rightarrow> 'a Vector) outcome" where
  "Vector_copy T inline_size s this other =
     Vector_assign_copy T (s(this := Vector_new inline_size)) this other"

definition Vector_move ::
  "ElementType \<Rightarrow> usize \<Rightarrow> (nat \<Rightarrow> 'a Vector) \<Rightarrow> nat \<Rightarrow> nat \<Rightarrow> (nat \<Rightarrow> 'a Vector) outcome" where
  "Vector_move T inline_size s this other =
     Vector_assign_move T inline_size (s(this := Vector_new inline_size)) this other"

subsection \<open>What a vector holds\<close>

text \<open>\<open>k\<close> is the inline size; nothing is said of the slots behind the elements.\<close>

definition vector_holds :: "usize \<Rightarrow> 'a Vector \<Rightarrow> 'a list \<Rightarrow> bool" where
  "vector_holds k v xs \<longleftrightarrow> unat (ve_m_size v) = length xs \<and>
     take (length xs) (Vector_data v) = map Some xs \<and> length (Vector_data v) = unat (ve_m_capacity v) \<and>
     length xs \<le> unat (ve_m_capacity v) \<and>
     length (ve_m_inline_data v) = unat k \<and> (ve_m_use_inline_data v \<longrightarrow> ve_m_capacity v = k)"

text \<open>The element types that the class supports.\<close>

definition element_ok :: "ElementType \<Rightarrow> bool" where
  "element_ok T \<longleftrightarrow> et_sizeof T \<noteq> 0 \<and> (et_primitive T \<or> et_sizeof T mod 4 = 0)"

lemma vector_new_holds: "vector_holds k (Vector_new k) []"
  by (simp add: vector_holds_def Vector_new_def Vector_data_def)

lemma vector_data_shape:
  assumes "vector_holds k v xs"
  obtains rest where "Vector_data v = map Some xs @ rest" "length rest = unat (ve_m_capacity v) - length xs"
proof
  have "take (length xs) (Vector_data v) = map Some xs" using assms by (simp add: vector_holds_def)
  then show "Vector_data v = map Some xs @ drop (length xs) (Vector_data v)"
    by (metis append_take_drop_id)
  show "length (drop (length xs) (Vector_data v)) = unat (ve_m_capacity v) - length xs"
    using assms by (simp add: vector_holds_def)
qed

lemma replicate_upd_Cons:
  "ys \<noteq> [] \<Longrightarrow> (replicate i None @ ys @ rest)[i := None] = replicate (Suc i) None @ tl ys @ rest"
  by (cases ys) (simp_all add: list_update_append replicate_append_same[symmetric] del: replicate_append_same)

lemma move_elements:
  "length news = i \<Longrightarrow> length xs \<le> m \<Longrightarrow>
   Vector_move_elements (length xs) i (map Some news @ replicate m None)
     (replicate i None @ map Some xs @ rest) =
   Inr (map Some (news @ xs) @ replicate (m - length xs) None, replicate (i + length xs) None @ rest)"
proof (induction xs arbitrary: news i m)
  case (Cons x xs)
  then obtain m' where m: "m = Suc m'" by (cases m) auto
  have upd: "(map Some news @ replicate m None)[i := Some x] = map Some (news @ [x]) @ replicate m' None"
    using Cons.prems(1) m by (simp add: list_update_append)
  note upd = upd replicate_upd_Cons[of "map Some (x # xs)" i rest]
  show ?case
    using Cons.IH[of "news @ [x]" "Suc i" m'] Cons.prems m upd
    by (simp add: slot_get_def slot_put_def nth_append)
qed simp

lemma destroy_elements:
  "Vector_destroy_elements (length xs) i (replicate i None @ map Some xs @ rest) =
   Inr (replicate (i + length xs) None @ rest)"
proof (induction xs arbitrary: i)
  case (Cons x xs)
  show ?case using Cons[of "Suc i"] replicate_upd_Cons[of "map Some (x # xs)" i rest] by (simp add: slot_get_def slot_put_def nth_append)
qed simp

lemma slots_all_map: "slots_all (length xs) (map Some xs @ rest) = Inr xs"
  by (induction xs) simp_all

lemma span_holds: "vector_holds k v xs \<Longrightarrow> Vector_span v = Inr xs"
  by (metis Vector_span_def slots_all_map vector_data_shape vector_holds_def)

lemma at_holds: "vector_holds k v xs \<Longrightarrow> unat i < length xs \<Longrightarrow> Vector_at v i = Inr (xs ! unat i)"
  by (erule vector_data_shape) (simp add: Vector_at_def slot_get_def nth_append)

lemma write_data [simp]: "Vector_data (Vector_write v data) = data"
  by (simp add: Vector_data_def Vector_write_def)

lemma clear_holds:
  assumes "vector_holds k v xs"
  shows "\<exists>v'. Vector_clear v = Inr v' \<and> vector_holds k v' []"
proof -
  obtain rest where d: "Vector_data v = map Some xs @ rest" "length rest = unat (ve_m_capacity v) - length xs"
    using assms by (rule vector_data_shape)
  define v' where "v' = (Vector_write v (replicate (length xs) None @ rest))\<lparr>ve_m_size := 0\<rparr>"
  have "Vector_clear v = Inr v'"
    using destroy_elements[of xs 0 rest] d(1) assms by (simp add: Vector_clear_def vector_holds_def v'_def)
  moreover have "vector_holds k v' []"
    using assms d by (auto simp: vector_holds_def v'_def Vector_write_def Vector_data_def)
  ultimately show ?thesis by blast
qed

lemma small_size: "1 \<le> e \<Longrightarrow> 2 * n * e < 2 ^ 32 \<Longrightarrow> (n :: nat) < 2 ^ 31"
proof -
  assume "1 \<le> e" "2 * n * e < 2 ^ 32"
  then have "2 * n < 2 ^ 32" using mult_le_mono2[of 1 e "2 * n"] by linarith
  then show ?thesis by simp
qed

lemma elem_pos: "elem \<noteq> 0 \<Longrightarrow> 1 \<le> unat (elem :: usize)"
  by (metis less_one linorder_not_less unat_eq_zero)

lemma ensure_capacity_holds:
  assumes v: "vector_holds k v xs" and el: "element_ok T"
    and nc: "nc \<noteq> 0" "length xs \<le> unat nc" "2 * unat nc * unat (et_sizeof T) < 2 ^ 32"
  shows "\<exists>v'. Vector_ensure_capacity T v nc = Inr v' \<and> vector_holds k v' xs \<and>
     unat nc \<le> unat (ve_m_capacity v')"
proof (cases "ve_m_capacity v \<ge> nc")
  case True
  then show ?thesis using v by (simp add: Vector_ensure_capacity_def word_le_nat_alt)
next
  case False
  let ?e = "et_sizeof T"
  have el1: "1 \<le> unat ?e" using el elem_pos by (simp add: element_ok_def)
  from small_size[OF el1 nc(3)] round_to_power_of_two_doubles[OF nc(1)] obtain r where
    r: "round_to_power_of_two nc = Inr r" "unat nc < unat r" "unat r \<le> 2 * unat nc" by blast
  have "unat ?e * unat r \<le> unat ?e * (2 * unat nc)" using r(3) by (rule mult_le_mono2)
  also have "\<dots> = 2 * unat nc * unat ?e" by (simp only: mult_ac)
  finally have "unat ?e * unat r < 2 ^ 32" using nc(3) by linarith
  then have "unat (?e * r) = unat ?e * unat r" by (simp add: unat_word_ariths)
  then have slots: "unat (?e * r) div unat ?e = unat r" using el1 by simp
  have whole: "et_primitive T \<or> et_sizeof T mod 4 = 0" using el by (simp only: element_ok_def)
  have sz: "unat (ve_m_size v) = length xs" using v by (simp add: vector_holds_def)
  have gt: "ve_m_size v < r" using r(2) nc(2) sz by (simp add: word_less_nat_alt)
  obtain rest where d: "Vector_data v = map Some xs @ rest" "length rest = unat (ve_m_capacity v) - length xs"
    using v by (rule vector_data_shape)
  let ?new = "map Some xs @ replicate (unat r - length xs) None"
  let ?old = "if et_primitive T then Vector_data v else replicate (length xs) None @ rest"
  have "Vector_move_elements (unat (ve_m_size v)) 0 (replicate (unat r) None) (Vector_data v) =
      Inr (?new, replicate (length xs) None @ rest)"
    using move_elements[of "[]" 0 xs "unat r" rest] sz d r(2) nc(2) by simp
  moreover have "Vector_copy_elements (unat (ve_m_size v)) (replicate (unat r) None) (Vector_data v) =
      Inr (?new, Vector_data v)"
    using sz d r(2) nc(2) by (simp add: Vector_copy_elements_def)
  moreover have "vector_holds k ((Vector_write v ?old)\<lparr>ve_m_data := ?new,
      ve_m_capacity := r, ve_m_use_inline_data := False\<rparr>) xs"
    using v r(2) nc(2) d by (auto simp: vector_holds_def Vector_write_def Vector_data_def)
  ultimately show ?thesis
    using False r slots gt whole
    by (cases "et_primitive T") (simp_all add: Vector_ensure_capacity_def Let_def checkE_def)
qed

text \<open>References that growing vector \<open>i\<close> does not invalidate, and what they refer to.\<close>

definition refers :: "(nat \<Rightarrow> 'a Vector) \<Rightarrow> nat \<Rightarrow> 'a element_ref \<Rightarrow> 'a \<Rightarrow> bool" where
  "refers s i r x \<longleftrightarrow> (\<forall>w. read_element (s(i := w)) r = Inr x)"

lemma refers_upd [simp]: "refers (s(i := v)) i = refers s i"
  by (simp add: refers_def fun_eq_iff)

lemma refers_Elsewhere: "refers s i (Elsewhere x) x"
  by (simp add: refers_def read_element_def)

lemma refers_element:
  assumes "vector_holds k (s j) ys" and "i \<noteq> j" and "n < length ys"
  shows "refers s i (Vector_element s j n) (ys ! n)"
proof -
  obtain rest where "Vector_data (s j) = map Some ys @ rest" using assms(1) by (rule vector_data_shape)
  then have "slot_get (Vector_data (s j)) n = Inr (ys ! n)"
    using assms(3) by (simp add: slot_get_def nth_append)
  then show ?thesis using assms(2)
    by (auto simp: refers_def read_element_def Vector_element_def Vector_storage_def Vector_data_def)
qed

lemma refers_elements:
  assumes "vector_holds k (s j) ys" and "i \<noteq> j"
  shows "list_all2 (refers s i) (Vector_elements s j) ys"
proof -
  have "unat (ve_m_size (s j)) = length ys" using assms(1) by (simp add: vector_holds_def)
  then show ?thesis
    using refers_element[of k s j ys i] assms by (auto simp: Vector_elements_def list_all2_conv_all_nth)
qed

lemma append_holds:
  assumes v: "vector_holds k (s i) xs" and el: "element_ok T" and r: "refers s i r x"
    and small: "2 * Suc (length xs) * unat (et_sizeof T) < 2 ^ 32"
  shows "\<exists>v'. Vector_append T s i r = Inr (s(i := v')) \<and> vector_holds k v' (xs @ [x])"
proof -
  have el1: "1 \<le> unat (et_sizeof T)" using el elem_pos by (simp add: element_ok_def)
  note lt = small_size[OF el1 small]
  let ?v = "s i"
  have sz: "unat (ve_m_size ?v) = length xs" using v by (simp add: vector_holds_def)
  have nc: "unat (ve_m_size ?v + 1) = Suc (length xs)"
    using unat_inc[of "ve_m_size ?v" "Suc (length xs)"] sz lt by simp
  then have "ve_m_size ?v + 1 \<noteq> 0" by (metis nat.distinct(1) unat_0)
  with ensure_capacity_holds[OF v el, of "ve_m_size ?v + 1"] nc small obtain v1 where
    v1: "Vector_ensure_capacity T ?v (ve_m_size ?v + 1) = Inr v1" "vector_holds k v1 xs"
    "Suc (length xs) \<le> unat (ve_m_capacity v1)" by auto
  then have sz1: "ve_m_size v1 = ve_m_size ?v" using sz by (simp add: vector_holds_def word_unat_eq_iff)
  let ?data = "(Vector_data v1)[length xs := Some x]"
  obtain rest where d: "Vector_data v1 = map Some xs @ rest" "length rest = unat (ve_m_capacity v1) - length xs"
    using v1(2) by (rule vector_data_shape)
  with v1(3) obtain y rest' where rest: "rest = y # rest'" by (cases rest) auto
  have data: "?data = map Some (xs @ [x]) @ rest'" using d rest by (simp add: list_update_append)
  have "read_element (s(i := v1)) r = Inr x" using r by (simp add: refers_def)
  then have "Vector_append T s i r = Inr (s(i := (Vector_write v1 ?data)\<lparr>ve_m_size := ve_m_size ?v + 1\<rparr>))"
    using v1(1) sz sz1 d(1) rest by (simp add: Vector_append_def slot_put_def)
  moreover have "vector_holds k ((Vector_write v1 ?data)\<lparr>ve_m_size := ve_m_size ?v + 1\<rparr>) (xs @ [x])"
    unfolding data using v1(2,3) nc d rest
    by (auto simp: vector_holds_def Vector_write_def Vector_data_def)
  ultimately show ?thesis by blast
qed

lemma append_all_holds:
  "vector_holds k (s i) xs \<Longrightarrow> element_ok T \<Longrightarrow> list_all2 (refers s i) rs ys \<Longrightarrow>
   2 * (length xs + length ys) * unat (et_sizeof T) < 2 ^ 32 \<Longrightarrow>
   \<exists>v'. Vector_append_all T s i rs = Inr (s(i := v')) \<and> vector_holds k v' (xs @ ys)"
proof (induction rs arbitrary: s xs ys)
  case Nil
  then show ?case by (auto intro!: exI[of _ "s i"])
next
  case (Cons r rs)
  then obtain y zs where ys: "ys = y # zs" "refers s i r y" "list_all2 (refers s i) rs zs"
    by (auto simp: list_all2_Cons1)
  have "2 * Suc (length xs) * unat (et_sizeof T) \<le> 2 * (length xs + length ys) * unat (et_sizeof T)"
    unfolding ys(1) by (intro mult_le_mono1 mult_le_mono2) simp
  then have "2 * Suc (length xs) * unat (et_sizeof T) < 2 ^ 32" using Cons.prems(4) by linarith
  from append_holds[where s = s and i = i, OF Cons.prems(1,2) ys(2) this] obtain v1 where
    v1: "Vector_append T s i r = Inr (s(i := v1))" "vector_holds k v1 (xs @ [y])" by blast
  have h: "vector_holds k ((s(i := v1)) i) (xs @ [y])" using v1(2) by simp
  have refs: "list_all2 (refers (s(i := v1)) i) rs zs" using ys(3) by simp
  have "2 * (length (xs @ [y]) + length zs) * unat (et_sizeof T) < 2 ^ 32" using Cons.prems(4) ys(1) by simp
  from Cons.IH[OF h Cons.prems(2) refs this] v1(1) ys(1) show ?case by (auto simp del: fun_upd_apply)
qed

lemma extend_holds:
  assumes v: "vector_holds k (s i) xs" and el: "element_ok T" and refs: "list_all2 (refers s i) rs ys"
    and small: "2 * (length xs + length ys) * unat (et_sizeof T) < 2 ^ 32"
  shows "\<exists>v'. Vector_extend T s i rs = Inr (s(i := v')) \<and> vector_holds k v' (xs @ ys)"
proof -
  have el1: "1 \<le> unat (et_sizeof T)" using el elem_pos by (simp add: element_ok_def)
  note lt = small_size[OF el1 small]
  have len: "length rs = length ys" using refs by (rule list_all2_lengthD)
  have sz: "unat (ve_m_size (s i)) = length xs" using v by (simp add: vector_holds_def)
  let ?nc = "ve_m_size (s i) + of_nat (length ys) :: usize"
  have ly: "unat (of_nat (length ys) :: usize) = length ys" using lt by (intro word_of_nat_unat_eq) simp_all
  then have nc: "unat ?nc = length xs + length ys"
    using unat_add_small[of "ve_m_size (s i)" "of_nat (length ys)"] sz lt by simp
  have "\<exists>v'. Vector_ensure_capacity T (s i) ?nc = Inr v' \<and> vector_holds k v' xs"
  proof (cases "?nc = 0")
    case True
    then show ?thesis using v by (simp add: Vector_ensure_capacity_def)
  next
    case False
    then show ?thesis using ensure_capacity_holds[OF v el, of ?nc] nc small by auto
  qed
  then obtain v1 where v1: "Vector_ensure_capacity T (s i) ?nc = Inr v1" "vector_holds k v1 xs" by blast
  have "vector_holds k ((s(i := v1)) i) xs" "list_all2 (refers (s(i := v1)) i) rs ys"
    using v1(2) refs by simp_all
  from append_all_holds[OF this(1) el this(2) small] v1(1) len show ?thesis
    by (auto simp: Vector_extend_def)
qed

subsection \<open>Families of vectors are families of lists\<close>

text \<open>What a call appends: given values, or one element or all elements of a vector.\<close>

datatype 'a vector_op =
    Append nat 'a | AppendFrom nat nat nat | Extend nat "'a list" | ExtendFrom nat nat
  | ClearAll nat | At nat usize | Size nat | Copy nat nat | MoveAll nat nat
  | MakeCopy nat nat | MakeMove nat nat

datatype 'a vector_answer = Void | Element 'a | Count usize

fun Vector_step :: "ElementType \<Rightarrow> usize \<Rightarrow> 'a vector_op \<Rightarrow> (nat \<Rightarrow> 'a Vector) \<Rightarrow>
    ('a vector_answer \<times> (nat \<Rightarrow> 'a Vector)) outcome" where
  "Vector_step T k (Append i x) s = bindE (Vector_append T s i (Elsewhere x)) (\<lambda>s. Inr (Void, s))"
| "Vector_step T k (AppendFrom i j n) s = bindE (Vector_append T s i (Vector_element s j n)) (\<lambda>s. Inr (Void, s))"
| "Vector_step T k (Extend i xs) s = bindE (Vector_extend T s i (map Elsewhere xs)) (\<lambda>s. Inr (Void, s))"
| "Vector_step T k (ExtendFrom i j) s = bindE (Vector_extend T s i (Vector_elements s j)) (\<lambda>s. Inr (Void, s))"
| "Vector_step T k (ClearAll i) s = bindE (Vector_clear (s i)) (\<lambda>v. Inr (Void, s(i := v)))"
| "Vector_step T k (At i n) s = bindE (Vector_at (s i) n) (\<lambda>x. Inr (Element x, s))"
| "Vector_step T k (Size i) s = Inr (Count (Vector_size (s i)), s)"
| "Vector_step T k (Copy i j) s = bindE (Vector_assign_copy T s i j) (\<lambda>s. Inr (Void, s))"
| "Vector_step T k (MoveAll i j) s = bindE (Vector_assign_move T k s i j) (\<lambda>s. Inr (Void, s))"
| "Vector_step T k (MakeCopy i j) s =
     bindE (Vector_destroy (s i)) (\<lambda>v. bindE (Vector_copy T k (s(i := v)) i j) (\<lambda>s. Inr (Void, s)))"
| "Vector_step T k (MakeMove i j) s =
     bindE (Vector_destroy (s i)) (\<lambda>v. bindE (Vector_move T k (s(i := v)) i j) (\<lambda>s. Inr (Void, s)))"

text \<open>
  The reference: lists of at most \<open>lim\<close> elements.  A result outside of the limit, an index out of
  range and a reference into the very vector that grows have no answer.  Copying or moving a vector
  onto itself empties it.
\<close>

definition limited :: "nat \<Rightarrow> 'a list \<Rightarrow> 'b \<Rightarrow> 'b option" where
  "limited lim xs r = (if length xs \<le> lim then Some r else None)"

fun lists_step :: "nat \<Rightarrow> 'a vector_op \<Rightarrow> (nat \<Rightarrow> 'a list) \<Rightarrow> ('a vector_answer \<times> (nat \<Rightarrow> 'a list)) option" where
  "lists_step lim (Append i x) A = limited lim (A i @ [x]) (Void, A(i := A i @ [x]))"
| "lists_step lim (AppendFrom i j n) A =
     (if i \<noteq> j \<and> n < length (A j) then limited lim (A i @ [A j ! n]) (Void, A(i := A i @ [A j ! n])) else None)"
| "lists_step lim (Extend i xs) A = limited lim (A i @ xs) (Void, A(i := A i @ xs))"
| "lists_step lim (ExtendFrom i j) A =
     (if i \<noteq> j then limited lim (A i @ A j) (Void, A(i := A i @ A j)) else None)"
| "lists_step lim (ClearAll i) A = Some (Void, A(i := []))"
| "lists_step lim (At i n) A = (if unat n < length (A i) then Some (Element (A i ! unat n), A) else None)"
| "lists_step lim (Size i) A = Some (Count (of_nat (length (A i))), A)"
| "lists_step lim (Copy i j) A = Some (Void, A(i := (if i = j then [] else A j)))"
| "lists_step lim (MoveAll i j) A = Some (Void, A(i := (if i = j then [] else A j), j := []))"
| "lists_step lim (MakeCopy i j) A = (if i = j then None else Some (Void, A(i := A j)))"
| "lists_step lim (MakeMove i j) A = (if i = j then None else Some (Void, A(i := A j, j := [])))"

fun run_Vector :: "ElementType \<Rightarrow> usize \<Rightarrow> 'a vector_op list \<Rightarrow> (nat \<Rightarrow> 'a Vector) \<Rightarrow>
    ('a vector_answer list \<times> (nat \<Rightarrow> 'a Vector)) outcome" where
  "run_Vector T k [] s = Inr ([], s)"
| "run_Vector T k (op # ops) s = bindE (Vector_step T k op s) (\<lambda>(r, s).
     bindE (run_Vector T k ops s) (\<lambda>(rs, s). Inr (r # rs, s)))"

fun run_lists :: "nat \<Rightarrow> 'a vector_op list \<Rightarrow> (nat \<Rightarrow> 'a list) \<Rightarrow>
    ('a vector_answer list \<times> (nat \<Rightarrow> 'a list)) option" where
  "run_lists lim [] A = Some ([], A)"
| "run_lists lim (op # ops) A =
     (case lists_step lim op A of
        None \<Rightarrow> None
      | Some (r, A) \<Rightarrow> (case run_lists lim ops A of None \<Rightarrow> None | Some (rs, A) \<Rightarrow> Some (r # rs, A)))"

definition family :: "nat \<Rightarrow> usize \<Rightarrow> (nat \<Rightarrow> 'a Vector) \<Rightarrow> (nat \<Rightarrow> 'a list) \<Rightarrow> bool" where
  "family lim k s A \<longleftrightarrow> (\<forall>i. vector_holds k (s i) (A i) \<and> length (A i) \<le> lim)"

lemma family_upd: "family lim k s A \<Longrightarrow> vector_holds k v xs \<Longrightarrow> length xs \<le> lim \<Longrightarrow>
   family lim k (s(i := v)) (A(i := xs))"
  by (simp add: family_def)

lemma small_mult: "(n :: nat) \<le> lim \<Longrightarrow> 2 * lim * e < c \<Longrightarrow> 2 * n * e < c"
  by (meson le_less_trans mult_le_mono1 mult_le_mono2)

lemma copy_family:
  assumes f: "family lim k s A" and el: "element_ok T" and small: "2 * lim * unat (et_sizeof T) < 2 ^ 32"
  shows "\<exists>s'. Vector_assign_copy T s i j = Inr s' \<and> family lim k s' (A(i := (if i = j then [] else A j)))"
proof -
  obtain v where v: "Vector_clear (s i) = Inr v" "vector_holds k v []"
    using clear_holds f by (metis family_def)
  let ?ys = "if i = j then [] else A j" let ?s = "s(i := v)"
  have h: "vector_holds k (?s j) ?ys" "length ?ys \<le> lim" using f v(2) by (auto simp: family_def)
  have refs: "list_all2 (refers ?s i) (Vector_elements ?s j) ?ys"
  proof (cases "i = j")
    case True
    then show ?thesis using v(2) by (simp add: Vector_elements_def vector_holds_def)
  next
    case False
    from refers_elements[of k ?s j, OF h(1) this] show ?thesis .
  qed
  have "2 * (length [] + length ?ys) * unat (et_sizeof T) < 2 ^ 32" using small_mult[OF h(2) small] by simp
  with extend_holds[of k ?s i "[]", OF _ el refs] v(2) obtain w where
    w: "Vector_extend T ?s i (Vector_elements ?s j) = Inr (?s(i := w))" "vector_holds k w ?ys"
    by (auto simp del: fun_upd_apply simp: fun_upd_same)
  have "Vector_assign_copy T s i j = Inr (s(i := w))"
    using v(1) w(1) by (simp add: Vector_assign_copy_def Let_def)
  then show ?thesis using family_upd[OF f w(2) h(2)] by blast
qed

lemma move_family:
  assumes f: "family lim k s A" and el: "element_ok T" and small: "2 * lim * unat (et_sizeof T) < 2 ^ 32"
  shows "\<exists>s'. Vector_assign_move T k s i j = Inr s' \<and>
     family lim k s' (A(i := (if i = j then [] else A j), j := []))"
proof -
  obtain v where v: "Vector_clear (s i) = Inr v" "vector_holds k v []"
    using clear_holds f by (metis family_def)
  let ?ys = "if i = j then [] else A j" let ?s = "s(i := v)"
  have h: "vector_holds k (?s j) ?ys" "length ?ys \<le> lim" using f v(2) by (auto simp: family_def)
  show ?thesis
  proof (cases "ve_m_use_inline_data (?s j)")
    case True
    obtain s1 where c: "Vector_assign_copy T s i j = Inr s1" "family lim k s1 (A(i := ?ys))"
      using copy_family[OF f el small] by blast
    then have e: "Vector_extend T ?s i (Vector_elements ?s j) = Inr s1"
      using v(1) by (simp add: Vector_assign_copy_def Let_def)
    obtain u where u: "Vector_clear (s1 j) = Inr u" "vector_holds k u []"
      using clear_holds c(2) by (metis family_def)
    have "Vector_assign_move T k s i j = Inr (s1(j := u))"
      using v(1) e u(1) True by (simp add: Vector_assign_move_def Let_def)
    then show ?thesis using family_upd[OF c(2) u(2)] by auto
  next
    case False
    define w where "w = v\<lparr>ve_m_use_inline_data := False, ve_m_capacity := ve_m_capacity (?s j),
        ve_m_size := ve_m_size (?s j), ve_m_data := ve_m_data (?s j)\<rparr>"
    define u where "u = (if i = j then w else s j)\<lparr>ve_m_use_inline_data := True, ve_m_capacity := k,
        ve_m_size := 0, ve_m_data := []\<rparr>"
    have wh: "vector_holds k w ?ys" using h(1) v(2) False by (simp add: vector_holds_def w_def Vector_data_def)
    then have uh: "vector_holds k u []"
      using h(1) by (auto simp: vector_holds_def u_def Vector_data_def split: if_splits)
    have "Vector_assign_move T k s i j = Inr (s(i := w, j := u))"
      using v(1) False by (cases "i = j") (simp_all add: Vector_assign_move_def Let_def w_def u_def)
    moreover have "family lim k (s(i := w, j := u)) (A(i := ?ys, j := []))"
      by (rule family_upd[OF family_upd[OF f wh h(2)] uh]) simp
    ultimately show ?thesis by blast
  qed
qed

lemma make_family:
  assumes "family lim k s A"
  shows "\<exists>v. Vector_destroy (s i) = Inr v \<and> family lim k (s(i := v, i := Vector_new k)) (A(i := []))"
proof -
  obtain v where "Vector_clear (s i) = Inr v" using clear_holds assms by (metis family_def)
  then show ?thesis
    using assms vector_new_holds by (auto simp: Vector_destroy_def family_def)
qed

lemma Vector_step_lists:
  assumes f: "family lim k s A" and el: "element_ok T" and small: "2 * lim * unat (et_sizeof T) < 2 ^ 32"
    and st: "lists_step lim op A = Some (r, A')"
  shows "\<exists>s'. Vector_step T k op s = Inr (r, s') \<and> family lim k s' A'"
proof -
  have hold: "vector_holds k (s i) (A i)" for i using f by (simp add: family_def)
  have append: "\<exists>s'. Vector_append T s i q = Inr s' \<and> family lim k s' (A(i := A i @ [x]))"
    if "refers s i q x" "length (A i @ [x]) \<le> lim" for i q x
  proof -
    have "2 * Suc (length (A i)) * unat (et_sizeof T) < 2 ^ 32" using small_mult[OF that(2) small] by simp
    from append_holds[where s = s and i = i, OF hold el that(1) this] family_upd[OF f _ that(2)] show ?thesis by blast
  qed
  have extend: "\<exists>s'. Vector_extend T s i qs = Inr s' \<and> family lim k s' (A(i := A i @ xs))"
    if "list_all2 (refers s i) qs xs" "length (A i @ xs) \<le> lim" for i qs xs
  proof -
    have "2 * (length (A i) + length xs) * unat (et_sizeof T) < 2 ^ 32" using small_mult[OF that(2) small] by simp
    from extend_holds[where s = s and i = i, OF hold el that(1) this] family_upd[OF f _ that(2)] show ?thesis by blast
  qed
  show ?thesis
  proof (cases op)
    case (Append i x)
    then show ?thesis using append[OF refers_Elsewhere, of i x] st by (auto simp: limited_def split: if_splits)
  next
    case (AppendFrom i j n)
    then have a: "i \<noteq> j" "n < length (A j)" "length (A i @ [A j ! n]) \<le> lim" "r = Void"
      "A' = A(i := A i @ [A j ! n])" using st by (auto simp: limited_def split: if_splits)
    from append[OF refers_element[where s = s, OF hold a(1,2)] a(3)] a(4,5) AppendFrom show ?thesis by auto
  next
    case (Extend i xs)
    have "list_all2 (refers s i) (map Elsewhere xs) xs"
      by (simp add: list_all2_conv_all_nth refers_Elsewhere)
    from extend[OF this] st Extend show ?thesis by (auto simp: limited_def split: if_splits)
  next
    case (ExtendFrom i j)
    then have a: "i \<noteq> j" "length (A i @ A j) \<le> lim" "r = Void" "A' = A(i := A i @ A j)"
      using st by (auto simp: limited_def split: if_splits)
    from extend[OF refers_elements[where s = s, OF hold a(1)] a(2)] a(3,4) ExtendFrom show ?thesis by auto
  next
    case (ClearAll i)
    then show ?thesis using clear_holds[OF hold, of i] st family_upd[OF f, of _ "[]" i] by auto
  next
    case (At i n)
    then show ?thesis using at_holds[OF hold] f st by (auto split: if_splits)
  next
    case (Size i)
    have "unat (ve_m_size (s i)) = length (A i)" using hold by (simp add: vector_holds_def)
    then have "ve_m_size (s i) = of_nat (length (A i))" by (simp flip: \<open>_ = length _\<close>)
    then show ?thesis using Size f st by (auto simp: Vector_size_def)
  next
    case (Copy i j)
    then show ?thesis using copy_family[OF f el small, of i j] st by auto
  next
    case (MoveAll i j)
    then show ?thesis using move_family[OF f el small, of i j] st by auto
  next
    case (MakeCopy i j)
    obtain v where v: "Vector_destroy (s i) = Inr v" "family lim k (s(i := v, i := Vector_new k)) (A(i := []))"
      using make_family[OF f] by blast
    then show ?thesis using copy_family[OF v(2) el small, of i j] st MakeCopy
      by (auto simp: Vector_copy_def split: if_splits)
  next
    case (MakeMove i j)
    obtain v where v: "Vector_destroy (s i) = Inr v" "family lim k (s(i := v, i := Vector_new k)) (A(i := []))"
      using make_family[OF f] by blast
    then show ?thesis using move_family[OF v(2) el small, of i j] st MakeMove
      by (auto simp: Vector_move_def split: if_splits)
  qed
qed

text \<open>
  C25. Vectors are lists: for element types that are primitive or of whole words, and as long as no
  vector needs more elements than half of what an allocation of the address space can hold, every
  sequence of appends and extensions (from values elsewhere or from the elements of another
  vector), clears, reads in range, copies and moves on a family of vectors with any inline size
  succeeds and answers as on lists.  Appending to a vector from its own elements is not covered: it
  can read a deleted allocation, as the lemma after the theorem shows.
\<close>

theorem Vector_simulates_lists:
  assumes "element_ok T" and "2 * lim * unat (et_sizeof T) < 2 ^ 32"
    and "run_lists lim ops (\<lambda>_. []) = Some (rs, A)"
  shows "\<exists>s. run_Vector T k ops (\<lambda>_. Vector_new k) = Inr (rs, s) \<and>
     (\<forall>i. Vector_span (s i) = Inr (A i))"
proof -
  have "family lim k s B \<Longrightarrow> run_lists lim ops B = Some (rs, A) \<Longrightarrow>
      \<exists>s'. run_Vector T k ops s = Inr (rs, s') \<and> family lim k s' A" for s B
  proof (induction ops arbitrary: s B rs)
    case (Cons op ops)
    then obtain r B1 qs where st: "lists_step lim op B = Some (r, B1)" "run_lists lim ops B1 = Some (qs, A)"
      "rs = r # qs" by (auto split: option.splits)
    from Vector_step_lists[OF Cons.prems(1) assms(1,2) st(1)] obtain s1 where
      "Vector_step T k op s = Inr (r, s1)" "family lim k s1 B1" by blast
    moreover from Cons.IH[OF this(2) st(2)] obtain s2 where
      "run_Vector T k ops s1 = Inr (qs, s2)" "family lim k s2 A" by blast
    ultimately show ?case using st(3) by simp
  qed simp
  from this[OF _ assms(3), of "\<lambda>_. Vector_new k"] obtain s where
    "run_Vector T k ops (\<lambda>_. Vector_new k) = Inr (rs, s)" "family lim k s A"
    by (auto simp: family_def vector_new_holds)
  then show ?thesis using span_holds[of k] by (auto simp: family_def)
qed

theorem Vector_simulates_lists_witness:
  "\<exists>s. run_Vector \<lparr>et_sizeof = 4, et_primitive = False\<rparr> 2
     [Append 0 (7 :: nat), Extend 0 [8, 9], AppendFrom 1 0 2, MoveAll 1 0, At 1 2] (\<lambda>_. Vector_new 2) =
     Inr ([Void, Void, Void, Void, Element 9], s)"
proof -
  let ?A = "(\<lambda>_. [])(0 := [7 :: nat], 0 := [7, 8, 9], 1 := [9], 1 := [7, 8, 9], 0 := [])"
  have "run_lists 100 [Append 0 (7 :: nat), Extend 0 [8, 9], AppendFrom 1 0 2, MoveAll 1 0, At 1 2] (\<lambda>_. []) =
      Some ([Void, Void, Void, Void, Element 9], ?A)"
    by (simp add: limited_def)
  from Vector_simulates_lists[OF _ _ this, of "\<lparr>et_sizeof = 4, et_primitive = False\<rparr>" 2] show ?thesis
    by (auto simp: element_ok_def)
qed

text \<open>Appending one of its own elements to a full vector reads the allocation it has just deleted.\<close>

lemma Vector_append_own_element_dangles:
  assumes v: "vector_holds k (s i) xs" and el: "element_ok T"
    and full: "unat (ve_m_capacity (s i)) = length xs" "\<not> ve_m_use_inline_data (s i)"
    and small: "2 * Suc (length xs) * unat (et_sizeof T) < 2 ^ 32"
  shows "Vector_append T s i (Vector_element s i n) = Inl (UNDEFINED ''deleted allocation'')"
proof -
  have el1: "1 \<le> unat (et_sizeof T)" using el elem_pos by (simp add: element_ok_def)
  note lt = small_size[OF el1 small]
  let ?v = "s i"
  have sz: "unat (ve_m_size ?v) = length xs" using v by (simp add: vector_holds_def)
  have nc: "unat (ve_m_size ?v + 1) = Suc (length xs)"
    using unat_inc[of "ve_m_size ?v" "Suc (length xs)"] sz lt by simp
  then have "ve_m_size ?v + 1 \<noteq> 0" by (metis nat.distinct(1) unat_0)
  with ensure_capacity_holds[OF v el, of "ve_m_size ?v + 1"] nc small obtain v1 where
    v1: "Vector_ensure_capacity T ?v (ve_m_size ?v + 1) = Inr v1"
    "Suc (length xs) \<le> unat (ve_m_capacity v1)" by auto
  then have "ve_m_capacity v1 \<noteq> ve_m_capacity ?v" using full(1) by auto
  then have "read_element (s(i := v1)) (Vector_element s i n) = Inl (UNDEFINED ''deleted allocation'')"
    using full(2) by (simp add: read_element_def Vector_element_def Vector_storage_def)
  then show ?thesis using v1(1) by (simp add: Vector_append_def)
qed

end
