(* ===== verification/Formatting.thy ===== *)
theory Formatting
  imports Paths
begin

section \<open>Std/Format.hpp and Std/Format.cpp\<close>

text \<open>
  Immutable strings, string builders, format strings and the formatters.  A string is an instance
  with a terminated buffer; a builder is the characters its vector holds (see the refinement of
  vectors to lists); a format parameter is its formatter applied to its value, a function on
  builders that may itself fail or run forever.  Format strings are related to a list of literal pieces and placeholders.
\<close>

subsection \<open>Immutable strings\<close>

record ImmutableStringInstance =
  is_m_buffer :: string
  is_m_buffer_size :: usize

definition ImmutableStringInstance_new :: ImmutableStringInstance where
  "ImmutableStringInstance_new = \<lparr>is_m_buffer = [CHR 0x00], is_m_buffer_size = 1\<rparr>"

definition ImmutableStringInstance_of :: "StringView \<Rightarrow> ImmutableStringInstance outcome" where
  "ImmutableStringInstance_of string =
     (let m_buffer_size = Span_size string + 1;
          m_buffer = replicate (unat m_buffer_size) (CHR 0x00)
      in bindE (StringView_strcpy_to string (Span_of m_buffer m_buffer_size)) (\<lambda>buffer.
         Inr \<lparr>is_m_buffer = sp_m_data buffer, is_m_buffer_size = m_buffer_size\<rparr>))"

definition ImmutableStringInstance_size :: "ImmutableStringInstance \<Rightarrow> usize outcome" where
  "ImmutableStringInstance_size s =
     checkE (is_m_buffer_size s \<ge> 1) (VERIFY ''m_buffer_size >= 1'') (Inr (is_m_buffer_size s - 1))"

definition ImmutableString_view :: "ImmutableStringInstance \<Rightarrow> StringView outcome" where
  "ImmutableString_view s =
     bindE (ImmutableStringInstance_size s) (\<lambda>n. Inr (Span_of (is_m_buffer s) n))"

definition ImmutableString_strcpy_to :: "ImmutableStringInstance \<Rightarrow> char Span \<Rightarrow> char Span outcome" where
  "ImmutableString_strcpy_to s other =
     bindE (ImmutableString_view s) (\<lambda>v. StringView_strcpy_to v other)"

definition ImmutableString_compare ::
  "ImmutableStringInstance \<Rightarrow> ImmutableStringInstance \<Rightarrow> strong_ordering outcome" where
  "ImmutableString_compare s t =
     bindE (ImmutableString_view s) (\<lambda>v. bindE (ImmutableString_view t) (\<lambda>w. StringView_compare v w))"

definition ImmutableString_equal ::
  "ImmutableStringInstance \<Rightarrow> ImmutableStringInstance \<Rightarrow> bool outcome" where
  "ImmutableString_equal s t =
     bindE (ImmutableString_view s) (\<lambda>v. bindE (ImmutableString_view t) (\<lambda>w. StringView_equal v w))"

text \<open>An immutable string shows the characters it was made from.\<close>

lemma ImmutableString_of_view:
  assumes "span_ok s" and "unat (sp_m_size s) + 1 < 2 ^ 32"
  shows "\<exists>i v. ImmutableStringInstance_of s = Inr i \<and> ImmutableString_view i = Inr v \<and>
     span_ok v \<and> view v = view s \<and> is_m_buffer i = view s @ [CHR 0x00]"
proof -
  let ?n = "sp_m_size s"
  have n1: "unat (?n + 1) = Suc (unat ?n)" using unat_inc[of ?n "Suc (unat ?n)"] assms(2) by simp
  let ?buf = "replicate (Suc (unat ?n)) (CHR 0x00)"
  have d: "drop (unat ?n) ?buf = [CHR 0x00]" by (subst drop_replicate) simp
  have m: "memcpy_list ?buf (sp_m_data s) (unat ?n) = Inr (view s @ [CHR 0x00])"
    using assms(1) d by (simp add: memcpy_list_def view_def span_ok_def del: replicate_Suc)
  have lv: "length (view s) = unat ?n" using assms(1) by (simp add: length_view)
  have c: "Span_size s + 1 \<le> Span_size (Span_of ?buf (?n + 1))" by (simp add: Span_size_def Span_of_def)
  have put: "Span_put \<lparr>sp_m_data = view s @ [CHR 0x00], sp_m_size = ?n + 1\<rparr> ?n (CHR 0x00) =
      Inr \<lparr>sp_m_data = view s @ [CHR 0x00], sp_m_size = ?n + 1\<rparr>"
    using lv by (simp add: Span_put_def list_update_append)
  have "StringView_strcpy_to s (Span_of ?buf (?n + 1)) =
      Inr \<lparr>sp_m_data = view s @ [CHR 0x00], sp_m_size = ?n + 1\<rparr>"
    using c m put unfolding StringView_strcpy_to_def
    by (simp only: checkE_True Span_of_def Span.simps bindE_Inr Span_size_def)
  then have "ImmutableStringInstance_of s = Inr \<lparr>is_m_buffer = view s @ [CHR 0x00], is_m_buffer_size = ?n + 1\<rparr>"
    unfolding ImmutableStringInstance_of_def Let_def Span_size_def n1 by (simp only: bindE_Inr Span.simps)
  moreover have "1 \<le> ?n + 1" using n1 by (simp add: word_le_nat_alt)
  ultimately show ?thesis
    using lv by (simp add: ImmutableString_view_def ImmutableStringInstance_size_def span_ok_def Span_of_def
        view_def[of "\<lparr>sp_m_data = view s @ [CHR 0x00], sp_m_size = ?n\<rparr>"])
qed

subsection \<open>String builders\<close>

type_synonym StringBuilder = string

definition StringBuilder_append :: "StringBuilder \<Rightarrow> char \<Rightarrow> StringBuilder" where
  "StringBuilder_append builder ch = builder @ [ch]"

definition StringBuilder_append_view :: "StringBuilder \<Rightarrow> string \<Rightarrow> StringBuilder" where
  "StringBuilder_append_view builder str = foldl StringBuilder_append builder str"

lemma append_view [simp]: "StringBuilder_append_view builder str = builder @ str"
  by (induction str arbitrary: builder) (simp_all add: StringBuilder_append_view_def StringBuilder_append_def)

subsection \<open>Format strings\<close>

type_synonym format_param = "StringBuilder \<Rightarrow> StringBuilder outcome"

definition FormatParams_param :: "format_param list \<Rightarrow> usize \<Rightarrow> format_param outcome" where
  "FormatParams_param params index =
     checkE (unat index < length params) (ASSERT ''index < m_params.size()'') (Inr (params ! unat index))"

definition literal :: "string \<Rightarrow> StringView" where
  "literal str = Span_of (str @ [CHR 0x00]) (of_nat (length str))"

fun vformat_loop ::
  "nat \<Rightarrow> Lexer \<Rightarrow> format_param list \<Rightarrow> usize \<Rightarrow> usize \<Rightarrow> StringBuilder \<Rightarrow> StringBuilder outcome" where
  "vformat_loop fuel lexer params next_parameter_index curly_brace_level builder =
     (if Lexer_eof lexer then Inr builder
      else if fuel = 0 then Inl DIVERGES
      else if curly_brace_level = 0 then
        bindE (Lexer_try_consume_view lexer (literal ''{{'')) (\<lambda>(found, lexer).
        if found then vformat_loop (fuel - 1) lexer params next_parameter_index curly_brace_level
               (StringBuilder_append builder (CHR ''{''))
        else bindE (Lexer_try_consume_view lexer (literal ''}}'')) (\<lambda>(found, lexer).
        if found then vformat_loop (fuel - 1) lexer params next_parameter_index curly_brace_level
               (StringBuilder_append builder (CHR ''}''))
        else bindE (Lexer_try_consume lexer (CHR ''{'')) (\<lambda>(found, lexer).
        if found then vformat_loop (fuel - 1) lexer params next_parameter_index 1 builder
        else bindE (Lexer_peek_or_null lexer) (\<lambda>c.
             checkE (c \<noteq> CHR ''}'') (ASSERT ''lexer.peek_or_null() != 0x7d'')
             (bindE (Lexer_consume lexer) (\<lambda>(c, lexer).
              vformat_loop (fuel - 1) lexer params next_parameter_index curly_brace_level
                (StringBuilder_append builder c)))))))
      else
        bindE (Lexer_try_consume lexer (CHR ''{'')) (\<lambda>(found, lexer).
        if found then vformat_loop (fuel - 1) lexer params next_parameter_index (curly_brace_level + 1) builder
        else bindE (Lexer_try_consume lexer (CHR ''}'')) (\<lambda>(found, lexer).
        if found then
          let curly_brace_level = curly_brace_level - 1
          in if curly_brace_level = 0
             then bindE (FormatParams_param params next_parameter_index) (\<lambda>parameter.
                  bindE (parameter builder) (\<lambda>builder.
                  vformat_loop (fuel - 1) lexer params (next_parameter_index + 1) curly_brace_level builder))
             else vformat_loop (fuel - 1) lexer params next_parameter_index curly_brace_level builder
        else bindE (Lexer_consume lexer) (\<lambda>(_, lexer).
             vformat_loop (fuel - 1) lexer params next_parameter_index curly_brace_level builder))))"

declare vformat_loop.simps [simp del]

definition vformat :: "StringBuilder \<Rightarrow> StringView \<Rightarrow> format_param list \<Rightarrow> StringBuilder outcome" where
  "vformat builder fmtstr params =
     vformat_loop (unat (Span_size fmtstr)) (Lexer_new fmtstr) params 0 0 builder"

definition ImmutableString_format :: "StringView \<Rightarrow> format_param list \<Rightarrow> string outcome" where
  "ImmutableString_format fmtstr params = vformat [] fmtstr params"


text \<open>Matching a literal at the lexer's position.\<close>

lemma matches_rest:
  assumes ok: "lexer_ok lx" "span_ok str" and len: "unat (sp_m_size str) \<le> length (rest lx)"
  shows "unat i \<le> unat (sp_m_size str) \<Longrightarrow> unat (sp_m_size str) - unat i \<le> fuel \<Longrightarrow>
    Lexer_matches fuel lx str i =
      Inr (drop (unat i) (view str) = drop (unat i) (take (unat (sp_m_size str)) (rest lx)))"
proof (induction fuel arbitrary: i)
  case 0
  then have "\<not> i < Span_size str" by (simp add: Span_size_def word_less_nat_alt)
  then show ?case using 0 len ok(2) by (subst Lexer_matches.simps) (simp add: length_view)
next
  case (Suc fuel)
  let ?n = "unat (sp_m_size str)" and ?s = "view str" and ?r = "take (unat (sp_m_size str)) (rest lx)"
  show ?case
  proof (cases "i < Span_size str")
    case False
    then have "unat i = ?n" using Suc.prems by (simp add: Span_size_def word_less_nat_alt)
    then show ?thesis using False len ok(2) by (subst Lexer_matches.simps) (simp add: length_view)
  next
    case True
    then have i: "unat i < ?n" by (simp add: Span_size_def word_less_nat_alt)
    let ?o = "lx_m_offset lx" and ?in = "lx_m_input lx"
    have inok: "span_ok ?in" using ok(1) by (simp add: lexer_ok_def)
    have lr: "length (rest lx) = length (view ?in) - unat ?o" by (simp add: rest_def)
    have lt: "unat ?o + unat i < length (view ?in)" using i len lr by simp
    then have off: "unat (?o + i) = unat ?o + unat i"
      using unat_add_small[of ?o i] unat_bound32[of "sp_m_size ?in"] by (simp add: length_view[OF inok])
    have a: "Span_at ?in (?o + i) = Inr (rest lx ! unat i)"
      using Span_at_view[OF inok, of "?o + i"] off lt by (simp add: rest_def)
    have b: "Span_at str i = Inr (?s ! unat i)" using Span_at_view[OF ok(2), of i] i by (simp add: length_view[OF ok(2)])
    have i1: "unat (i + 1) = Suc (unat i)" using unat_inc[of i ?n] i by simp
    have ds: "drop (unat i) ?s = ?s ! unat i # drop (Suc (unat i)) ?s"
      by (rule Cons_nth_drop_Suc[symmetric]) (simp add: length_view[OF ok(2)] i)
    have dr: "drop (unat i) ?r = rest lx ! unat i # drop (Suc (unat i)) ?r"
      using Cons_nth_drop_Suc[of "unat i" ?r] i len by simp
    have "Lexer_matches fuel lx str (i + 1) = Inr (drop (Suc (unat i)) ?s = drop (Suc (unat i)) ?r)"
      using Suc.IH[of "i + 1"] Suc.prems i i1 by simp
    then show ?thesis using True a b ds dr by (subst Lexer_matches.simps) auto
  qed
qed

lemma literal_ok: "length str < 2 ^ 32 \<Longrightarrow> span_ok (literal str) \<and> view (literal str) = str \<and>
    unat (sp_m_size (literal str)) = length str"
  using word_of_nat_unat_eq[OF refl, of "length str"]
  by (simp add: literal_def Span_of_def span_ok_def view_def)

lemma try_literal:
  assumes ok: "lexer_ok lx" and small: "length str < 2 ^ 32"
  shows "\<exists>lx'. Lexer_try_consume_view lx (literal str) = Inr (take (length str) (rest lx) = str, lx') \<and>
    lexer_ok lx' \<and> rest lx' = (if take (length str) (rest lx) = str then drop (length str) (rest lx) else rest lx)"
proof -
  let ?s = "literal str" and ?o = "lx_m_offset lx" and ?in = "lx_m_input lx"
  note L = literal_ok[OF small]
  have inok: "span_ok ?in" and le: "?o \<le> sp_m_size ?in" using ok by (simp_all add: lexer_ok_def)
  have rem: "unat (Lexer_remaining lx) = length (rest lx)"
    using le by (simp add: Lexer_remaining_def Span_size_def rest_def length_view[OF inok]
        unat_sub_small word_le_nat_alt)
  show ?thesis
  proof (cases "length str \<le> length (rest lx)")
    case False
    then have "Span_size ?s > Lexer_remaining lx" using rem L by (simp add: Span_size_def word_less_nat_alt)
    moreover have "take (length str) (rest lx) \<noteq> str"
    proof
      assume "take (length str) (rest lx) = str"
      then have "length (take (length str) (rest lx)) = length str" by simp
      with False show False by simp
    qed
    ultimately show ?thesis using ok by (simp add: Lexer_try_consume_view_def)
  next
    case True
    then have nl: "\<not> Span_size ?s > Lexer_remaining lx"
      using rem L by (simp add: Span_size_def word_less_nat_alt)
    have "Lexer_matches (unat (Span_size ?s)) lx ?s 0 = Inr (str = take (length str) (rest lx))"
      using matches_rest[OF ok, of ?s 0 "unat (Span_size ?s)"] L True by (simp add: Span_size_def)
    moreover have off: "unat (?o + Span_size ?s) = unat ?o + length str"
    proof -
      have "unat ?o + length str \<le> unat (sp_m_size ?in)"
        using True le by (simp add: rest_def length_view[OF inok] word_le_nat_alt)
      then show ?thesis
        using unat_add_small[of ?o "Span_size ?s"] L unat_bound32[of "sp_m_size ?in"]
        by (simp add: Span_size_def)
    qed
    moreover have "?o + Span_size ?s \<le> sp_m_size ?in"
      using off True le by (simp add: rest_def length_view[OF inok] word_le_nat_alt)
    ultimately show ?thesis
      using nl ok by (auto simp: Lexer_try_consume_view_def lexer_ok_def rest_def add.commute)
  qed
qed

text \<open>
  A format string as pieces: literal text, in which braces are doubled, and placeholders, which may
  carry text without braces.
\<close>

datatype piece = Lit string | Arg string

fun escape :: "string \<Rightarrow> string" where
  "escape [] = []"
| "escape (c # cs) = (if c = CHR ''{'' \<or> c = CHR ''}'' then [c, c] else [c]) @ escape cs"

fun print_piece :: "piece \<Rightarrow> string" where
  "print_piece (Lit s) = escape s"
| "print_piece (Arg s) = ''{'' @ s @ ''}''"

fun piece_ok :: "piece \<Rightarrow> bool" where
  "piece_ok (Lit s) \<longleftrightarrow> True"
| "piece_ok (Arg s) \<longleftrightarrow> CHR ''{'' \<notin> set s \<and> CHR ''}'' \<notin> set s"

fun render :: "piece list \<Rightarrow> format_param list \<Rightarrow> usize \<Rightarrow> StringBuilder \<Rightarrow> StringBuilder outcome" where
  "render [] params n builder = Inr builder"
| "render (Lit s # ps) params n builder = render ps params n (builder @ s)"
| "render (Arg s # ps) params n builder =
     bindE (FormatParams_param params n) (\<lambda>p. bindE (p builder) (render ps params (n + 1)))"

lemma step_brace:
  assumes "lexer_ok lx" and "rest lx = c # c # r" and "c = CHR ''{'' \<or> c = CHR ''}''"
  shows "\<exists>lx'. lexer_ok lx' \<and> rest lx' = r \<and> vformat_loop (Suc fuel) lx params n 0 b =
     vformat_loop fuel lx' params n 0 (b @ [c])"
proof -
  have ne: "\<not> Lexer_eof lx" using assms(2) eof_rest[OF assms(1)] by simp
  obtain lx1 where l1: "Lexer_try_consume_view lx (literal ''{{'') = Inr (c = CHR ''{'', lx1)" "lexer_ok lx1"
    "rest lx1 = (if c = CHR ''{'' then r else rest lx)"
    using try_literal[OF assms(1), of "''{{''"] assms(2) by auto
  obtain lx2 where l2: "Lexer_try_consume_view lx1 (literal ''}}'') =
      Inr (take (Suc (Suc 0)) (rest lx1) = ''}}'', lx2)" "lexer_ok lx2"
    "rest lx2 = (if take (Suc (Suc 0)) (rest lx1) = ''}}'' then drop (Suc (Suc 0)) (rest lx1) else rest lx1)"
    using try_literal[OF l1(2), of "''}}''"] by auto
  show ?thesis
  proof (cases "c = CHR ''{''")
    case True
    then show ?thesis using ne l1 by (subst vformat_loop.simps) (auto simp: StringBuilder_append_def)
  next
    case False
    then have "c = CHR ''}''" using assms(3) by simp
    then show ?thesis using ne l1 l2 assms(2)
      by (subst vformat_loop.simps) (auto simp: StringBuilder_append_def)
  qed
qed

lemma not_double:
  assumes "lexer_ok lx" and "rest lx = c # r" and "c \<noteq> d \<or> r = [] \<or> hd r \<noteq> d"
  shows "\<exists>lx'. Lexer_try_consume_view lx (literal [d, d]) = Inr (False, lx') \<and> lexer_ok lx' \<and> rest lx' = rest lx"
proof -
  have "take (length [d, d]) (rest lx) \<noteq> [d, d]" using assms(2,3) by (cases r) auto
  then show ?thesis using try_literal[OF assms(1), of "[d, d]"] by auto
qed

lemma step_char:
  assumes "lexer_ok lx" and "rest lx = c # r" and "c \<noteq> CHR ''{''" "c \<noteq> CHR ''}''"
  shows "\<exists>lx'. lexer_ok lx' \<and> rest lx' = r \<and> vformat_loop (Suc fuel) lx params n 0 b =
     vformat_loop fuel lx' params n 0 (b @ [c])"
proof -
  have ne: "\<not> Lexer_eof lx" using assms(2) eof_rest[OF assms(1)] by simp
  obtain lx1 where l1: "Lexer_try_consume_view lx (literal ''{{'') = Inr (False, lx1)" "lexer_ok lx1" "rest lx1 = c # r"
    using not_double[OF assms(1,2), of "CHR ''{''"] assms by auto
  obtain lx2 where l2: "Lexer_try_consume_view lx1 (literal ''}}'') = Inr (False, lx2)" "lexer_ok lx2" "rest lx2 = c # r"
    using not_double[OF l1(2,3), of "CHR ''}''"] assms l1 by auto
  obtain lx3 where l3: "Lexer_try_consume lx2 (CHR ''{'') = Inr (False, lx3)" "lexer_ok lx3" "rest lx3 = c # r"
    using try_consume_rest[OF l2(2), of "CHR ''{''"] l2(3) assms(3) by auto
  obtain lx4 where l4: "Lexer_consume lx3 = Inr (c, lx4)" "lexer_ok lx4" "rest lx4 = r"
    using consume_rest[OF l3(2,3)] by blast
  have "Lexer_peek_or_null lx3 = Inr c" using peek_rest[OF l3(2)] l3(3) by simp
  then have "vformat_loop (Suc fuel) lx params n 0 b = vformat_loop fuel lx4 params n 0 (b @ [c])"
    using ne l1(1) l2(1) l3(1) l4(1) assms(4) by (subst vformat_loop.simps) (simp add: StringBuilder_append_def)
  with l4 show ?thesis by blast
qed

lemma step_open:
  assumes "lexer_ok lx" and "rest lx = CHR ''{'' # r" and "r = [] \<or> hd r \<noteq> CHR ''{''"
  shows "\<exists>lx'. lexer_ok lx' \<and> rest lx' = r \<and> vformat_loop (Suc fuel) lx params n 0 b =
     vformat_loop fuel lx' params n 1 b"
proof -
  have ne: "\<not> Lexer_eof lx" using assms(2) eof_rest[OF assms(1)] by simp
  obtain lx1 where l1: "Lexer_try_consume_view lx (literal ''{{'') = Inr (False, lx1)" "lexer_ok lx1"
    "rest lx1 = CHR ''{'' # r" using not_double[OF assms(1,2), of "CHR ''{''"] assms by auto
  obtain lx2 where l2: "Lexer_try_consume_view lx1 (literal ''}}'') = Inr (False, lx2)" "lexer_ok lx2"
    "rest lx2 = CHR ''{'' # r" using not_double[OF l1(2,3), of "CHR ''}''"] l1 by auto
  obtain lx3 where l3: "Lexer_try_consume lx2 (CHR ''{'') = Inr (True, lx3)" "lexer_ok lx3" "rest lx3 = r"
    using try_consume_rest[OF l2(2), of "CHR ''{''"] l2(3) by auto
  have "vformat_loop (Suc fuel) lx params n 0 b = vformat_loop fuel lx3 params n 1 b"
    using ne l1(1) l2(1) l3(1) by (subst vformat_loop.simps) simp
  with l3 show ?thesis by blast
qed

lemma step_skip:
  assumes "lexer_ok lx" and "rest lx = c # r" and "c \<noteq> CHR ''{''" "c \<noteq> CHR ''}''"
  shows "\<exists>lx'. lexer_ok lx' \<and> rest lx' = r \<and> vformat_loop (Suc fuel) lx params n 1 b =
     vformat_loop fuel lx' params n 1 b"
proof -
  have ne: "\<not> Lexer_eof lx" using assms(2) eof_rest[OF assms(1)] by simp
  obtain lx1 where l1: "Lexer_try_consume lx (CHR ''{'') = Inr (False, lx1)" "lexer_ok lx1" "rest lx1 = c # r"
    using try_consume_rest[OF assms(1), of "CHR ''{''"] assms(2,3) by auto
  obtain lx2 where l2: "Lexer_try_consume lx1 (CHR ''}'') = Inr (False, lx2)" "lexer_ok lx2" "rest lx2 = c # r"
    using try_consume_rest[OF l1(2), of "CHR ''}''"] l1(3) assms(4) by auto
  obtain lx3 where l3: "Lexer_consume lx2 = Inr (c, lx3)" "lexer_ok lx3" "rest lx3 = r"
    using consume_rest[OF l2(2,3)] by blast
  have "vformat_loop (Suc fuel) lx params n 1 b = vformat_loop fuel lx3 params n 1 b"
    using ne l1(1) l2(1) l3(1) by (subst vformat_loop.simps) simp
  with l3 show ?thesis by blast
qed

lemma step_close:
  assumes "lexer_ok lx" and "rest lx = CHR ''}'' # r"
  shows "\<exists>lx'. lexer_ok lx' \<and> rest lx' = r \<and> vformat_loop (Suc fuel) lx params n 1 b =
     bindE (FormatParams_param params n) (\<lambda>p. bindE (p b) (vformat_loop fuel lx' params (n + 1) 0))"
proof -
  have ne: "\<not> Lexer_eof lx" using assms(2) eof_rest[OF assms(1)] by simp
  obtain lx1 where l1: "Lexer_try_consume lx (CHR ''{'') = Inr (False, lx1)" "lexer_ok lx1" "rest lx1 = CHR ''}'' # r"
    using try_consume_rest[OF assms(1), of "CHR ''{''"] assms(2) by auto
  obtain lx2 where l2: "Lexer_try_consume lx1 (CHR ''}'') = Inr (True, lx2)" "lexer_ok lx2" "rest lx2 = r"
    using try_consume_rest[OF l1(2), of "CHR ''}''"] l1(3) by auto
  have "vformat_loop (Suc fuel) lx params n 1 b =
      bindE (FormatParams_param params n) (\<lambda>p. bindE (p b) (vformat_loop fuel lx2 params (n + 1) 0))"
    using ne l1(1) l2(1) by (subst vformat_loop.simps) (simp add: Let_def)
  with l2 show ?thesis by blast
qed

lemma skip_argument:
  "lexer_ok lx \<Longrightarrow> rest lx = s @ CHR ''}'' # r \<Longrightarrow> CHR ''{'' \<notin> set s \<Longrightarrow> CHR ''}'' \<notin> set s \<Longrightarrow>
   \<exists>lx'. lexer_ok lx' \<and> rest lx' = r \<and> vformat_loop (Suc (length s) + fuel) lx params n 1 b =
     bindE (FormatParams_param params n) (\<lambda>p. bindE (p b) (vformat_loop fuel lx' params (n + 1) 0))"
proof (induction s arbitrary: lx)
  case Nil
  then show ?case using step_close[of lx r fuel params n b] by simp
next
  case (Cons c s)
  then obtain lx1 where l1: "lexer_ok lx1" "rest lx1 = s @ CHR ''}'' # r"
    "vformat_loop (Suc (Suc (length s) + fuel)) lx params n 1 b = vformat_loop (Suc (length s) + fuel) lx1 params n 1 b"
    using step_skip[of lx c "s @ CHR ''}'' # r" "Suc (length s) + fuel" params n b] by auto
  from Cons.IH[OF l1(1,2)] Cons.prems(3,4) l1(3) show ?case by auto
qed

lemma vformat_pieces:
  "lexer_ok lx \<Longrightarrow> rest lx = concat (map print_piece ps) \<Longrightarrow> list_all piece_ok ps \<Longrightarrow>
   length (rest lx) \<le> fuel \<Longrightarrow> vformat_loop fuel lx params n 0 b = render ps params n b"
proof (induction ps arbitrary: lx fuel n b)
  case Nil
  then show ?case using eof_rest[of lx] by (subst vformat_loop.simps) simp
next
  case (Cons p ps)
  let ?rs = "concat (map print_piece ps)"
  show ?case
  proof (cases p)
    case (Lit s)
    have "lexer_ok lx \<Longrightarrow> rest lx = escape s @ ?rs \<Longrightarrow> length (rest lx) \<le> fuel \<Longrightarrow>
       vformat_loop fuel lx params n 0 b = render ps params n (b @ s)" for lx fuel b s
    proof (induction s arbitrary: lx fuel b)
      case Nil
      then show ?case using Cons.IH[of lx fuel n b] Cons.prems(3) by simp
    next
      case (Cons c s)
      then obtain f where f: "fuel = Suc f" by (cases fuel) (auto split: if_splits)
      show ?case
      proof (cases "c = CHR ''{'' \<or> c = CHR ''}''")
        case True
        then have r: "rest lx = c # c # escape s @ ?rs" using Cons.prems(2) by auto
        from step_brace[OF Cons.prems(1) r True, of f params n b] obtain lx' where
          "lexer_ok lx'" "rest lx' = escape s @ ?rs" "vformat_loop fuel lx params n 0 b =
             vformat_loop f lx' params n 0 (b @ [c])" using f by blast
        then show ?thesis using Cons.IH[of lx' f "b @ [c]"] Cons.prems(3) r f by simp
      next
        case False
        then have r: "rest lx = c # escape s @ ?rs" using Cons.prems(2) by auto
        from step_char[OF Cons.prems(1) r, of f params n b] False obtain lx' where
          "lexer_ok lx'" "rest lx' = escape s @ ?rs" "vformat_loop fuel lx params n 0 b =
             vformat_loop f lx' params n 0 (b @ [c])" using f by blast
        then show ?thesis using Cons.IH[of lx' f "b @ [c]"] Cons.prems(3) r f by simp
      qed
    qed
    from this[of lx s fuel b] Lit Cons.prems show ?thesis by simp
  next
    case (Arg s)
    then have r: "rest lx = CHR ''{'' # s @ CHR ''}'' # ?rs" using Cons.prems(2) by simp
    have s: "CHR ''{'' \<notin> set s" "CHR ''}'' \<notin> set s" using Cons.prems(3) Arg by simp_all
    then have h: "s @ CHR ''}'' # ?rs = [] \<or> hd (s @ CHR ''}'' # ?rs) \<noteq> CHR ''{''" by (cases s) auto
    obtain f where f: "fuel = Suc (Suc (length s) + f)" "length ?rs \<le> f"
      using Cons.prems(4) r by (auto dest!: le_Suc_ex)
    from step_open[OF Cons.prems(1) r h, of "Suc (length s) + f" params n b] obtain lx1 where
      l1: "lexer_ok lx1" "rest lx1 = s @ CHR ''}'' # ?rs"
      "vformat_loop fuel lx params n 0 b = vformat_loop (Suc (length s) + f) lx1 params n 1 b" using f by auto
    from skip_argument[OF l1(1,2) s, of f params n b] obtain lx2 where
      l2: "lexer_ok lx2" "rest lx2 = ?rs" "vformat_loop (Suc (length s) + f) lx1 params n 1 b =
        bindE (FormatParams_param params n) (\<lambda>p. bindE (p b) (vformat_loop f lx2 params (n + 1) 0))" by blast
    have "vformat_loop f lx2 params (n + 1) 0 = render ps params (n + 1)"
    proof
      fix b'
      show "vformat_loop f lx2 params (n + 1) 0 b' = render ps params (n + 1) b'"
        using Cons.IH[of lx2 f "n + 1" b'] l2 f Cons.prems(3) by simp
    qed
    then show ?thesis using l1(3) l2(3) Arg by simp
  qed
qed

text \<open>
  C26. A format string that is a sequence of literal pieces, with braces doubled, and placeholders
  is rendered as that sequence, piece after piece: the literals verbatim, the \<open>n\<close>th placeholder by
  the \<open>n\<close>th parameter's formatter.  The loop itself always ends; the kernel stops at the first
  placeholder that has no parameter, and what a formatter does, failing or running forever
  included, is what formatting does at that placeholder.
\<close>

theorem vformat_renders:
  assumes "list_all piece_ok ps" and "length (concat (map print_piece ps)) < 2 ^ 32"
  shows "vformat builder (literal (concat (map print_piece ps))) params = render ps params 0 builder"
  using vformat_pieces[OF _ _ assms(1)] literal_ok[OF assms(2)] lexer_new
  by (auto simp: vformat_def Span_size_def)

subsection \<open>Formatters\<close>

definition hex_digits :: string where "hex_digits = ''0123456789abcdef''"

text \<open>\<open>n\<close> rounds of \<^verbatim>\<open>buffer[index] = hex[value % 16]; value /= 16\<close>, least digit first.\<close>

fun hex_buffer :: "nat \<Rightarrow> nat \<Rightarrow> string" where
  "hex_buffer 0 v = []"
| "hex_buffer (Suc n) v = hex_digits ! (v mod 16) # hex_buffer n (v div 16)"

definition signed_wrap :: "nat \<Rightarrow> int \<Rightarrow> int" where
  "signed_wrap sizeof v = (v + 2 ^ (8 * sizeof - 1)) mod 2 ^ (8 * sizeof) - 2 ^ (8 * sizeof - 1)"

text \<open>
  \<open>value\<close> is the number an integer of \<open>sizeof\<close> bytes holds.  A negative one is negated: in
  \<^verbatim>\<open>int\<close> arithmetic, where the least \<^verbatim>\<open>int\<close> or wider number has no negation, and the result of a
  narrower type is converted back to it.
\<close>

fun Formatter_Integral :: "nat \<Rightarrow> nat \<Rightarrow> StringBuilder \<Rightarrow> int \<Rightarrow> StringBuilder outcome" where
  "Formatter_Integral fuel sizeof builder v =
     (if v < 0
      then if fuel = 0 then Inl DIVERGES
           else if 4 \<le> sizeof \<and> v = - (2 ^ (8 * sizeof - 1)) then Inl (UNDEFINED ''signed overflow'')
           else Formatter_Integral (fuel - 1) sizeof (StringBuilder_append builder (CHR ''-''))
                  (signed_wrap sizeof (- v))
      else Inr (StringBuilder_append_view (StringBuilder_append_view builder ''0x'')
                  (rev (hex_buffer (2 * sizeof) (nat v)))))"

declare Formatter_Integral.simps [simp del]

definition Formatter_StringView :: "StringBuilder \<Rightarrow> string \<Rightarrow> StringBuilder" where
  "Formatter_StringView builder str = StringBuilder_append_view builder str"

definition Formatter_bool :: "StringBuilder \<Rightarrow> bool \<Rightarrow> StringBuilder" where
  "Formatter_bool builder b =
     (if b then StringBuilder_append_view builder ''true'' else StringBuilder_append_view builder ''false'')"

definition Formatter_char :: "StringBuilder \<Rightarrow> char \<Rightarrow> StringBuilder" where
  "Formatter_char builder c = StringBuilder_append builder c"

definition Formatter_Path :: "StringBuilder \<Rightarrow> Path \<Rightarrow> StringBuilder" where
  "Formatter_Path builder p = StringBuilder_append_view builder (Path_string p)"

definition Formatter_Pointer :: "StringBuilder \<Rightarrow> uptr \<Rightarrow> StringBuilder outcome" where
  "Formatter_Pointer builder p = Formatter_Integral 1 4 builder (int (unat p))"

definition Formatter_StringBuilder :: "StringBuilder \<Rightarrow> StringBuilder \<Rightarrow> StringBuilder" where
  "Formatter_StringBuilder builder b = StringBuilder_append_view builder b"

definition Formatter_Span :: "StringBuilder \<Rightarrow> uptr \<Rightarrow> usize \<Rightarrow> StringBuilder outcome" where
  "Formatter_Span builder data sz =
     vformat builder (literal ''({}, {})'')
       [\<lambda>b. Formatter_Pointer b data, \<lambda>b. Formatter_Integral 1 4 b (int (unat sz))]"

definition Formatter_Optional :: "('a \<Rightarrow> format_param) \<Rightarrow> StringBuilder \<Rightarrow> 'a option \<Rightarrow> StringBuilder outcome" where
  "Formatter_Optional format builder x =
     (case x of
        Some v \<Rightarrow> vformat builder (literal ''{}'') [format v]
      | None \<Rightarrow> Inr (StringBuilder_append_view builder ''nil''))"

text \<open>
  The witness formats a number with its own formatter; the least one-byte number makes the same
  call run forever.
\<close>

theorem vformat_renders_witness:
  "vformat [] (literal ''{{x}} = {}'') [\<lambda>b. Formatter_Integral 1 1 b 7] = Inr ''{x} = 0x07'' \<and>
   vformat [] (literal ''{{x}} = {}'') [\<lambda>b. Formatter_Integral 1 1 b (- 128)] = Inl DIVERGES"
proof -
  have "Formatter_Integral 1 1 b 7 = Inr (b @ ''0x07'')" for b
    by (subst Formatter_Integral.simps) (simp add: hex_digits_def numeral_2_eq_2)
  moreover have "Formatter_Integral 1 1 b (- 128) = Inl DIVERGES" for b
    by (simp add: Formatter_Integral.simps signed_wrap_def)
  ultimately show ?thesis
    using vformat_renders[of "[Lit ''{x} = '', Arg []]" "[]" "[\<lambda>b. Formatter_Integral 1 1 b 7]"]
      vformat_renders[of "[Lit ''{x} = '', Arg []]" "[]" "[\<lambda>b. Formatter_Integral 1 1 b (- 128)]"]
    by (simp add: FormatParams_param_def)
qed

text \<open>Reading a number back.\<close>

definition hex_value :: "char \<Rightarrow> nat" where
  "hex_value c = (if of_char c \<ge> (97 :: nat) then of_char c - 87 else of_char c - 48)"

definition read_hex :: "string \<Rightarrow> nat" where
  "read_hex = foldl (\<lambda>n c. 16 * n + hex_value c) 0"

fun read_number :: "string \<Rightarrow> int" where
  "read_number (c # cs) = (if c = CHR ''-'' then - read_number cs else int (read_hex (drop 1 cs)))"
| "read_number [] = 0"

lemma hex_value_digit: "k < 16 \<Longrightarrow> hex_value (hex_digits ! k) = k"
proof -
  have "list_all (\<lambda>k. hex_value (hex_digits ! k) = k) [0..<16]" by code_simp
  then show "k < 16 \<Longrightarrow> hex_value (hex_digits ! k) = k" by (simp add: list_all_iff)
qed

lemma read_hex_buffer: "read_hex (rev (hex_buffer n v)) = v mod 16 ^ n"
proof (induction n arbitrary: v)
  case (Suc n)
  have "read_hex (rev (hex_buffer (Suc n) v)) = 16 * (v div 16 mod 16 ^ n) + v mod 16"
    using Suc[of "v div 16"] by (simp add: read_hex_def hex_value_digit)
  also have "\<dots> = v mod 16 ^ Suc n" by (simp add: mod_mult2_eq)
  finally show ?case .
qed (simp add: read_hex_def)

lemma length_hex_buffer: "length (hex_buffer n v) = n"
  by (induction n arbitrary: v) simp_all

text \<open>
  C27. Formatting a number and reading the text back gives the number, in a field of two digits a
  byte, for every value of every integer type but the least negative one: there the negation of
  a one- or two-byte number is the number again and the formatter never ends, and for wider types
  the negation is undefined.
\<close>

theorem Formatter_Integral_roundtrip:
  assumes "0 < sizeof" and "- (2 ^ (8 * sizeof - 1)) \<le> v" and "v < 2 ^ (8 * sizeof)"
  shows "if v = - (2 ^ (8 * sizeof - 1))
    then \<forall>fuel. Formatter_Integral (Suc fuel) sizeof builder v =
           Inl (if sizeof < 4 then DIVERGES else UNDEFINED ''signed overflow'')
    else \<exists>text. Formatter_Integral 1 sizeof builder v = Inr (builder @ text) \<and> read_number text = v \<and>
           length text = 2 * sizeof + (if v < 0 then 3 else 2)"
proof -
  let ?m = "2 ^ (8 * sizeof - 1) :: int"
  have mm: "2 * ?m = 2 ^ (8 * sizeof)" using assms(1) by (simp flip: power_Suc)
  have fmt: "Formatter_Integral fuel sizeof b w =
      Inr (b @ ''0x'' @ rev (hex_buffer (2 * sizeof) (nat w)))" if "0 \<le> w" for fuel b w
    using that by (subst Formatter_Integral.simps) simp
  have rd: "int (read_hex (rev (hex_buffer (2 * sizeof) (nat w)))) = w" if "0 \<le> w" "w < 2 ^ (8 * sizeof)" for w
  proof -
    have "(16 :: nat) ^ (2 * sizeof) = 2 ^ (8 * sizeof)" by (simp add: power_mult)
    moreover have "nat w < 2 ^ (8 * sizeof)" using that by (simp add: nat_less_iff)
    ultimately show ?thesis using that by (simp add: read_hex_buffer)
  qed
  consider (least) "v = - ?m" | (neg) "- ?m < v" "v < 0" | (pos) "0 \<le> v" using assms(2) by linarith
  then show ?thesis
  proof cases
    case least
    have wrap: "signed_wrap sizeof ?m = - ?m" using mm by (simp add: signed_wrap_def)
    have "Formatter_Integral (Suc fuel) sizeof b v =
        Inl (if sizeof < 4 then DIVERGES else UNDEFINED ''signed overflow'')" for fuel b
      using least wrap
      by (induction fuel arbitrary: b; subst Formatter_Integral.simps)
        (auto simp: Formatter_Integral.simps[of 0])
    then show ?thesis using least by simp
  next
    case neg
    have "signed_wrap sizeof (- v) = - v"
      unfolding signed_wrap_def using neg mm by (subst mod_pos_pos_trivial) auto
    then have "Formatter_Integral 1 sizeof builder v =
        Inr (builder @ ''-0x'' @ rev (hex_buffer (2 * sizeof) (nat (- v))))"
      using neg fmt[of "- v" 0] by (subst Formatter_Integral.simps) (auto simp: StringBuilder_append_def)
    moreover have "- v < 2 ^ (8 * sizeof)" using neg mm by linarith
    ultimately show ?thesis using neg rd[of "- v"] by (auto simp: length_hex_buffer)
  next
    case pos
    then have "v \<noteq> - ?m" by (metis neg_0_le_iff_le zero_less_power zero_less_numeral not_less)
    then show ?thesis using pos fmt[OF pos] rd[OF pos assms(3)] by (auto simp: length_hex_buffer)
  qed
qed

theorem Formatter_Integral_roundtrip_witness:
  "\<exists>text. Formatter_Integral 1 2 ''n='' (- 255) = Inr (''n='' @ text) \<and> read_number text = - 255"
  using Formatter_Integral_roundtrip[of 2 "- 255" "''n=''"] by auto

end
