(* ===== verification/Console.thy ===== *)
theory Console
  imports Strings Values
begin

section \<open>Kernel/Interrupt/UART.cpp and Kernel/ConsoleDevice.cpp\<close>

text \<open>
  The serial console.  Received bytes are put by the DMA engine into a ring of 1 KiB, which the
  driver reads with an offset of its own; sent bytes go out one at a time while the hardware has
  room.  The hardware appears as the address at which the DMA engine writes next, the answers that
  \<^verbatim>\<open>uart_is_writable\<close> will give, the bytes sent so far, and the bytes that will come in;
  \<open>UART_receive\<close> is what the engine does with a byte on a ring of \<open>2 ^ 10\<close> bytes.  Interrupts are
  masked during a driver call, but the engine goes on: before each access of the driver to the
  write address another group of bytes may have arrived, the first one of \<open>ua_incoming\<close>.
\<close>

type_synonym 'a KernelResult = "('a, int) Result"

record UART =
  ua_m_input_buffer :: "u8 list"
  ua_m_input_buffer_data :: uptr
  ua_m_input_buffer_consume_offset_raw :: usize
  ua_write_addr :: uptr
  ua_incoming :: "u8 list list"
  ua_writable :: "bool list"
  ua_sent :: "u8 list"

definition UART_buffer_size :: usize where "UART_buffer_size = 1024"

subsection \<open>The driver\<close>

definition UART_new :: "uptr \<Rightarrow> u8 list \<Rightarrow> UART" where
  "UART_new data memory =
     \<lparr>ua_m_input_buffer = memory, ua_m_input_buffer_data = data,
      ua_m_input_buffer_consume_offset_raw = 0, ua_write_addr = data, ua_incoming = [],
      ua_writable = [], ua_sent = []\<rparr>"

text \<open>What the DMA engine does with one received byte.\<close>

definition UART_receive :: "UART \<Rightarrow> u8 \<Rightarrow> UART" where
  "UART_receive u b =
     (let offset = ua_write_addr u - ua_m_input_buffer_data u
      in u\<lparr>ua_m_input_buffer := (ua_m_input_buffer u)[unat offset := b],
           ua_write_addr := ua_m_input_buffer_data u + (offset + 1) mod UART_buffer_size\<rparr>)"

definition UART_receive_all :: "UART \<Rightarrow> u8 list \<Rightarrow> UART" where
  "UART_receive_all u bs = foldl UART_receive u bs"

text \<open>An access to the register with the write address.\<close>

definition UART_write_addr :: "UART \<Rightarrow> uptr \<times> UART" where
  "UART_write_addr u =
     (case ua_incoming u of
        [] \<Rightarrow> (ua_write_addr u, u)
      | bs # later \<Rightarrow> let u = UART_receive_all (u\<lparr>ua_incoming := later\<rparr>) bs in (ua_write_addr u, u))"

definition UART_input_buffer_consume_offset :: "UART \<Rightarrow> usize" where
  "UART_input_buffer_consume_offset u = ua_m_input_buffer_consume_offset_raw u mod UART_buffer_size"

definition UART_input_buffer_avaliable_offset :: "UART \<Rightarrow> (usize \<times> UART) outcome" where
  "UART_input_buffer_avaliable_offset u =
     (let (write_addr, u) = UART_write_addr u
      in checkE (write_addr \<ge> ua_m_input_buffer_data u) (VERIFY ''write_addr >= m_input_buffer->data()'')
           (let (write_addr, u) = UART_write_addr u in Inr (write_addr - ua_m_input_buffer_data u, u)))"

definition UART_input_buffer_size :: "UART \<Rightarrow> (usize \<times> UART) outcome" where
  "UART_input_buffer_size u =
     bindE (UART_input_buffer_avaliable_offset u) (\<lambda>(avaliable, u).
     checkE (avaliable \<ge> UART_input_buffer_consume_offset u)
       (FIXME_ASSERT ''input_buffer_avaliable_offset() >= input_buffer_consume_offset()'')
       (bindE (UART_input_buffer_avaliable_offset u) (\<lambda>(avaliable, u).
        Inr (avaliable - UART_input_buffer_consume_offset u, u))))"

fun UART_read_loop :: "nat \<Rightarrow> UART \<Rightarrow> u8 Span \<Rightarrow> usize \<Rightarrow> (usize \<times> UART \<times> u8 Span) outcome" where
  "UART_read_loop fuel u bytes index =
     bindE (UART_input_buffer_size u) (\<lambda>(sz, u).
     if index < Std_min sz (Span_size bytes)
     then if fuel = 0 then Inl DIVERGES
          else bindE (Span_at (Span_of (ua_m_input_buffer u) UART_buffer_size)
                        (UART_input_buffer_consume_offset u)) (\<lambda>b.
               bindE (Span_put bytes index b) (\<lambda>bytes.
               UART_read_loop (fuel - 1)
                 (u\<lparr>ua_m_input_buffer_consume_offset_raw := ua_m_input_buffer_consume_offset_raw u + 1\<rparr>)
                 bytes (index + 1)))
     else Inr (index, u, bytes))"

declare UART_read_loop.simps [simp del]

definition UART_read :: "UART \<Rightarrow> u8 Span \<Rightarrow> (usize KernelResult \<times> UART \<times> u8 Span) outcome" where
  "UART_read u bytes =
     bindE (UART_read_loop (unat (Span_size bytes)) u bytes 0) (\<lambda>(index, u, bytes).
       Inr (Result_from_value index, u, bytes))"

definition uart_is_writable :: "UART \<Rightarrow> bool \<times> UART" where
  "uart_is_writable u =
     (case ua_writable u of [] \<Rightarrow> (False, u) | w # ws \<Rightarrow> (w, u\<lparr>ua_writable := ws\<rparr>))"

fun UART_write_loop :: "nat \<Rightarrow> UART \<Rightarrow> u8 Span \<Rightarrow> usize \<Rightarrow> (usize \<times> UART) outcome" where
  "UART_write_loop fuel u bytes index =
     (if index < Span_size bytes
      then if fuel = 0 then Inl DIVERGES
           else let (writable, u) = uart_is_writable u
                in if writable
                   then bindE (Span_at bytes index) (\<lambda>b.
                          UART_write_loop (fuel - 1) (u\<lparr>ua_sent := ua_sent u @ [b]\<rparr>) bytes (index + 1))
                   else Inr (index, u)
      else Inr (Span_size bytes, u))"

declare UART_write_loop.simps [simp del]

definition UART_write :: "UART \<Rightarrow> u8 Span \<Rightarrow> (usize KernelResult \<times> UART) outcome" where
  "UART_write u bytes =
     bindE (UART_write_loop (unat (Span_size bytes)) u bytes 0) (\<lambda>(n, u). Inr (Result_from_value n, u))"

subsection \<open>The console file\<close>

text \<open>
  Reading polls the driver.  Each poll takes at least one group of the incoming bytes, if there
  are any left, so one poll more than there are groups decides whether the call ever returns.
\<close>

fun ConsoleFileHandle_read_loop :: "nat \<Rightarrow> UART \<Rightarrow> u8 Span \<Rightarrow> (usize KernelResult \<times> UART \<times> u8 Span) outcome" where
  "ConsoleFileHandle_read_loop fuel u bytes =
     (if fuel = 0 then Inl DIVERGES
      else bindE (UART_read u bytes) (\<lambda>(r, u, bytes).
           bindE (Result_must r) (\<lambda>nread.
           if nread > 0 then Inr (Result_from_value nread, u, bytes)
           else ConsoleFileHandle_read_loop (fuel - 1) u bytes)))"

declare ConsoleFileHandle_read_loop.simps [simp del]

definition ConsoleFileHandle_read :: "UART \<Rightarrow> u8 Span \<Rightarrow> (usize KernelResult \<times> UART \<times> u8 Span) outcome" where
  "ConsoleFileHandle_read u bytes = ConsoleFileHandle_read_loop (Suc (length (ua_incoming u))) u bytes"

fun ConsoleFileHandle_write_loop :: "nat \<Rightarrow> UART \<Rightarrow> u8 Span \<Rightarrow> usize \<Rightarrow> (usize KernelResult \<times> UART) outcome" where
  "ConsoleFileHandle_write_loop fuel u bytes nwritten =
     (if Span_size bytes > nwritten
      then if fuel = 0 then Inl DIVERGES
           else bindE (Span_slice bytes nwritten) (\<lambda>rest.
                bindE (UART_write u rest) (\<lambda>(r, u).
                bindE (Result_must r) (\<lambda>n.
                ConsoleFileHandle_write_loop (fuel - 1) u bytes (nwritten + n))))
      else Inr (Result_from_value nwritten, u))"

declare ConsoleFileHandle_write_loop.simps [simp del]

definition ConsoleFileHandle_write :: "nat \<Rightarrow> UART \<Rightarrow> u8 Span \<Rightarrow> (usize KernelResult \<times> UART) outcome" where
  "ConsoleFileHandle_write fuel u bytes = ConsoleFileHandle_write_loop fuel u bytes 0"

text \<open>Debug output; nothing is printed in handler mode.\<close>

definition bytes_of :: "string \<Rightarrow> u8 Span" where
  "bytes_of str = Span_of (map of_char str) (of_nat (length str))"

definition dbgln_raw :: "nat \<Rightarrow> bool \<Rightarrow> UART \<Rightarrow> string \<Rightarrow> UART outcome" where
  "dbgln_raw fuel is_executing_in_handler_mode u str =
     (if is_executing_in_handler_mode then Inr u
      else let prefix = CHR 0x1B # ''[36m''; suffix = CHR 0x1B # ''[0m'' @ [CHR 0x0A]
           in bindE (ConsoleFileHandle_write fuel u (bytes_of prefix)) (\<lambda>(_, u).
              bindE (ConsoleFileHandle_write fuel u (bytes_of str)) (\<lambda>(_, u).
              bindE (ConsoleFileHandle_write fuel u (bytes_of suffix)) (\<lambda>(_, u). Inr u))))"

subsection \<open>Sending\<close>

text \<open>The first \<open>ready\<close> answers of the hardware are positive.\<close>

definition sends :: "UART \<Rightarrow> nat" where
  "sends u = length (takeWhile id (ua_writable u))"

lemma UART_write_loop_sends:
  assumes "span_ok bytes"
  shows "unat index \<le> length (view bytes) \<Longrightarrow> length (view bytes) - unat index \<le> fuel \<Longrightarrow>
    \<exists>u'. UART_write_loop fuel u bytes index =
        Inr (index + of_nat (min (sends u) (length (view bytes) - unat index)), u') \<and>
      ua_sent u' = ua_sent u @ take (sends u) (drop (unat index) (view bytes)) \<and>
      ua_writable u' = drop (if sends u < length (view bytes) - unat index then Suc (sends u)
         else length (view bytes) - unat index) (ua_writable u)"
proof (induction fuel arbitrary: u index)
  case 0
  then have "unat index = unat (sp_m_size bytes)" by (simp add: length_view[OF assms])
  then show ?case using 0 length_view[OF assms]
    by (subst UART_write_loop.simps) (simp add: Span_size_def word_less_nat_alt word_unat_eq_iff)
next
  case (Suc fuel)
  note len = length_view[OF assms]
  show ?case
  proof (cases "index < Span_size bytes")
    case False
    then have "unat index = unat (sp_m_size bytes)" using Suc.prems len
      by (simp add: Span_size_def word_less_nat_alt)
    then show ?thesis using False len
      by (subst UART_write_loop.simps) (simp add: Span_size_def word_unat_eq_iff)
  next
    case True
    then have i: "unat index < length (view bytes)" using len by (simp add: Span_size_def word_less_nat_alt)
    then have i1: "unat (index + 1) = Suc (unat index)"
      using unat_inc[of index "length (view bytes)"] len unat_bound32[of "sp_m_size bytes"] by simp
    note at = Span_at_view[OF assms i]
    have dr: "drop (unat index) (view bytes) = view bytes ! unat index # drop (Suc (unat index)) (view bytes)"
      using i by (simp add: Cons_nth_drop_Suc)
    show ?thesis
    proof (cases "sends u")
      case 0
      then have "ua_writable u = [] \<or> (\<exists>ws. ua_writable u = False # ws)"
        by (cases "ua_writable u") (auto simp: sends_def split: if_splits)
      then show ?thesis using True 0 i
        by (subst UART_write_loop.simps) (auto simp: uart_is_writable_def)
    next
      case (Suc k)
      then obtain ws where ws: "ua_writable u = True # ws" by (cases "ua_writable u") (auto simp: sends_def split: if_splits)
      define u1 where "u1 = u\<lparr>ua_writable := ws, ua_sent := ua_sent u @ [view bytes ! unat index]\<rparr>"
      have k: "sends u1 = k" using Suc ws by (simp add: sends_def u1_def)
      have "unat (index + 1) \<le> length (view bytes)" "length (view bytes) - unat (index + 1) \<le> fuel"
        using Suc.prems i i1 by simp_all
      from Suc.IH[OF this, of u1, unfolded i1 k] obtain u' where u':
        "UART_write_loop fuel u1 bytes (index + 1) =
           Inr (index + 1 + of_nat (min k (length (view bytes) - Suc (unat index))), u')"
        "ua_sent u' = ua_sent u1 @ take k (drop (Suc (unat index)) (view bytes))"
        "ua_writable u' = drop (if k < length (view bytes) - Suc (unat index) then Suc k
           else length (view bytes) - Suc (unat index)) ws"
        by (auto simp: u1_def)
      obtain d where d: "length (view bytes) - unat index = Suc d" "length (view bytes) - Suc (unat index) = d"
        using i by (cases "length (view bytes) - unat index") auto
      have "UART_write_loop (Suc fuel) u bytes index = UART_write_loop fuel u1 bytes (index + 1)"
        using True ws at by (subst UART_write_loop.simps) (simp add: uart_is_writable_def u1_def)
      then show ?thesis using u' Suc ws d dr by (simp add: u1_def)
    qed
  qed
qed


lemma UART_write_sends:
  assumes "span_ok bytes"
  shows "\<exists>u'. UART_write u bytes = Inr (Result_from_value (of_nat (min (sends u) (length (view bytes)))), u') \<and>
      ua_sent u' = ua_sent u @ take (sends u) (view bytes) \<and>
      ua_writable u' = drop (if sends u < length (view bytes) then Suc (sends u) else length (view bytes)) (ua_writable u)"
  using UART_write_loop_sends[OF assms, of 0 "unat (Span_size bytes)" u] length_view[OF assms]
  by (auto simp: UART_write_def Span_size_def)

definition positive :: "bool list \<Rightarrow> nat" where
  "positive ws = length (filter id ws)"

lemma positive_drop_sends:
  "positive (ua_writable u) = sends u + positive (drop (Suc (sends u)) (ua_writable u))"
  "sends u \<le> length (ua_writable u)"
proof -
  let ?ws = "ua_writable u"
  have *: "positive ws = length (takeWhile id ws) + positive (drop (Suc (length (takeWhile id ws))) ws)" for ws
    by (induction ws) (auto simp: positive_def)
  from *[of ?ws] show "positive ?ws = sends u + positive (drop (Suc (sends u)) ?ws)" by (simp add: sends_def)
  show "sends u \<le> length ?ws" by (simp add: sends_def length_takeWhile_le)
qed

lemma add_min_le: "a \<le> b \<Longrightarrow> a + min s (b - a) \<le> (b :: nat)"
  by (cases "s \<le> b - a") simp_all

lemma console_write_step:
  assumes ok: "span_ok bytes" and n: "unat nwritten < length (view bytes)"
  shows "\<exists>u' k. k = min (sends u) (length (view bytes) - unat nwritten) \<and>
    ConsoleFileHandle_write_loop (Suc fuel) u bytes nwritten =
      ConsoleFileHandle_write_loop fuel u' bytes (nwritten + of_nat k) \<and>
    unat (nwritten + of_nat k) = unat nwritten + k \<and>
    ua_sent u' = ua_sent u @ take k (drop (unat nwritten) (view bytes)) \<and>
    ua_writable u' = drop (if sends u < length (view bytes) - unat nwritten then Suc (sends u)
       else length (view bytes) - unat nwritten) (ua_writable u)"
proof -
  define k where "k = min (sends u) (length (view bytes) - unat nwritten)"
  note len = length_view[OF ok]
  have lt: "Span_size bytes > nwritten" using n len by (simp add: Span_size_def word_less_nat_alt)
  obtain t where t: "Span_slice bytes nwritten = Inr t" "span_ok t" "view t = drop (unat nwritten) (view bytes)"
    using Span_slice_view[OF ok, of nwritten] n by auto
  obtain u' where u': "UART_write u t = Inr (Result_from_value (of_nat k), u')"
    "ua_sent u' = ua_sent u @ take (sends u) (drop (unat nwritten) (view bytes))"
    "ua_writable u' = drop (if sends u < length (view bytes) - unat nwritten then Suc (sends u)
       else length (view bytes) - unat nwritten) (ua_writable u)"
    using UART_write_sends[OF t(2), of u] unfolding t(3) length_drop k_def by blast
  have "unat nwritten + k \<le> unat (sp_m_size bytes)"
    unfolding k_def len[symmetric] by (rule add_min_le) (use n in simp)
  also have "\<dots> < 4294967296" by simp
  finally have small: "unat nwritten + k < 2 ^ 32" by simp
  have kk: "unat (of_nat k :: usize) = k" using small by (intro word_of_nat_unat_eq[OF refl]) simp
  have "unat (nwritten + of_nat k) = unat nwritten + unat (of_nat k :: usize)"
    by (rule unat_add_small) (use small kk in simp)
  then have add: "unat (nwritten + of_nat k) = unat nwritten + k" unfolding kk .
  have "take (sends u) (drop (unat nwritten) (view bytes)) = take k (drop (unat nwritten) (view bytes))"
    unfolding k_def by (simp add: min_def)
  with u'(2) have sent: "ua_sent u' = ua_sent u @ take k (drop (unat nwritten) (view bytes))" by simp
  have "ConsoleFileHandle_write_loop (Suc fuel) u bytes nwritten =
      ConsoleFileHandle_write_loop fuel u' bytes (nwritten + of_nat k)"
    using lt t(1) u'(1) by (subst ConsoleFileHandle_write_loop.simps) simp
  with k_def add sent u'(3) show ?thesis by blast
qed

lemma console_write_done:
  "span_ok bytes \<Longrightarrow> unat nwritten = length (view bytes) \<Longrightarrow>
   ConsoleFileHandle_write_loop fuel u bytes nwritten = Inr (Result_from_value nwritten, u)"
  by (subst ConsoleFileHandle_write_loop.simps)
    (simp add: length_view Span_size_def word_less_nat_alt)

lemma console_write_ends:
  assumes ok: "span_ok bytes"
  shows "unat nwritten \<le> length (view bytes) \<Longrightarrow> length (view bytes) - unat nwritten \<le> positive (ua_writable u) \<Longrightarrow>
    length (ua_writable u) < fuel \<Longrightarrow>
    \<exists>u'. ConsoleFileHandle_write_loop fuel u bytes nwritten = Inr (Result_from_value (sp_m_size bytes), u') \<and>
      ua_sent u' = ua_sent u @ drop (unat nwritten) (view bytes)"
proof (induction fuel arbitrary: u nwritten)
  case (Suc fuel)
  note len = length_view[OF ok]
  show ?case
  proof (cases "unat nwritten = length (view bytes)")
    case True
    then have "nwritten = sp_m_size bytes" using len by (simp add: word_unat_eq_iff)
    then show ?thesis using True console_write_done[OF ok True, of "Suc fuel" u] by simp
  next
    case False
    let ?r = "length (view bytes) - unat nwritten"
    obtain u1 k where 1: "k = min (sends u) ?r" "ConsoleFileHandle_write_loop (Suc fuel) u bytes nwritten =
        ConsoleFileHandle_write_loop fuel u1 bytes (nwritten + of_nat k)"
      "unat (nwritten + of_nat k) = unat nwritten + k"
      "ua_sent u1 = ua_sent u @ take k (drop (unat nwritten) (view bytes))"
      "ua_writable u1 = drop (if sends u < ?r then Suc (sends u) else ?r) (ua_writable u)"
      using console_write_step[OF ok, of nwritten u fuel] False Suc.prems(1) by auto
    have ne: "0 < length (ua_writable u)" using Suc.prems(2) False Suc.prems(1) by (auto simp: positive_def)
    define m where "m = (if sends u < ?r then Suc (sends u) else ?r)"
    have "0 < m" using False Suc.prems(1) by (simp add: m_def)
    then have f: "length (ua_writable u1) < fuel"
      using ne Suc.prems(3) unfolding 1(5) m_def[symmetric] length_drop by linarith
    have r: "length (view bytes) - unat (nwritten + of_nat k) \<le> positive (ua_writable u1)"
    proof (cases "sends u < ?r")
      case True
      then show ?thesis using 1 Suc.prems(2) positive_drop_sends(1)[of u] by simp
    qed (use 1 in simp)
    have "unat (nwritten + of_nat k) \<le> length (view bytes)" using 1(1,3) Suc.prems(1) by simp
    from Suc.IH[OF this r f] obtain u2 where
      "ConsoleFileHandle_write_loop fuel u1 bytes (nwritten + of_nat k) = Inr (Result_from_value (sp_m_size bytes), u2)"
      "ua_sent u2 = ua_sent u1 @ drop (unat nwritten + k) (view bytes)" unfolding 1(3) by blast
    then show ?thesis using 1(2,4) by (simp add: add.commute flip: drop_drop)
  qed
qed simp

lemma console_write_blocks:
  assumes ok: "span_ok bytes"
  shows "unat nwritten \<le> length (view bytes) \<Longrightarrow> positive (ua_writable u) < length (view bytes) - unat nwritten \<Longrightarrow>
    ConsoleFileHandle_write_loop fuel u bytes nwritten = Inl DIVERGES"
proof (induction fuel arbitrary: u nwritten)
  case 0
  then have "Span_size bytes > nwritten" by (simp add: Span_size_def word_less_nat_alt length_view[OF ok])
  then show ?case by (subst ConsoleFileHandle_write_loop.simps) simp
next
  case (Suc fuel)
  let ?r = "length (view bytes) - unat nwritten"
  have lt: "unat nwritten < length (view bytes)" using Suc.prems by simp
  have s: "sends u < ?r" using Suc.prems(2) positive_drop_sends(1)[of u] by simp
  obtain u1 k where 1: "k = min (sends u) ?r" "ConsoleFileHandle_write_loop (Suc fuel) u bytes nwritten =
      ConsoleFileHandle_write_loop fuel u1 bytes (nwritten + of_nat k)"
    "unat (nwritten + of_nat k) = unat nwritten + k"
    "ua_writable u1 = drop (if sends u < ?r then Suc (sends u) else ?r) (ua_writable u)"
    using console_write_step[OF ok lt, of u fuel] by auto
  have "positive (ua_writable u1) < length (view bytes) - unat (nwritten + of_nat k)"
    using 1 s Suc.prems(2) positive_drop_sends(1)[of u] by simp
  then show ?case using Suc.IH[of "nwritten + of_nat k" u1] 1 s by simp
qed

text \<open>
  C28. Writing to the console busy-waits until everything is sent: once the hardware has had room
  as often as there are bytes, the call returns the number of bytes and they went out in order, each
  once; while it has not, the call does not return, however long it polls.
\<close>

theorem ConsoleFileHandle_write_liveness:
  assumes "span_ok bytes" and "length (ua_writable u) < fuel"
  shows "if length (view bytes) \<le> positive (ua_writable u)
    then \<exists>u'. ConsoleFileHandle_write fuel u bytes = Inr (Result_from_value (sp_m_size bytes), u') \<and>
           ua_sent u' = ua_sent u @ view bytes
    else \<forall>fuel. ConsoleFileHandle_write fuel u bytes = Inl DIVERGES"
  using console_write_ends[OF assms(1), of 0 u fuel] console_write_blocks[OF assms(1), of 0 u] assms(2)
  by (auto simp: ConsoleFileHandle_write_def)

theorem ConsoleFileHandle_write_liveness_witness:
  "\<exists>u'. ConsoleFileHandle_write 5 ((UART_new 0 [])\<lparr>ua_writable := [False, True, False, True]\<rparr>) (bytes_of ''ok'') =
     Inr (Result_from_value 2, u') \<and> ua_sent u' = [0x6f, 0x6b]"
  using ConsoleFileHandle_write_liveness[of "bytes_of ''ok''"
      "(UART_new 0 [])\<lparr>ua_writable := [False, True, False, True]\<rparr>" 5]
  by (simp add: bytes_of_def Span_of_def span_ok_def view_def positive_def UART_new_def)

subsection \<open>Receiving\<close>

text \<open>
  The driver and the engine over a whole run: \<open>received\<close> lists every byte that came in, and the
  consume offset counts those that were read.  While fewer than 1024 bytes have come in, the ring
  never wraps.
\<close>

definition uart_ok :: "UART \<Rightarrow> u8 list \<Rightarrow> nat \<Rightarrow> bool" where
  "uart_ok u received consumed \<longleftrightarrow> length received < 1024 \<and> consumed \<le> length received \<and>
     unat (ua_m_input_buffer_data u) + 1024 < 2 ^ 32 \<and>
     ua_write_addr u = ua_m_input_buffer_data u + of_nat (length received) \<and>
     ua_m_input_buffer_consume_offset_raw u = of_nat consumed \<and>
     length (ua_m_input_buffer u) = 1024 \<and> take (length received) (ua_m_input_buffer u) = received"

lemma UART_receive_ok:
  assumes "uart_ok u received consumed" and "Suc (length received) < 1024"
  shows "uart_ok (UART_receive u b) (received @ [b]) consumed"
proof -
  note A = assms(1)[unfolded uart_ok_def]
  let ?r = "length received"
  have r: "unat (of_nat ?r :: u32) = ?r" "unat (of_nat (Suc ?r) :: u32) = Suc ?r"
    using assms(2) by (auto intro!: word_of_nat_unat_eq simp del: of_nat_Suc)
  have "unat (of_nat (Suc ?r) mod UART_buffer_size :: u32) = Suc ?r"
    using r(2) assms(2) by (simp add: unat_mod UART_buffer_size_def del: of_nat_Suc)
  then have m: "of_nat (Suc ?r) mod UART_buffer_size = (of_nat (Suc ?r) :: u32)"
    using r(2) by (simp add: word_unat_eq_iff del: of_nat_Suc)
  have o': "ua_write_addr u - ua_m_input_buffer_data u = of_nat ?r" using A by simp
  have "(of_nat ?r + 1 :: u32) = of_nat (Suc ?r)" by simp
  then show ?thesis
    using A assms(2) m unfolding UART_receive_def Let_def o' r(1)
    by (simp add: uart_ok_def take_Suc_conv_app_nth add.commute del: of_nat_Suc)
qed

lemma UART_receive_incoming [simp]: "ua_incoming (UART_receive u b) = ua_incoming u"
  by (simp add: UART_receive_def Let_def)

lemma UART_receive_all_incoming [simp]: "ua_incoming (UART_receive_all u bs) = ua_incoming u"
  unfolding UART_receive_all_def by (induction bs arbitrary: u) simp_all

lemma UART_receive_all_ok:
  "uart_ok u received consumed \<Longrightarrow> length (received @ bs) < 1024 \<Longrightarrow>
   uart_ok (UART_receive_all u bs) (received @ bs) consumed"
  unfolding UART_receive_all_def
proof (induction bs arbitrary: u received)
  case (Cons b bs)
  then show ?case using UART_receive_ok[of u received consumed b] Cons.IH[of "UART_receive u b" "received @ [b]"] by simp
qed simp

lemma uart_ok_incoming [simp]: "uart_ok (u\<lparr>ua_incoming := x\<rparr>) = uart_ok u"
  by (simp add: uart_ok_def fun_eq_iff)

text \<open>
  With what is still to come: \<open>received\<close> bytes are in, \<open>whole\<close> lists them and all that come
  before the accesses ahead.
\<close>

definition uart_at :: "u8 list \<Rightarrow> UART \<Rightarrow> nat \<Rightarrow> nat \<Rightarrow> bool" where
  "uart_at whole u n consumed \<longleftrightarrow> length whole < 1024 \<and>
     (\<exists>received. uart_ok u received consumed \<and> whole = received @ concat (ua_incoming u) \<and> n = length received)"

lemma uart_atD:
  assumes "uart_at whole u n consumed"
  shows "consumed \<le> n" and "n \<le> length whole" and "length whole < 1024" and "uart_ok u (take n whole) consumed"
    and "whole = take n whole @ concat (ua_incoming u)"
  using assms by (auto simp: uart_at_def uart_ok_def)

lemma uart_at_access:
  assumes "uart_at whole u n consumed"
  shows "\<exists>u' n'. UART_write_addr u = (ua_m_input_buffer_data u' + of_nat n', u') \<and>
     uart_at whole u' n' consumed \<and> n \<le> n'"
proof -
  obtain received where r: "uart_ok u received consumed" "whole = received @ concat (ua_incoming u)"
    "n = length received" "length whole < 1024" using assms by (auto simp: uart_at_def)
  show ?thesis
  proof (cases "ua_incoming u")
    case Nil
    then show ?thesis using r assms by (intro exI[of _ u] exI[of _ n]) (simp add: UART_write_addr_def uart_ok_def)
  next
    case (Cons bs later)
    let ?u = "UART_receive_all (u\<lparr>ua_incoming := later\<rparr>) bs"
    have ok: "uart_ok ?u (received @ bs) consumed"
      using UART_receive_all_ok[of "u\<lparr>ua_incoming := later\<rparr>"] r Cons by simp
    then have "uart_at whole ?u (length (received @ bs)) consumed" using r Cons by (auto simp: uart_at_def)
    moreover have "ua_write_addr ?u = ua_m_input_buffer_data ?u + of_nat (length (received @ bs))"
      using ok unfolding uart_ok_def by blast
    ultimately show ?thesis using Cons r(3)
      by (intro exI[of _ ?u] exI[of _ "length (received @ bs)"]) (simp add: UART_write_addr_def Let_def)
  qed
qed

lemma uart_at_data:
  assumes "uart_at whole u n consumed"
  shows "unat (ua_m_input_buffer_data u + of_nat n) = unat (ua_m_input_buffer_data u) + n"
    and "unat (of_nat n :: u32) = n" and "unat (of_nat consumed :: u32) = consumed"
    and "UART_input_buffer_consume_offset u = of_nat consumed"
proof -
  note D = uart_atD[OF assms] and A = uart_atD(4)[OF assms, unfolded uart_ok_def]
  show n: "unat (of_nat n :: u32) = n" and c: "unat (of_nat consumed :: u32) = consumed"
    using D(1-3) by (auto intro!: word_of_nat_unat_eq)
  show "unat (ua_m_input_buffer_data u + of_nat n) = unat (ua_m_input_buffer_data u) + n"
    using unat_add_small[of "ua_m_input_buffer_data u" "of_nat n"] A n D(2,3) by simp
  have "unat (of_nat consumed mod 1024 :: u32) = consumed" using D(1-3) c by (simp add: unat_mod)
  then show "UART_input_buffer_consume_offset u = of_nat consumed"
    using A c by (metis UART_buffer_size_def UART_input_buffer_consume_offset_def word_unat_eq_iff)
qed

lemma uart_at_avaliable:
  assumes "uart_at whole u n consumed"
  shows "\<exists>u' n'. UART_input_buffer_avaliable_offset u = Inr (of_nat n', u') \<and>
     uart_at whole u' n' consumed \<and> n \<le> n'"
proof -
  obtain u1 n1 where 1: "UART_write_addr u = (ua_m_input_buffer_data u1 + of_nat n1, u1)"
    "uart_at whole u1 n1 consumed" "n \<le> n1" using uart_at_access[OF assms] by blast
  obtain u2 n2 where 2: "UART_write_addr u1 = (ua_m_input_buffer_data u2 + of_nat n2, u2)"
    "uart_at whole u2 n2 consumed" "n1 \<le> n2" using uart_at_access[OF 1(2)] by blast
  have "ua_m_input_buffer_data u1 \<le> ua_m_input_buffer_data u1 + of_nat n1"
    using uart_at_data(1)[OF 1(2)] by (simp add: word_le_nat_alt)
  then show ?thesis using 1 2
    by (intro exI[of _ u2] exI[of _ n2]) (simp add: UART_input_buffer_avaliable_offset_def)
qed

lemma uart_at_size:
  assumes "uart_at whole u n consumed"
  shows "\<exists>u' n'. UART_input_buffer_size u = Inr (of_nat (n' - consumed), u') \<and>
     uart_at whole u' n' consumed \<and> n \<le> n'"
proof -
  obtain u1 n1 where 1: "UART_input_buffer_avaliable_offset u = Inr (of_nat n1, u1)"
    "uart_at whole u1 n1 consumed" "n \<le> n1" using uart_at_avaliable[OF assms] by blast
  obtain u2 n2 where 2: "UART_input_buffer_avaliable_offset u1 = Inr (of_nat n2, u2)"
    "uart_at whole u2 n2 consumed" "n1 \<le> n2" using uart_at_avaliable[OF 1(2)] by blast
  have "UART_input_buffer_consume_offset u1 \<le> of_nat n1"
    using uart_at_data(2-4)[OF 1(2)] uart_atD(1)[OF 1(2)] by (simp add: word_le_nat_alt)
  then show ?thesis using 1 2 uart_at_data(4)[OF 2(2)] uart_atD(1)[OF 2(2)]
    by (intro exI[of _ u2] exI[of _ n2]) (simp add: UART_input_buffer_size_def of_nat_diff)
qed

text \<open>
  The loop compares a growing index with a size that shrinks with every byte it takes: of \<open>avail\<close>
  bytes, with room for \<open>cap\<close>, it takes about half.
\<close>

definition read_count :: "nat \<Rightarrow> nat \<Rightarrow> nat \<Rightarrow> nat" where
  "read_count index avail cap = min (cap - index) ((avail + 1 - index) div 2)"

lemma read_count_step:
  "index < avail \<Longrightarrow> index < cap \<Longrightarrow> read_count index avail cap = Suc (read_count (Suc index) (avail - 1) cap)"
proof -
  assume "index < avail" and "index < cap"
  then obtain d e where "avail = Suc (index + d)" "cap = Suc (index + e)"
    by (metis less_imp_Suc_add)
  then show ?thesis by (simp add: read_count_def)
qed

lemma read_count_mono: "a \<le> b \<Longrightarrow> read_count index a cap \<le> read_count index b cap"
  unfolding read_count_def by (intro min.mono div_le_mono) simp_all

lemma read_count_stop: "avail \<le> index \<or> cap \<le> index \<Longrightarrow> read_count index avail cap = 0"
  unfolding read_count_def by (elim disjE) (simp_all add: le_Suc_eq diff_le_mono)

lemma uart_consume:
  assumes "uart_at whole u n consumed" and "consumed < n"
  shows "uart_at whole (u\<lparr>ua_m_input_buffer_consume_offset_raw := ua_m_input_buffer_consume_offset_raw u + 1\<rparr>)
     n (Suc consumed)"
    and "Span_at (Span_of (ua_m_input_buffer u) UART_buffer_size) (UART_input_buffer_consume_offset u) =
      Inr (whole ! consumed)"
proof -
  note D = uart_atD[OF assms(1)] and A = uart_atD(4)[OF assms(1), unfolded uart_ok_def]
  show "uart_at whole (u\<lparr>ua_m_input_buffer_consume_offset_raw := ua_m_input_buffer_consume_offset_raw u + 1\<rparr>)
     n (Suc consumed)"
    using A assms(2) D by (auto simp: uart_at_def uart_ok_def intro!: exI[of _ "take n whole"])
  have "ua_m_input_buffer u ! consumed = whole ! consumed"
    using A assms(2) D(2) by (metis length_take min.absorb2 nth_take)
  then show "Span_at (Span_of (ua_m_input_buffer u) UART_buffer_size) (UART_input_buffer_consume_offset u) =
      Inr (whole ! consumed)"
    using A uart_at_data(3,4)[OF assms(1)] assms(2) D(2,3) by (simp add: Span_at_def Span_of_def)
qed

lemma UART_read_loop_reads:
  "uart_at whole u n consumed \<Longrightarrow> span_ok bytes \<Longrightarrow> unat index \<le> unat (sp_m_size bytes) \<Longrightarrow>
   unat (sp_m_size bytes) - unat index \<le> fuel \<Longrightarrow>
   \<exists>k u' n' bytes'. UART_read_loop fuel u bytes index = Inr (index + of_nat k, u', bytes') \<and>
     uart_at whole u' n' (consumed + k) \<and> n \<le> n' \<and> span_ok bytes' \<and> sp_m_size bytes' = sp_m_size bytes \<and>
     view bytes' = take (unat index) (view bytes) @ take k (drop consumed whole) @
       drop (unat index + k) (view bytes) \<and> unat index + k \<le> unat (sp_m_size bytes) \<and>
     read_count (unat index) (n - consumed) (unat (sp_m_size bytes)) \<le> k \<and>
     k \<le> read_count (unat index) (length whole - consumed) (unat (sp_m_size bytes))"
proof (induction fuel arbitrary: u n consumed bytes index)
  case (0 u n consumed bytes index)
  then have i: "unat index = unat (sp_m_size bytes)" by simp
  then have ni: "\<not> index < Std_min m (Span_size bytes)" for m
    by (auto simp: Std_min_def Span_size_def word_less_nat_alt word_le_nat_alt)
  obtain u1 n1 where 1: "UART_input_buffer_size u = Inr (of_nat (n1 - consumed), u1)"
    "uart_at whole u1 n1 consumed" "n \<le> n1" using uart_at_size[OF 0(1)] by blast
  have "UART_read_loop 0 u bytes index = Inr (index, u1, bytes)"
    using 1(1) ni by (subst UART_read_loop.simps) simp
  then show ?case using 0 1 i
    by (intro exI[of _ "0 :: nat"] exI[of _ u1] exI[of _ n1] exI[of _ bytes]) (simp add: read_count_def)
next
  case (Suc fuel u n consumed bytes index)
  let ?cap = "unat (sp_m_size bytes)"
  obtain u1 n1 where 1: "UART_input_buffer_size u = Inr (of_nat (n1 - consumed), u1)"
    "uart_at whole u1 n1 consumed" "n \<le> n1" using uart_at_size[OF Suc.prems(1)] by blast
  note D = uart_atD[OF 1(2)]
  have nw: "unat (of_nat (n1 - consumed) :: u32) = n1 - consumed"
    using D(2,3) by (intro word_of_nat_unat_eq) auto
  have cond: "index < Std_min (of_nat (n1 - consumed)) (Span_size bytes) \<longleftrightarrow>
      unat index < n1 - consumed \<and> unat index < ?cap"
    using nw by (auto simp: Std_min_def Span_size_def word_less_nat_alt word_le_nat_alt)
  show ?case
  proof (cases "unat index < n1 - consumed \<and> unat index < ?cap")
    case False
    have "UART_read_loop (Suc fuel) u bytes index = Inr (index, u1, bytes)"
      using 1(1) cond False by (subst UART_read_loop.simps) simp
    moreover have "read_count (unat index) (n - consumed) ?cap = 0"
      using False 1(3) by (intro read_count_stop) auto
    ultimately show ?thesis using Suc.prems 1
      by (intro exI[of _ "0 :: nat"] exI[of _ u1] exI[of _ n1] exI[of _ bytes]) simp
  next
    case True
    then have c: "consumed < n1" by linarith
    define u2 where "u2 = u1\<lparr>ua_m_input_buffer_consume_offset_raw := ua_m_input_buffer_consume_offset_raw u1 + 1\<rparr>"
    define bytes1 where "bytes1 = bytes\<lparr>sp_m_data := (sp_m_data bytes)[unat index := whole ! consumed]\<rparr>"
    note uc = uart_consume[OF 1(2) c]
    have put: "Span_put bytes index (whole ! consumed) = Inr bytes1"
      using True Suc.prems(2) by (simp add: Span_put_def bytes1_def span_ok_def)
    have i1: "unat (index + 1) = Suc (unat index)" using unat_inc[of index ?cap] True by simp
    have b1: "span_ok bytes1" "sp_m_size bytes1 = sp_m_size bytes"
      "view bytes1 = (view bytes)[unat index := whole ! consumed]"
      using Suc.prems(2) True by (simp_all add: bytes1_def span_ok_def view_def take_update_swap)
    have p: "uart_at whole u2 n1 (Suc consumed)" "span_ok bytes1"
      "unat (index + 1) \<le> unat (sp_m_size bytes1)" "unat (sp_m_size bytes1) - unat (index + 1) \<le> fuel"
      using uc(1) b1 i1 True Suc.prems(4) by (simp_all add: u2_def)
    from Suc.IH[OF p, unfolded i1 b1(2)] obtain k u3 n3 bytes3 where
      3: "UART_read_loop fuel u2 bytes1 (index + 1) = Inr (index + 1 + of_nat k, u3, bytes3)"
      "uart_at whole u3 n3 (Suc consumed + k)" "n1 \<le> n3" "span_ok bytes3" "sp_m_size bytes3 = sp_m_size bytes"
      "view bytes3 = take (Suc (unat index)) (view bytes1) @ take k (drop (Suc consumed) whole) @
        drop (Suc (unat index) + k) (view bytes1)" "Suc (unat index) + k \<le> ?cap"
      "read_count (Suc (unat index)) (n1 - Suc consumed) ?cap \<le> k"
      "k \<le> read_count (Suc (unat index)) (length whole - Suc consumed) ?cap" by blast
    have run: "UART_read_loop (Suc fuel) u bytes index = UART_read_loop fuel u2 bytes1 (index + 1)"
      using True cond 1(1) uc(2) put by (subst UART_read_loop.simps) (simp add: u2_def)
    have lv: "unat index < length (view bytes)" using True length_view[OF Suc.prems(2)] by simp
    have view3: "view bytes3 = take (unat index) (view bytes) @ take (Suc k) (drop consumed whole) @
        drop (unat index + Suc k) (view bytes)"
      using 3(6) lv c D(2) unfolding b1(3)
      by (simp add: take_Suc_conv_app_nth Cons_nth_drop_Suc[symmetric])
    have "read_count (unat index) (n - consumed) ?cap \<le> read_count (unat index) (n1 - consumed) ?cap"
      using 1(3) by (intro read_count_mono) simp
    also have "\<dots> = Suc (read_count (Suc (unat index)) (n1 - Suc consumed) ?cap)"
      using read_count_step[of "unat index" "n1 - consumed" ?cap] True by simp
    finally have lower: "read_count (unat index) (n - consumed) ?cap \<le> Suc k" using 3(8) by simp
    have "unat index < length whole - consumed" using True D(2) by linarith
    then have upper: "Suc k \<le> read_count (unat index) (length whole - consumed) ?cap"
      using read_count_step[of "unat index" "length whole - consumed" ?cap] True 3(9) by simp
    show ?thesis using 1(3) 3 run view3 lower upper
      by (intro exI[of _ "Suc k"] exI[of _ u3] exI[of _ n3] exI[of _ bytes3]) (simp add: ac_simps)
  qed
qed

text \<open>
  Runs of receptions and reads.  The second argument of a read are the bytes that come in while it
  runs, grouped by the accesses they precede; what is left of them comes in right after it.  The
  answers are the bytes that each read delivers.
\<close>

datatype uart_event = Receive u8 | Read usize "u8 list list"

definition UART_settle :: "UART \<Rightarrow> UART" where
  "UART_settle u = UART_receive_all (u\<lparr>ua_incoming := []\<rparr>) (concat (ua_incoming u))"

fun uart_run :: "uart_event list \<Rightarrow> UART \<Rightarrow> (u8 list list \<times> UART) outcome" where
  "uart_run [] u = Inr ([], u)"
| "uart_run (Receive b # es) u = uart_run es (UART_receive u b)"
| "uart_run (Read n incoming # es) u =
     bindE (UART_read (u\<lparr>ua_incoming := incoming\<rparr>) (Span_of (replicate (unat n) 0) n)) (\<lambda>(r, u, bytes).
     bindE (Result_must r) (\<lambda>nread.
     bindE (uart_run es (UART_settle u)) (\<lambda>(answers, u). Inr (take (unat nread) (view bytes) # answers, u))))"





lemma take_whole: "length xs = k \<Longrightarrow> take k (xs @ ys) = xs"
  by simp

lemma uart_read_step:
  assumes "uart_ok u received consumed" and "length (received @ concat incoming) < 1024"
  shows "\<exists>u' r bytes k. UART_read (u\<lparr>ua_incoming := incoming\<rparr>) (Span_of (replicate (unat n) 0) n) = Inr (r, u', bytes) \<and>
     Result_must r = Inr (of_nat k) \<and> unat (of_nat k :: usize) = k \<and>
     take k (view bytes) = take k (drop consumed (received @ concat incoming)) \<and>
     uart_ok (UART_settle u') (received @ concat incoming) (consumed + k) \<and>
     min (unat n) ((length received - consumed + 1) div 2) \<le> k \<and>
     k \<le> min (unat n) ((length (received @ concat incoming) - consumed + 1) div 2) \<and>
     consumed + k \<le> length (received @ concat incoming)"
proof -
  let ?b = "Span_of (replicate (unat n) 0) n :: u8 Span" and ?u = "u\<lparr>ua_incoming := incoming\<rparr>"
    and ?all = "received @ concat incoming"
  have ok: "span_ok ?b" by (simp add: span_ok_def Span_of_def)
  have at: "uart_at ?all ?u (length received) consumed" using assms by (auto simp: uart_at_def)
  obtain k u' n' b' where r: "UART_read_loop (unat n) ?u ?b 0 = Inr (of_nat k, u', b')"
    "uart_at ?all u' n' (consumed + k)" "view b' = take k (drop consumed ?all) @ drop k (view ?b)"
    "k \<le> unat n" "min (unat n) ((length received - consumed + 1) div 2) \<le> k"
    "k \<le> min (unat n) ((length ?all - consumed + 1) div 2)"
    using UART_read_loop_reads[OF at ok, of 0 "unat n"] by (auto simp: read_count_def Span_of_def)
  have "k < 4294967296" using r(4) by (rule le_less_trans) simp
  then have k: "unat (of_nat k :: usize) = k" by (intro word_of_nat_unat_eq[OF refl]) simp
  note D = uart_atD[OF r(2)]
  have l: "consumed + k \<le> length ?all" using D(1,2) by linarith
  have len: "length (take k (drop consumed ?all)) = k" using l by (simp only: length_take length_drop)
  have t: "take k (view b') = take k (drop consumed ?all)"
    unfolding r(3) by (rule take_whole[OF len])
  obtain in' where in': "uart_ok u' in' (consumed + k)" "?all = in' @ concat (ua_incoming u')"
    using r(2) unfolding uart_at_def by blast
  have "uart_ok (UART_settle u') (in' @ concat (ua_incoming u')) (consumed + k)"
    unfolding UART_settle_def using in'(1) assms(2) unfolding in'(2) by (intro UART_receive_all_ok) simp_all
  then have s: "uart_ok (UART_settle u') ?all (consumed + k)" unfolding in'(2) .
  have "UART_read ?u ?b = Inr (Result_from_value (of_nat k), u', b')"
    using r(1) by (simp add: UART_read_def Span_of_def Span_size_def)
  with k t s r(5,6) l show ?thesis by (intro exI[of _ u'] exI[of _ "Result_from_value (of_nat k)"]) auto
qed




text \<open>When nothing arrives meanwhile, a read takes half of what is available, rounded up.\<close>

lemma UART_read_half:
  "uart_ok u received consumed \<Longrightarrow>
   \<exists>u' answer. uart_run [Read 1000 []] u = Inr ([answer], u') \<and>
     answer = take (min 1000 ((length received - consumed + 1) div 2)) (drop consumed received)"
  using uart_read_step[of u received consumed "[]" 1000] by (fastforce simp: uart_ok_def)

text \<open>The 1024th byte wraps the ring: once something has been read, every further read stops the kernel.\<close>

lemma UART_wrap_stops:
  assumes "uart_ok u received consumed" and "length received = 1023" and "0 < consumed" and "ua_incoming u = []"
  shows "\<exists>why. UART_read (UART_receive u b) bytes = Inl (FIXME_ASSERT why)"
proof -
  note A = assms(1)[unfolded uart_ok_def]
  let ?u = "UART_receive u b"
  have at: "uart_at received u 1023 consumed" using assms by (auto simp: uart_at_def)
  have "ua_write_addr ?u = ua_m_input_buffer_data ?u"
    using A assms(2) by (simp add: UART_receive_def Let_def UART_buffer_size_def)
  moreover have "UART_input_buffer_consume_offset ?u = of_nat consumed"
    using uart_at_data(4)[OF at] by (simp add: UART_input_buffer_consume_offset_def UART_receive_def Let_def)
  moreover have "unat (of_nat consumed :: u32) = consumed" using A by (auto intro!: word_of_nat_unat_eq)
  ultimately show ?thesis using assms(3,4)
    by (simp add: UART_read_def UART_read_loop.simps[of _ ?u] UART_input_buffer_size_def UART_write_addr_def
        UART_input_buffer_avaliable_offset_def word_le_nat_alt)
qed

text \<open>Reading zero bytes from the console never returns, whatever comes in.\<close>

lemma ConsoleFileHandle_read_zero:
  "uart_at whole u n consumed \<Longrightarrow> ConsoleFileHandle_read_loop fuel u (Span_of [] 0) = Inl DIVERGES"
proof (induction fuel arbitrary: u n)
  case 0
  then show ?case by (subst ConsoleFileHandle_read_loop.simps) simp
next
  case (Suc fuel)
  obtain u1 n1 where 1: "UART_input_buffer_size u = Inr (of_nat (n1 - consumed), u1)" "uart_at whole u1 n1 consumed"
    using uart_at_size[OF Suc.prems] by blast
  then have "UART_read u (Span_of [] 0) = Inr (Result_from_value 0, u1, Span_of [] 0)"
    by (simp add: UART_read_def UART_read_loop.simps[of _ u] Std_min_def Span_size_def Span_of_def)
  then show ?case using Suc.IH[OF 1(2)] by (subst ConsoleFileHandle_read_loop.simps) simp
qed

end
