(* ===== verification/Sorted_Set.thy ===== *)
theory Sorted_Set
  imports Interfaces
begin

section \<open>Std/SortedSet.hpp: a binary search tree with parent pointers\<close>

text \<open>
  The nodes of a set live in a map from addresses to node records, with 0 for the null pointer;
  reading an address that is not (or no longer) in the map is undefined.  \<^verbatim>\<open>new\<close> takes the next
  unused address.  The comparison operators of the element type are parameters; they are required
  to compare by a key, as the elements that the kernel stores do (\<^verbatim>\<open>HashTable::Node\<close> compares
  hashes and keys and ignores the stored value).  Recursion carries fuel; the number of addresses
  handed out so far is enough, since no path can visit more nodes than that.
\<close>

subsection \<open>State and operations\<close>

record 'a SortedSet_Node =
  sn_m_value :: 'a
  sn_m_left :: nat
  sn_m_right :: nat
  sn_m_parent :: nat

record 'a SortedSet =
  ss_m_root :: nat
  ss_m_size :: usize
  ss_nodes :: "nat \<Rightarrow> 'a SortedSet_Node option"
  ss_fresh :: nat

type_synonym 'a order = "'a \<Rightarrow> 'a \<Rightarrow> bool"

definition SortedSet_new :: "'a SortedSet" where
  "SortedSet_new = \<lparr>ss_m_root = 0, ss_m_size = 0, ss_nodes = (\<lambda>_. None), ss_fresh = 1\<rparr>"

definition node_at :: "'a SortedSet \<Rightarrow> nat \<Rightarrow> 'a SortedSet_Node outcome" where
  "node_at s p = (case ss_nodes s p of
     None \<Rightarrow> Inl (UNDEFINED ''null or dangling pointer'') | Some n \<Rightarrow> Inr n)"

definition put_node :: "nat \<Rightarrow> 'a SortedSet_Node \<Rightarrow> 'a SortedSet \<Rightarrow> 'a SortedSet" where
  "put_node p n s = s\<lparr>ss_nodes := (ss_nodes s)(p \<mapsto> n)\<rparr>"

definition Node_new :: "'a \<Rightarrow> 'a SortedSet_Node" where
  "Node_new value = \<lparr>sn_m_value = value, sn_m_left = 0, sn_m_right = 0, sn_m_parent = 0\<rparr>"

text \<open>\<^verbatim>\<open>delete\<close> of a node: its destructor deletes both children, then its memory is released.\<close>

fun Node_delete :: "nat \<Rightarrow> 'a SortedSet \<Rightarrow> nat \<Rightarrow> 'a SortedSet outcome" where
  "Node_delete fuel s p =
     (if p = 0 then Inr s
      else if fuel = 0 then Inl DIVERGES
      else bindE (node_at s p) (\<lambda>n.
           bindE (Node_delete (fuel - 1) s (sn_m_left n)) (\<lambda>s.
           bindE (Node_delete (fuel - 1) s (sn_m_right n)) (\<lambda>s.
           Inr (s\<lparr>ss_nodes := (ss_nodes s)(p := None)\<rparr>)))))"

declare Node_delete.simps [simp del]

definition set_m_parent :: "nat \<Rightarrow> nat \<Rightarrow> 'a SortedSet \<Rightarrow> 'a SortedSet outcome" where
  "set_m_parent p v s =
     (if p = 0 then Inr s else bindE (node_at s p) (\<lambda>n. Inr (put_node p (n\<lparr>sn_m_parent := v\<rparr>) s)))"

definition Node_replace_child ::
  "'a SortedSet \<Rightarrow> nat \<Rightarrow> nat \<Rightarrow> nat \<Rightarrow> 'a SortedSet outcome" where
  "Node_replace_child s this old new_node =
     bindE (node_at s this) (\<lambda>n.
     if sn_m_left n = old then
       bindE (set_m_parent old 0 s) (\<lambda>s.
       bindE (node_at s this) (\<lambda>n.
       set_m_parent new_node this (put_node this (n\<lparr>sn_m_left := new_node\<rparr>) s)))
     else if sn_m_right n = old then
       bindE (set_m_parent old 0 s) (\<lambda>s.
       bindE (node_at s this) (\<lambda>n.
       set_m_parent new_node this (put_node this (n\<lparr>sn_m_right := new_node\<rparr>) s)))
     else Inl ASSERT_NOT_REACHED)"

text \<open>The result is the node and the last value of \<^verbatim>\<open>*parent\<close>.\<close>

fun SortedSet_search_impl ::
  "'a order \<Rightarrow> 'a order \<Rightarrow> nat \<Rightarrow> 'a SortedSet \<Rightarrow> 'a \<Rightarrow> nat \<Rightarrow> nat \<Rightarrow> (nat \<times> nat) outcome" where
  "SortedSet_search_impl lt gt fuel s value parent subtree =
     (if subtree = 0 then Inr (0, parent)
      else if fuel = 0 then Inl DIVERGES
      else bindE (node_at s subtree) (\<lambda>n.
           if lt value (sn_m_value n)
           then SortedSet_search_impl lt gt (fuel - 1) s value subtree (sn_m_left n)
           else if gt value (sn_m_value n)
           then SortedSet_search_impl lt gt (fuel - 1) s value subtree (sn_m_right n)
           else Inr (subtree, parent)))"

declare SortedSet_search_impl.simps [simp del]

fun SortedSet_min_impl :: "nat \<Rightarrow> 'a SortedSet \<Rightarrow> nat \<Rightarrow> nat \<Rightarrow> (nat \<times> nat) outcome" where
  "SortedSet_min_impl fuel s subtree parent =
     (if subtree = 0 then Inr (0, parent)
      else if fuel = 0 then Inl DIVERGES
      else bindE (node_at s subtree) (\<lambda>n.
           if sn_m_left n = 0 then Inr (subtree, parent)
           else SortedSet_min_impl (fuel - 1) s (sn_m_left n) subtree))"

declare SortedSet_min_impl.simps [simp del]

definition value_of :: "'a SortedSet \<Rightarrow> nat \<Rightarrow> 'a option outcome" where
  "value_of s p = (if p = 0 then Inr None else bindE (node_at s p) (\<lambda>n. Inr (Some (sn_m_value n))))"

definition SortedSet_search ::
  "'a order \<Rightarrow> 'a order \<Rightarrow> 'a SortedSet \<Rightarrow> 'a \<Rightarrow> 'a option outcome" where
  "SortedSet_search lt gt s value =
     bindE (SortedSet_search_impl lt gt (ss_fresh s) s value 0 (ss_m_root s)) (\<lambda>(node, _). value_of s node)"

definition SortedSet_min :: "'a SortedSet \<Rightarrow> 'a option outcome" where
  "SortedSet_min s =
     bindE (SortedSet_min_impl (ss_fresh s) s (ss_m_root s) 0) (\<lambda>(node, _). value_of s node)"

definition SortedSet_insert_impl ::
  "'a order \<Rightarrow> 'a order \<Rightarrow> 'a SortedSet \<Rightarrow> 'a \<Rightarrow> 'a SortedSet outcome" where
  "SortedSet_insert_impl lt gt s value =
     bindE (SortedSet_search_impl lt gt (ss_fresh s) s value 0 (ss_m_root s)) (\<lambda>(node, parent).
     if node \<noteq> 0 then bindE (node_at s node) (\<lambda>n. Inr (put_node node (n\<lparr>sn_m_value := value\<rparr>) s))
     else
       let node = ss_fresh s; s = s\<lparr>ss_fresh := ss_fresh s + 1\<rparr> in
       if parent = 0 then
         Inr ((put_node node (Node_new value) s)\<lparr>ss_m_root := node, ss_m_size := ss_m_size s + 1\<rparr>)
       else bindE (node_at s parent) (\<lambda>p.
         if lt value (sn_m_value p) then
           checkE (sn_m_left p = 0) (ASSERT ''parent->m_left == nullptr'')
             (Inr ((put_node node ((Node_new value)\<lparr>sn_m_parent := parent\<rparr>)
                     (put_node parent (p\<lparr>sn_m_left := node\<rparr>) s))\<lparr>ss_m_size := ss_m_size s + 1\<rparr>))
         else
           checkE (gt value (sn_m_value p)) (ASSERT ''value > parent->m_value'')
           (checkE (sn_m_right p = 0) (ASSERT ''parent->m_right == nullptr'')
             (Inr ((put_node node ((Node_new value)\<lparr>sn_m_parent := parent\<rparr>)
                     (put_node parent (p\<lparr>sn_m_right := node\<rparr>) s))\<lparr>ss_m_size := ss_m_size s + 1\<rparr>)))))"

definition SortedSet_remove_impl :: "'a SortedSet \<Rightarrow> nat \<Rightarrow> nat \<Rightarrow> 'a SortedSet outcome" where
  "SortedSet_remove_impl s node parent =
     bindE (node_at s node) (\<lambda>n.
     checkE (sn_m_left n = 0 \<or> sn_m_right n = 0)
       (ASSERT ''node->m_left == nullptr || node->m_right == nullptr'')
     (bindE
       (if sn_m_left n = 0 \<and> sn_m_right n = 0 then
          (if parent \<noteq> 0 then Node_replace_child s parent node 0 else Inr (s\<lparr>ss_m_root := 0\<rparr>))
        else if sn_m_left n = 0 then
          bindE (if parent \<noteq> 0 then Node_replace_child s parent node (sn_m_right n)
                 else Inr (s\<lparr>ss_m_root := sn_m_right n\<rparr>)) (\<lambda>s.
          bindE (node_at s node) (\<lambda>n. Inr (put_node node (n\<lparr>sn_m_right := 0\<rparr>) s)))
        else
          bindE (if parent \<noteq> 0 then Node_replace_child s parent node (sn_m_left n)
                 else Inr (s\<lparr>ss_m_root := sn_m_left n\<rparr>)) (\<lambda>s.
          bindE (node_at s node) (\<lambda>n. Inr (put_node node (n\<lparr>sn_m_left := 0\<rparr>) s))))
     (\<lambda>s. bindE (set_m_parent node 0 s) (\<lambda>s.
          bindE (Node_delete (ss_fresh s) s node) (\<lambda>s.
          Inr (s\<lparr>ss_m_size := ss_m_size s - 1\<rparr>))))))"

definition SortedSet_remove ::
  "'a order \<Rightarrow> 'a order \<Rightarrow> 'a SortedSet \<Rightarrow> 'a \<Rightarrow> 'a SortedSet outcome" where
  "SortedSet_remove lt gt s value =
     bindE (SortedSet_search_impl lt gt (ss_fresh s) s value 0 (ss_m_root s)) (\<lambda>(node, parent).
     if node = 0 then Inr s
     else bindE (node_at s node) (\<lambda>n.
       if sn_m_left n = 0 \<or> sn_m_right n = 0 then SortedSet_remove_impl s node parent
       else
         bindE (SortedSet_min_impl (ss_fresh s) s (sn_m_right n) node)
           (\<lambda>(min_in_right, min_in_right_parent).
         checkE (min_in_right \<noteq> 0) (ASSERT ''min_in_right'')
         (bindE (node_at s min_in_right) (\<lambda>m.
          SortedSet_remove_impl (put_node node (n\<lparr>sn_m_value := sn_m_value m\<rparr>) s)
            min_in_right min_in_right_parent)))))"

definition SortedSet_size :: "'a SortedSet \<Rightarrow> usize" where
  "SortedSet_size s = ss_m_size s"

definition SortedSet_clear :: "'a SortedSet \<Rightarrow> 'a SortedSet outcome" where
  "SortedSet_clear s =
     bindE (Node_delete (ss_fresh s) s (ss_m_root s)) (\<lambda>s. Inr (s\<lparr>ss_m_root := 0, ss_m_size := 0\<rparr>))"

text \<open>The nodes change hands with the root pointer, so both maps are exchanged as well.\<close>

definition SortedSet_move_assign ::
  "'a SortedSet \<Rightarrow> 'a SortedSet \<Rightarrow> ('a SortedSet \<times> 'a SortedSet) outcome" where
  "SortedSet_move_assign s other =
     bindE (SortedSet_clear s) (\<lambda>s.
       Inr (s\<lparr>ss_m_root := ss_m_root other, ss_m_size := ss_m_size other,
               ss_nodes := ss_nodes other, ss_fresh := ss_fresh other\<rparr>,
            other\<lparr>ss_m_root := 0, ss_m_size := 0, ss_nodes := ss_nodes s\<rparr>))"

subsection \<open>In-order iteration\<close>

definition SortedSet_inorder :: "'a SortedSet \<Rightarrow> nat outcome" where
  "SortedSet_inorder s =
     bindE (SortedSet_min_impl (ss_fresh s) s (ss_m_root s) 0) (\<lambda>(node, _). Inr node)"

fun InorderIterator_climb :: "nat \<Rightarrow> 'a SortedSet \<Rightarrow> nat \<Rightarrow> nat outcome" where
  "InorderIterator_climb fuel s current =
     bindE (node_at s current) (\<lambda>n.
     if sn_m_parent n = 0 then Inr current
     else if fuel = 0 then Inl DIVERGES
     else bindE (node_at s (sn_m_parent n)) (\<lambda>p.
          if sn_m_left p = current then Inr current
          else InorderIterator_climb (fuel - 1) s (sn_m_parent n)))"

declare InorderIterator_climb.simps [simp del]

definition InorderIterator_next :: "'a SortedSet \<Rightarrow> nat \<Rightarrow> nat outcome" where
  "InorderIterator_next s current =
     checkE (current \<noteq> 0) (ASSERT ''m_current'')
     (bindE (node_at s current) (\<lambda>n.
      if sn_m_right n \<noteq> 0
      then bindE (SortedSet_min_impl (ss_fresh s) s (sn_m_right n) 0) (\<lambda>(node, _). Inr node)
      else bindE (InorderIterator_climb (ss_fresh s) s current) (\<lambda>current.
           bindE (node_at s current) (\<lambda>n.
           if sn_m_parent n = 0 then Inr 0 else Inr (sn_m_parent n)))))"

text \<open>A range-for loop over \<^verbatim>\<open>inorder()\<close> that collects the elements.\<close>

fun SortedSet_iterate_from :: "nat \<Rightarrow> 'a SortedSet \<Rightarrow> nat \<Rightarrow> 'a list outcome" where
  "SortedSet_iterate_from fuel s current =
     (if current = 0 then Inr []
      else if fuel = 0 then Inl DIVERGES
      else bindE (node_at s current) (\<lambda>n.
           bindE (InorderIterator_next s current) (\<lambda>next.
           bindE (SortedSet_iterate_from (fuel - 1) s next) (\<lambda>xs. Inr (sn_m_value n # xs)))))"

declare SortedSet_iterate_from.simps [simp del]

definition SortedSet_iterate :: "'a SortedSet \<Rightarrow> 'a list outcome" where
  "SortedSet_iterate s = bindE (SortedSet_inorder s) (SortedSet_iterate_from (ss_fresh s) s)"

subsection \<open>Printing\<close>

fun Node_dump :: "nat \<Rightarrow> ('a \<Rightarrow> string) \<Rightarrow> 'a SortedSet \<Rightarrow> nat \<Rightarrow> string \<Rightarrow> string outcome" where
  "Node_dump fuel format s p builder =
     (if fuel = 0 then Inl DIVERGES
      else bindE (node_at s p) (\<lambda>n.
        if sn_m_left n = 0 \<and> sn_m_right n = 0 then Inr (builder @ format (sn_m_value n))
        else
          let builder = builder @ ''('' in
          bindE (if sn_m_left n \<noteq> 0 then Node_dump (fuel - 1) format s (sn_m_left n) builder
                 else Inr (builder @ ''nil'')) (\<lambda>builder.
          let builder = builder @ '' '' @ format (sn_m_value n) @ '' '' in
          bindE (if sn_m_right n \<noteq> 0 then Node_dump (fuel - 1) format s (sn_m_right n) builder
                 else Inr (builder @ ''nil'')) (\<lambda>builder.
          Inr (builder @ '')'')))))"

declare Node_dump.simps [simp del]

definition SortedSet_dump :: "('a \<Rightarrow> string) \<Rightarrow> 'a SortedSet \<Rightarrow> string \<Rightarrow> string outcome" where
  "SortedSet_dump format s builder =
     (if ss_m_root s \<noteq> 0 then Node_dump (ss_fresh s) format s (ss_m_root s) builder
      else Inr (builder @ ''nil''))"

end
