(* ===== verification/Sorted_Set_Correct.thy ===== *)
theory Sorted_Set_Correct
  imports Sorted_Set "HOL-Library.Tree"
begin

section \<open>SortedSet is a sorted list without duplicates\<close>

text \<open>
  The pointer structure is related to a tree whose elements carry their addresses; the in-order
  list of that tree is the abstract value.  Every operation is first shown on the tree and then on
  lists, and the simulation theorem states what sequences of operations do.  Parent pointers are
  part of the relation: below the root each is exact, the root's own is left open, because
  \<^verbatim>\<open>remove\<close> does not keep it.
\<close>

subsection \<open>Trees in memory\<close>

type_synonym 'a nodes = "nat \<Rightarrow> 'a SortedSet_Node option"

fun repr :: "'a nodes \<Rightarrow> nat \<Rightarrow> nat \<Rightarrow> ('a \<times> nat) tree \<Rightarrow> bool" where
  "repr h p q Leaf = (p = 0)"
| "repr h p q (Node l xa r) =
     (p = snd xa \<and> p \<noteq> 0 \<and>
      (\<exists>n. h p = Some n \<and> sn_m_value n = fst xa \<and> sn_m_parent n = q \<and>
           repr h (sn_m_left n) p l \<and> repr h (sn_m_right n) p r))"

fun addrs :: "('a \<times> nat) tree \<Rightarrow> nat set" where
  "addrs Leaf = {}"
| "addrs (Node l xa r) = insert (snd xa) (addrs l \<union> addrs r)"

text \<open>No address occurs twice.\<close>

fun apart :: "('a \<times> nat) tree \<Rightarrow> bool" where
  "apart Leaf = True"
| "apart (Node l xa r) =
     (snd xa \<notin> addrs l \<and> snd xa \<notin> addrs r \<and> addrs l \<inter> addrs r = {} \<and> apart l \<and> apart r)"

lemma addrs_inorder: "snd ` set (inorder t) = addrs t"
  by (induction t) auto

abbreviation vals :: "('a \<times> nat) tree \<Rightarrow> 'a list" where
  "vals t \<equiv> map fst (inorder t)"

lemma repr_cong:
  "(\<And>a. a \<in> addrs t \<Longrightarrow> h' a = h a) \<Longrightarrow> repr h' p q t = repr h p q t"
proof (induction t arbitrary: p q)
  case (Node l xa r)
  have "h' (snd xa) = h (snd xa)" using Node.prems by simp
  moreover have "\<And>p q. repr h' p q l = repr h p q l" "\<And>p q. repr h' p q r = repr h p q r"
    using Node.prems by (auto intro!: Node.IH)
  ultimately show ?case by (cases "p = snd xa") simp_all
qed simp

lemma repr_null: "repr h p q t \<Longrightarrow> p = 0 \<longleftrightarrow> t = Leaf"
  by (cases t) auto

lemma repr_root_addr: "repr h p q t \<Longrightarrow> p \<noteq> 0 \<Longrightarrow> p \<in> addrs t"
  by (cases t) auto

lemma repr_addrs: "repr h p q t \<Longrightarrow> a \<in> addrs t \<Longrightarrow> a \<noteq> 0 \<and> h a \<noteq> None"
  by (induction t arbitrary: p q) auto

lemma repr_value: "repr h p q t \<Longrightarrow> (x, a) \<in> set (inorder t) \<Longrightarrow> \<exists>n. h a = Some n \<and> sn_m_value n = x"
proof (induction t arbitrary: p q)
  case (Node l xa r)
  then show ?case by (auto 0 3)
qed simp

lemma node_at_Some [simp]: "ss_nodes s p = Some n \<Longrightarrow> node_at s p = Inr n"
  by (simp add: node_at_def)

lemma put_node_simps [simp]:
  "ss_nodes (put_node p n s) = (ss_nodes s)(p \<mapsto> n)"
  "ss_m_root (put_node p n s) = ss_m_root s"
  "ss_m_size (put_node p n s) = ss_m_size s"
  "ss_fresh (put_node p n s) = ss_fresh s"
  by (simp_all add: put_node_def)

subsection \<open>Changing one node\<close>

definition revalue :: "nat \<Rightarrow> 'a \<Rightarrow> 'a \<times> nat \<Rightarrow> 'a \<times> nat" where
  "revalue a v = (\<lambda>(x, b). (if b = a then v else x, b))"

lemma snd_revalue [simp]: "snd (revalue a v xb) = snd xb"
  by (simp add: revalue_def split: prod.splits)

lemma addrs_revalue [simp]: "addrs (map_tree (revalue a v) t) = addrs t"
  by (induction t) auto

lemma apart_revalue [simp]: "apart (map_tree (revalue a v) t) = apart t"
  by (induction t) auto

lemma repr_revalue:
  assumes "h a = Some n"
  shows "repr h p q t \<Longrightarrow> repr (h(a \<mapsto> n\<lparr>sn_m_value := v\<rparr>)) p q (map_tree (revalue a v) t)"
proof (induction t arbitrary: p q)
  case (Node l xb r)
  then show ?case using assms by (auto simp: revalue_def split: prod.splits)
qed simp

text \<open>Taking out a node with at most one child, which takes its place.\<close>

fun only_child :: "'a tree \<Rightarrow> 'a tree" where
  "only_child Leaf = Leaf"
| "only_child (Node l x r) = (if l = Leaf then r else l)"

fun root_addr :: "('a \<times> nat) tree \<Rightarrow> nat" where
  "root_addr Leaf = 0"
| "root_addr (Node l xa r) = snd xa"

fun one_child :: "nat \<Rightarrow> ('a \<times> nat) tree \<Rightarrow> bool" where
  "one_child a Leaf = True"
| "one_child a (Node l xb r) = ((snd xb = a \<longrightarrow> l = Leaf \<or> r = Leaf) \<and> one_child a l \<and> one_child a r)"

fun unlink :: "nat \<Rightarrow> ('a \<times> nat) tree \<Rightarrow> ('a \<times> nat) tree" where
  "unlink a Leaf = Leaf"
| "unlink a (Node l xb r) =
     (if snd xb = a then only_child (Node l xb r) else Node (unlink a l) xb (unlink a r))"

lemma unlink_id: "a \<notin> addrs t \<Longrightarrow> unlink a t = t"
  by (induction t) auto

lemma inorder_unlink:
  "apart t \<Longrightarrow> one_child a t \<Longrightarrow> inorder (unlink a t) = filter (\<lambda>xb. snd xb \<noteq> a) (inorder t)"
proof (induction t)
  case (Node l xb r)
  have id: "filter (\<lambda>xb. snd xb \<noteq> a) (inorder s) = inorder s" if "a \<notin> addrs s"
    for s :: "('a \<times> nat) tree"
    using that by (intro filter_True) (auto simp flip: addrs_inorder)
  show ?case
  proof (cases "snd xb = a")
    case True
    then have "a \<notin> addrs l" "a \<notin> addrs r" using Node.prems(1) by auto
    then show ?thesis using True Node.prems(2) id[of l] id[of r] by auto
  next
    case False
    then show ?thesis using Node by simp
  qed
qed simp

text \<open>The address of a node's parent within a tree, 0 for the root.\<close>

fun parent_in :: "nat \<Rightarrow> ('a \<times> nat) tree \<Rightarrow> nat" where
  "parent_in a Leaf = 0"
| "parent_in a (Node l xb r) =
     (if root_addr l = a \<or> root_addr r = a then snd xb
      else if a \<in> addrs l then parent_in a l else parent_in a r)"

lemma root_addr_in: "t \<noteq> Leaf \<Longrightarrow> root_addr t \<in> addrs t"
  by (cases t) auto

lemma repr_root: "repr h p q t \<Longrightarrow> p = root_addr t"
  by (cases t) auto

definition with_parent :: "nat \<Rightarrow> nat \<Rightarrow> 'a nodes \<Rightarrow> 'a nodes" where
  "with_parent c b h = (if c = 0 then h else (case h c of None \<Rightarrow> h | Some n \<Rightarrow> h(c \<mapsto> n\<lparr>sn_m_parent := b\<rparr>)))"

lemma repr_with_parent:
  assumes "repr h c q t" and "apart t"
  shows "repr (with_parent c b h) c b t"
proof (cases t)
  case (Node l xa r)
  with assms obtain n where n: "h c = Some n" "c \<noteq> 0" "c = snd xa" "sn_m_value n = fst xa"
    "repr h (sn_m_left n) c l" "repr h (sn_m_right n) c r" by auto
  have "repr (with_parent c b h) u v s = repr h u v s" if "s = l \<or> s = r" for u v s
    using that assms(2) Node n by (intro repr_cong) (auto simp: with_parent_def)
  then show ?thesis using Node n by (auto simp: with_parent_def)
qed (use assms in \<open>simp add: with_parent_def\<close>)

lemma with_parent_other [simp]: "x \<noteq> c \<Longrightarrow> with_parent c b h x = h x"
  by (auto simp: with_parent_def split: option.splits)

definition child_ptr :: "'a SortedSet_Node \<Rightarrow> nat" where
  "child_ptr n = (if sn_m_left n = 0 then sn_m_right n else sn_m_left n)"

lemma repr_children:
  "repr h p q t \<Longrightarrow> a \<in> addrs t \<Longrightarrow> h a = Some n \<Longrightarrow>
   (sn_m_left n = 0 \<or> sn_m_left n \<in> addrs t) \<and> (sn_m_right n = 0 \<or> sn_m_right n \<in> addrs t)"
proof (induction t arbitrary: p q)
  case (Node l xa r)
  obtain m where m: "h p = Some m" "p = snd xa"
    "repr h (sn_m_left m) p l" "repr h (sn_m_right m) p r" using Node.prems(1) by auto
  consider "a = p" | "a \<in> addrs l" | "a \<in> addrs r" using Node.prems(2) m(2) by auto
  then show ?case
  proof cases
    case 1
    then show ?thesis using repr_root_addr[OF m(3)] repr_root_addr[OF m(4)] m(1) Node.prems(3) by auto
  next
    case 2
    then show ?thesis using Node.IH(1)[OF m(3) _ Node.prems(3)] by auto
  next
    case 3
    then show ?thesis using Node.IH(2)[OF m(4) _ Node.prems(3)] by auto
  qed
qed simp

lemma child_ptr_in: "repr h p q t \<Longrightarrow> a \<in> addrs t \<Longrightarrow> h a = Some n \<Longrightarrow> child_ptr n = 0 \<or> child_ptr n \<in> addrs t"
  using repr_children unfolding child_ptr_def by metis

lemma repr_only_child:
  "repr h p q (Node l xa r) \<Longrightarrow> l = Leaf \<or> r = Leaf \<Longrightarrow> h p = Some n \<Longrightarrow>
   repr h (child_ptr n) p (only_child (Node l xa r))"
  by (auto simp: child_ptr_def dest: repr_null)

definition unlinked :: "nat \<Rightarrow> nat \<Rightarrow> 'a SortedSet_Node \<Rightarrow> nat \<Rightarrow> 'a nodes \<Rightarrow> 'a nodes" where
  "unlinked a b nb c h =
     (with_parent c b (h(b \<mapsto> (if sn_m_left nb = a then nb\<lparr>sn_m_left := c\<rparr>
                              else nb\<lparr>sn_m_right := c\<rparr>))))(a := None)"

lemma unlinked_other: "x \<noteq> a \<Longrightarrow> x \<noteq> b \<Longrightarrow> x \<noteq> c \<Longrightarrow> unlinked a b nb c h x = h x"
  by (simp add: unlinked_def)

lemma unlinked_parent: "b \<noteq> a \<Longrightarrow> b \<noteq> c \<Longrightarrow> unlinked a b nb c h b =
    Some (if sn_m_left nb = a then nb\<lparr>sn_m_left := c\<rparr> else nb\<lparr>sn_m_right := c\<rparr>)"
  by (simp add: unlinked_def)

lemma repr_unlinked_child:
  assumes "repr h c q s" and "apart s" and "a \<notin> addrs s" and "b \<notin> addrs s"
  shows "repr (unlinked a b nb c h) c b s"
proof -
  let ?h = "h(b \<mapsto> (if sn_m_left nb = a then nb\<lparr>sn_m_left := c\<rparr> else nb\<lparr>sn_m_right := c\<rparr>))"
  have "repr ?h c q s = repr h c q s" using assms(4) by (intro repr_cong) auto
  then have "repr (with_parent c b ?h) c b s"
    using assms(1,2) by (intro repr_with_parent) simp_all
  moreover have "repr (unlinked a b nb c h) c b s = repr (with_parent c b ?h) c b s"
    using assms(3) by (intro repr_cong) (auto simp: unlinked_def)
  ultimately show ?thesis by simp
qed

lemma addrs_only_child: "addrs (only_child t) \<subseteq> addrs t"
  by (cases t) auto

lemma apart_only_child: "apart t \<Longrightarrow> apart (only_child t)"
  by (cases t) auto

lemma root_not_in_only_child: "apart t \<Longrightarrow> t \<noteq> Leaf \<Longrightarrow> root_addr t \<notin> addrs (only_child t)"
  by (cases t) auto

lemma unlink_root: "a = root_addr t \<Longrightarrow> unlink a t = only_child t"
  by (cases t) auto

lemma unlink_root_subtree:
  assumes "repr h p q s" and "apart s" and "s \<noteq> Leaf" and "one_child p s" and "h p = Some na"
    and "b \<notin> addrs s"
  shows "repr (unlinked p b nb (child_ptr na) h) (child_ptr na) b (unlink p s)"
    and "child_ptr na \<notin> - insert 0 (addrs s)"
proof -
  obtain l xa r where s: "s = Node l xa r" using assms(3) by (cases s) auto
  have root: "p = root_addr s" using repr_root[OF assms(1)] .
  have "repr h (child_ptr na) p (only_child s)"
    using repr_only_child[of h p q l xa r na] assms s by auto
  then show "repr (unlinked p b nb (child_ptr na) h) (child_ptr na) b (unlink p s)"
    unfolding unlink_root[OF root]
    using repr_unlinked_child[OF _ apart_only_child[OF assms(2)]] root_not_in_only_child[OF assms(2,3)]
      addrs_only_child[of s] assms(6) root by blast
  show "child_ptr na \<notin> - insert 0 (addrs s)"
    using child_ptr_in[OF assms(1) _ assms(5)] repr_root_addr[OF assms(1)] s assms(1) by auto
qed

lemma repr_unlink:
  assumes "repr h p q t" and "apart t" and "a \<in> addrs t" and "a \<noteq> p" and "one_child a t"
    and "h a = Some na" and "b = parent_in a t"
  shows "b \<in> addrs t \<and> b \<noteq> a \<and> (\<exists>nb. h b = Some nb \<and> (sn_m_left nb = a \<or> sn_m_right nb = a) \<and>
     repr (unlinked a b nb (child_ptr na) h) p q (unlink a t))"
  using assms
proof (induction t arbitrary: p q b)
  case (Node l xb r)
  obtain n where n: "h p = Some n" "p = snd xb" "p \<noteq> 0" "sn_m_value n = fst xb" "sn_m_parent n = q"
    "repr h (sn_m_left n) p l" "repr h (sn_m_right n) p r" using Node.prems(1) by auto
  note roots = repr_root[OF n(6)] repr_root[OF n(7)]
  note ap = Node.prems(2)[simplified]
  let ?c = "child_ptr na"
  have a0: "a \<noteq> 0" using repr_addrs[OF Node.prems(1,3)] by simp
  have keep: "repr (unlinked a b' nb ?c h) u v s = repr h u v s"
    if "a \<notin> addrs s" "b' \<notin> addrs s" "?c \<notin> addrs s" for b' nb u v s
    using that by (intro repr_cong) (auto intro!: unlinked_other)
  consider (rootl) "a = root_addr l" | (rootr) "a = root_addr r" "a \<noteq> root_addr l"
    | (inl) "a \<in> addrs l" "a \<noteq> root_addr l" "a \<noteq> root_addr r"
    | (inr) "a \<in> addrs r" "a \<notin> addrs l" "a \<noteq> root_addr l" "a \<noteq> root_addr r"
    using Node.prems(3,4) n(2) by auto
  then show ?case
  proof cases
    case rootl
    then have l: "l \<noteq> Leaf" using a0 by auto
    have b: "b = p" using Node.prems(7) rootl n(2) by simp
    have al: "a \<in> addrs l" using rootl l root_addr_in by simp
    have sub: "repr (unlinked a p n ?c h) ?c p (unlink a l)" "?c \<notin> - insert 0 (addrs l)"
      using unlink_root_subtree(1)[of h a p l na p n] unlink_root_subtree(2)[of h a p l na p] n(2,6) roots(1) rootl ap l Node.prems(5,6) by auto
    have "a \<notin> addrs r" using al ap by auto
    moreover have "?c \<notin> addrs r" "?c \<noteq> p" using sub(2) ap n(2,3) repr_addrs[OF n(7), of 0] by auto
    ultimately have "repr (unlinked a p n ?c h) p q (unlink a (Node l xb r))"
      using sub(1) n roots(1) rootl Node.prems(4) ap unlink_id[of a r]
        keep[of r p n] unlinked_parent[of p a ?c n h] by auto
    with b n rootl roots(1) Node.prems(4) show ?thesis by auto
  next
    case rootr
    then have r: "r \<noteq> Leaf" using a0 by auto
    have b: "b = p" using Node.prems(7) rootr n(2) by simp
    have ar: "a \<in> addrs r" using rootr r root_addr_in by simp
    have sub: "repr (unlinked a p n ?c h) ?c p (unlink a r)" "?c \<notin> - insert 0 (addrs r)"
      using unlink_root_subtree(1)[of h a p r na p n] unlink_root_subtree(2)[of h a p r na p] n(2,7) roots(2) rootr ap r Node.prems(5,6) by auto
    have "a \<notin> addrs l" using ar ap by auto
    moreover have "?c \<notin> addrs l" "?c \<noteq> p" using sub(2) ap n(2,3) repr_addrs[OF n(6), of 0] by auto
    ultimately have "repr (unlinked a p n ?c h) p q (unlink a (Node l xb r))"
      using sub(1) n roots rootr Node.prems(4) ap unlink_id[of a l]
        keep[of l p n] unlinked_parent[of p a ?c n h] by auto
    with b n rootr roots(2) Node.prems(4) show ?thesis by auto
  next
    case inl
    have b: "b = parent_in a l" using Node.prems(7) inl by simp
    have c: "?c = 0 \<or> ?c \<in> addrs l" using child_ptr_in[OF n(6) inl(1) Node.prems(6)] .
    from Node.IH(1)[OF n(6) _ inl(1) _ _ Node.prems(6) b] obtain nb where
      nb: "b \<in> addrs l" "b \<noteq> a" "h b = Some nb" "sn_m_left nb = a \<or> sn_m_right nb = a"
      "repr (unlinked a b nb ?c h) (sn_m_left n) p (unlink a l)"
      using ap Node.prems(5) inl(2) roots(1) by auto
    have out: "x \<notin> addrs r \<and> x \<noteq> p" if "x \<in> addrs l" for x using that ap n(2) by auto
    have "repr (unlinked a b nb ?c h) (sn_m_right n) p r"
      using keep[of r b nb] out[OF inl(1)] out[OF nb(1)] c out n(7) repr_addrs[OF n(7)] by metis
    moreover have "unlinked a b nb ?c h p = Some n"
      using unlinked_other[of p a b ?c nb h] out[OF inl(1)] out[OF nb(1)] c out n(1,3) by metis
    ultimately show ?thesis
      using nb n out[OF inl(1)] unlink_id[of a r] by auto
  next
    case inr
    have b: "b = parent_in a r" using Node.prems(7) inr by simp
    have c: "?c = 0 \<or> ?c \<in> addrs r" using child_ptr_in[OF n(7) inr(1) Node.prems(6)] .
    from Node.IH(2)[OF n(7) _ inr(1) _ _ Node.prems(6) b] obtain nb where
      nb: "b \<in> addrs r" "b \<noteq> a" "h b = Some nb" "sn_m_left nb = a \<or> sn_m_right nb = a"
      "repr (unlinked a b nb ?c h) (sn_m_right n) p (unlink a r)"
      using ap Node.prems(5) inr(4) roots(2) by auto
    have out: "x \<notin> addrs l \<and> x \<noteq> p" if "x \<in> addrs r" for x using that ap n(2) by auto
    have "repr (unlinked a b nb ?c h) (sn_m_left n) p l"
      using keep[of l b nb] out[OF inr(1)] out[OF nb(1)] c out n(6) repr_addrs[OF n(6)] by metis
    moreover have "unlinked a b nb ?c h p = Some n"
      using unlinked_other[of p a b ?c nb h] out[OF inr(1)] out[OF nb(1)] c out n(1,3) by metis
    ultimately show ?thesis
      using nb n out[OF inr(1)] unlink_id[of a l] by auto
  qed
qed simp

subsection \<open>Searching\<close>

fun t_min :: "nat \<Rightarrow> ('a \<times> nat) tree \<Rightarrow> nat \<times> nat" where
  "t_min par Leaf = (0, par)"
| "t_min par (Node l xa r) = (if l = Leaf then (snd xa, par) else t_min (snd xa) l)"

lemma min_impl_tree:
  "repr (ss_nodes s) p q t \<Longrightarrow> size t \<le> fuel \<Longrightarrow>
   SortedSet_min_impl fuel s p par = Inr (t_min par t)"
proof (induction t arbitrary: p q par fuel)
  case Leaf
  then show ?case by (subst SortedSet_min_impl.simps) simp
next
  case (Node l xa r)
  obtain n where n: "ss_nodes s p = Some n" "p = snd xa" "p \<noteq> 0"
    "repr (ss_nodes s) (sn_m_left n) p l" using Node.prems(1) by auto
  have "SortedSet_min_impl (fuel - 1) s (sn_m_left n) p = Inr (t_min p l)"
    using Node.prems(2) n(4) by (intro Node.IH(1)) auto
  then show ?case
    using n Node.prems(2) repr_null[OF n(4)] by (subst SortedSet_min_impl.simps) auto
qed

lemma t_min_hd: "t \<noteq> Leaf \<Longrightarrow> fst (t_min par t) = snd (hd (inorder t))"
  by (induction t arbitrary: par) auto

lemma t_min_parent:
  "t \<noteq> Leaf \<Longrightarrow> apart t \<Longrightarrow> 0 \<notin> addrs t \<Longrightarrow> fst (t_min par t) \<in> addrs t \<and>
   snd (t_min par t) = (if fst (t_min par t) = root_addr t then par else parent_in (fst (t_min par t)) t)"
proof (induction t arbitrary: par)
  case (Node l xa r)
  show ?case
  proof (cases "l = Leaf")
    case False
    let ?m = "fst (t_min (snd xa) l)"
    have m: "?m \<in> addrs l" using Node.IH(1)[OF False, of "snd xa"] Node.prems by auto
    moreover have "0 \<notin> addrs l" using Node.prems(3) by simp
    then have "?m \<noteq> 0" using m by metis
    then have "?m \<noteq> root_addr r"
      using m Node.prems(2) by (cases r) auto
    ultimately show ?thesis using Node.IH(1)[OF False, of "snd xa"] Node.prems False by auto
  qed simp
qed simp

lemma card_addrs: "apart t \<Longrightarrow> finite (addrs t) \<and> card (addrs t) = size t"
  by (induction t) (auto simp: card_Un_disjoint)

lemma one_child_notin: "a \<notin> addrs t \<Longrightarrow> one_child a t"
  by (induction t) auto

lemma t_min_one_child: "t \<noteq> Leaf \<Longrightarrow> apart t \<Longrightarrow> 0 \<notin> addrs t \<Longrightarrow> one_child (fst (t_min par t)) t"
proof (induction t arbitrary: par)
  case (Node l xa r)
  show ?case
  proof (cases "l = Leaf")
    case True
    then show ?thesis using Node.prems by (auto intro!: one_child_notin)
  next
    case False
    let ?m = "fst (t_min (snd xa) l)"
    have "?m \<in> addrs l" using t_min_parent[OF False, of "snd xa"] Node.prems by auto
    then have "?m \<noteq> snd xa" "?m \<notin> addrs r" using Node.prems(2) by auto
    moreover have "one_child ?m l" using Node.IH(1)[OF False, of "snd xa"] Node.prems by auto
    ultimately show ?thesis using False by (auto intro!: one_child_notin)
  qed
qed simp

lemma map_tree_revalue [simp]:
  "map_tree (revalue a v) t = Leaf \<longleftrightarrow> t = Leaf"
  "root_addr (map_tree (revalue a v) t) = root_addr t"
  "parent_in b (map_tree (revalue a v) t) = parent_in b t"
  "one_child b (map_tree (revalue a v) t) = one_child b t"
proof -
  show *: "map_tree (revalue a v) t = Leaf \<longleftrightarrow> t = Leaf" for t by (cases t) auto
  show r: "root_addr (map_tree (revalue a v) t) = root_addr t" for t by (cases t) auto
  show "parent_in b (map_tree (revalue a v) t) = parent_in b t"
    by (induction t) (auto simp: r)
  show "one_child b (map_tree (revalue a v) t) = one_child b t"
    by (induction t) (auto simp: *)
qed

lemma two_children:
  assumes "repr h p q t" and "apart t" and "0 \<notin> addrs t" and "a \<in> addrs t" and "h a = Some n"
    and "sn_m_left n \<noteq> 0" and "sn_m_right n \<noteq> 0"
  shows "\<exists>rs. repr h (sn_m_right n) a rs \<and> size rs \<le> size t \<and> rs \<noteq> Leaf \<and>
    (let m = fst (t_min a rs) in
       m \<in> addrs t \<and> m \<noteq> root_addr t \<and> m \<noteq> a \<and> one_child m t \<and> snd (t_min a rs) = parent_in m t \<and>
       (\<exists>us x y vs. inorder t = us @ (x, a) # (y, m) # vs))"
  using assms
proof (induction t arbitrary: p q)
  case (Node l xb r)
  obtain k where k: "h p = Some k" "p = snd xb" "p \<noteq> 0"
    "repr h (sn_m_left k) p l" "repr h (sn_m_right k) p r" using Node.prems(1) by auto
  note ap = Node.prems(2)[simplified] and nz = Node.prems(3)[simplified]
  have root: "m \<noteq> root_addr s" if "m \<in> addrs u" "u = l \<and> s = r \<or> u = r \<and> s = l" for m u s
    using that ap nz root_addr_in[of s] by (cases s) auto
  consider "a = p" | "a \<in> addrs l" | "a \<in> addrs r" using Node.prems(4) k(2) by auto
  then show ?case
  proof cases
    case 1
    then have n: "n = k" using k(1) Node.prems(5) by simp
    have r: "r \<noteq> Leaf" using k(5) Node.prems(7) n by auto
    let ?m = "fst (t_min p r)"
    have m: "?m \<in> addrs r" "snd (t_min p r) = (if ?m = root_addr r then p else parent_in ?m r)"
      using t_min_parent[OF r, of p] ap nz by auto
    obtain y vs where vs: "inorder r = (y, ?m) # vs"
      using t_min_hd[OF r, of p] r by (cases "inorder r") (auto simp: prod_eq_iff)
    have "?m \<notin> addrs l" "?m \<noteq> p" using m(1) ap k(2) by auto
    moreover have "\<exists>us x y vs'. inorder (Node l xb r) = us @ (x, p) # (y, ?m) # vs'"
      using vs k(2) by (intro exI[of _ "inorder l"] exI[of _ "fst xb"] exI[of _ y] exI[of _ vs]) simp
    ultimately show ?thesis
      using 1 n k r m root[of ?m r l] t_min_one_child[OF r, of p] ap nz
      by (intro exI[of _ r]) (auto simp: Let_def one_child_notin prod_eq_iff)
  next
    case 2
    then obtain rs where rs: "repr h (sn_m_right n) a rs" "size rs \<le> size l" "rs \<noteq> Leaf"
      "let m = fst (t_min a rs) in
       m \<in> addrs l \<and> m \<noteq> root_addr l \<and> m \<noteq> a \<and> one_child m l \<and> snd (t_min a rs) = parent_in m l \<and>
       (\<exists>us x y vs. inorder l = us @ (x, a) # (y, m) # vs)"
      using Node.IH(1)[OF k(4) _ _ 2] ap nz Node.prems(5-7) by blast
    let ?m = "fst (t_min a rs)"
    have m: "?m \<in> addrs l" "?m \<noteq> root_addr l" "?m \<noteq> a" "one_child ?m l" "snd (t_min a rs) = parent_in ?m l"
      using rs(4) by (simp_all add: Let_def)
    obtain us x y vs where vs: "inorder l = us @ (x, a) # (y, ?m) # vs" using rs(4) by (auto simp: Let_def)
    have "?m \<noteq> snd xb" "?m \<notin> addrs r" using m(1) ap by auto
    then show ?thesis using rs(1-3) m root[of ?m l r] vs
      by (intro exI[of _ rs]) (auto simp: Let_def one_child_notin)
  next
    case 3
    then obtain rs where rs: "repr h (sn_m_right n) a rs" "size rs \<le> size r" "rs \<noteq> Leaf"
      "let m = fst (t_min a rs) in
       m \<in> addrs r \<and> m \<noteq> root_addr r \<and> m \<noteq> a \<and> one_child m r \<and> snd (t_min a rs) = parent_in m r \<and>
       (\<exists>us x y vs. inorder r = us @ (x, a) # (y, m) # vs)"
      using Node.IH(2)[OF k(5) _ _ 3] ap nz Node.prems(5-7) by blast
    let ?m = "fst (t_min a rs)"
    have m: "?m \<in> addrs r" "?m \<noteq> root_addr r" "?m \<noteq> a" "one_child ?m r" "snd (t_min a rs) = parent_in ?m r"
      using rs(4) by (simp_all add: Let_def)
    obtain us x y vs where vs: "inorder r = us @ (x, a) # (y, ?m) # vs" using rs(4) by (auto simp: Let_def)
    have "\<exists>us x y vs. inorder (Node l xb r) = us @ (x, a) # (y, ?m) # vs"
      using vs by (intro exI[of _ "inorder l @ xb # us"] exI[of _ x] exI[of _ y] exI[of _ vs]) simp
    moreover have "?m \<noteq> snd xb" "?m \<notin> addrs l" using m(1) ap by auto
    ultimately show ?thesis using rs(1-3) m root[of ?m r l]
      by (intro exI[of _ rs]) (auto simp: Let_def one_child_notin simp del: inorder.simps)
  qed
qed simp

lemma one_childI:
  "repr h p q t \<Longrightarrow> apart t \<Longrightarrow> h a = Some n \<Longrightarrow> sn_m_left n = 0 \<or> sn_m_right n = 0 \<Longrightarrow> one_child a t"
proof (induction t arbitrary: p q)
  case (Node l xb r)
  then obtain k where k: "h p = Some k" "p = snd xb"
    "repr h (sn_m_left k) p l" "repr h (sn_m_right k) p r" by auto
  moreover have "l = Leaf \<or> r = Leaf" if "a = p"
    using that k Node.prems(3,4) repr_null[OF k(3)] repr_null[OF k(4)] by auto
  ultimately show ?case using Node by auto
qed simp

subsection \<open>Deleting nodes\<close>

lemma delete_single:
  "ss_nodes s a = Some n \<Longrightarrow> sn_m_left n = 0 \<Longrightarrow> sn_m_right n = 0 \<Longrightarrow> a \<noteq> 0 \<Longrightarrow> 0 < fuel \<Longrightarrow>
   Node_delete fuel s a = Inr (s\<lparr>ss_nodes := (ss_nodes s)(a := None)\<rparr>)"
  by (subst Node_delete.simps, simp, subst Node_delete.simps, simp, subst Node_delete.simps, simp)

lemma delete_tree:
  "repr (ss_nodes s) p q t \<Longrightarrow> apart t \<Longrightarrow> size t \<le> fuel \<Longrightarrow>
   Node_delete fuel s p = Inr (s\<lparr>ss_nodes := ss_nodes s |` (- addrs t)\<rparr>)"
proof (induction t arbitrary: s p q fuel)
  case Leaf
  then show ?case by (subst Node_delete.simps) (simp add: restrict_map_def)
next
  case (Node l xa r)
  obtain n where n: "ss_nodes s p = Some n" "p = snd xa" "p \<noteq> 0"
    "repr (ss_nodes s) (sn_m_left n) p l" "repr (ss_nodes s) (sn_m_right n) p r"
    using Node.prems(1) by auto
  note ap = Node.prems(2)[simplified]
  define s1 where "s1 = s\<lparr>ss_nodes := ss_nodes s |` (- addrs l)\<rparr>"
  have "Node_delete (fuel - 1) s (sn_m_left n) = Inr s1"
    unfolding s1_def using Node.prems n(4) by (intro Node.IH(1)) auto
  moreover have "repr (ss_nodes s1) (sn_m_right n) p r = repr (ss_nodes s) (sn_m_right n) p r"
    using ap by (intro repr_cong) (auto simp: s1_def restrict_map_def)
  then have "Node_delete (fuel - 1) s1 (sn_m_right n) = Inr (s1\<lparr>ss_nodes := ss_nodes s1 |` (- addrs r)\<rparr>)"
    using Node.prems n(5) by (intro Node.IH(2)) auto
  moreover have "(ss_nodes s |` (- addrs l) |` (- addrs r))(p := None) = ss_nodes s |` (- addrs (Node l xa r))"
    using n(2) by (auto simp: restrict_map_def fun_eq_iff)
  ultimately show ?case
    using n Node.prems(3) by (subst Node_delete.simps) (simp add: s1_def)
qed

lemma one_childD:
  "repr h p q t \<Longrightarrow> one_child a t \<Longrightarrow> a \<in> addrs t \<Longrightarrow> h a = Some n \<Longrightarrow> sn_m_left n = 0 \<or> sn_m_right n = 0"
proof (induction t arbitrary: p q)
  case (Node l xb r)
  then obtain k where k: "h p = Some k" "p = snd xb"
    "repr h (sn_m_left k) p l" "repr h (sn_m_right k) p r" by auto
  consider "a = p" | "a \<in> addrs l" | "a \<in> addrs r" using Node.prems(3) k(2) by auto
  then show ?case using Node k by cases auto
qed simp

lemma unlink_shape:
  "apart t \<Longrightarrow> one_child a t \<Longrightarrow> a \<in> addrs t \<Longrightarrow>
   apart (unlink a t) \<and> addrs (unlink a t) = addrs t - {a} \<and> size t = Suc (size (unlink a t))"
proof (induction t)
  case (Node l xb r)
  consider "a = snd xb" | "a \<in> addrs l" "a \<noteq> snd xb" "a \<notin> addrs r"
    | "a \<in> addrs r" "a \<noteq> snd xb" "a \<notin> addrs l" using Node.prems by auto
  then show ?case using Node by cases (auto simp: unlink_id)
qed simp

text \<open>What \<^verbatim>\<open>remove_impl\<close> does to the nodes.\<close>

lemma child_not_parent:
  "repr h p q t \<Longrightarrow> apart t \<Longrightarrow> a \<in> addrs t \<Longrightarrow> h a = Some n \<Longrightarrow> h b = Some nb \<Longrightarrow>
   sn_m_left nb = a \<or> sn_m_right nb = a \<Longrightarrow> b \<in> addrs t \<Longrightarrow> child_ptr n \<noteq> b"
proof (induction t arbitrary: p q)
  case (Node l xb r)
  then obtain k where k: "h p = Some k" "p = snd xb" "p \<noteq> 0"
    "repr h (sn_m_left k) p l" "repr h (sn_m_right k) p r" by auto
  note ap = Node.prems(2)[simplified]
  have z: "0 \<notin> addrs l" "0 \<notin> addrs r" using repr_addrs[OF k(4), of 0] repr_addrs[OF k(5), of 0] by auto
  have subl: "child_ptr n = 0 \<or> child_ptr n \<in> addrs l" if "a \<in> addrs l"
    using child_ptr_in[OF k(4) that Node.prems(4)] .
  have subr: "child_ptr n = 0 \<or> child_ptr n \<in> addrs r" if "a \<in> addrs r"
    using child_ptr_in[OF k(5) that Node.prems(4)] .
  have dl: "a = 0 \<or> a \<in> addrs l" if "b \<in> addrs l"
    using repr_children[OF k(4) that Node.prems(5)] Node.prems(6) by auto
  have dr: "a = 0 \<or> a \<in> addrs r" if "b \<in> addrs r"
    using repr_children[OF k(5) that Node.prems(5)] Node.prems(6) by auto
  have a0: "a \<noteq> 0" using repr_addrs[OF Node.prems(1,3)] by simp
  have bp: "a \<noteq> p" if "b = p"
  proof
    assume "a = p"
    then have "sn_m_left k = p \<or> sn_m_right k = p" using that Node.prems(5,6) k(1) by auto
    then show False
      using repr_root_addr[OF k(4)] repr_root_addr[OF k(5)] k(2,3) ap by auto
  qed
  have b0: "b \<noteq> 0" using repr_addrs[OF Node.prems(1,7)] by simp
  consider "a = p" | "a \<in> addrs l" | "a \<in> addrs r" using Node.prems(3) k(2) by auto
  then show ?case
  proof cases
    case 1
    then have "b \<noteq> p" using bp by auto
    then have "b \<in> addrs l \<or> b \<in> addrs r" using Node.prems(7) k(2) by auto
    then show ?thesis using dl dr a0 1 k(2) ap by auto
  next
    case 2
    then have "b \<notin> addrs r" using dr a0 ap by auto
    then show ?thesis
      using 2 subl Node.IH(1)[OF k(4) _ 2 Node.prems(4-6)] ap Node.prems(7) k(2) b0 by auto
  next
    case 3
    then have "b \<notin> addrs l" using dl a0 ap by auto
    then show ?thesis
      using 3 subr Node.IH(2)[OF k(5) _ 3 Node.prems(4-6)] ap Node.prems(7) k(2) b0 by auto
  qed
qed simp

lemma child_not_self: "repr h p q t \<Longrightarrow> apart t \<Longrightarrow> a \<in> addrs t \<Longrightarrow> h a = Some n \<Longrightarrow> child_ptr n \<noteq> a"
proof (induction t arbitrary: p q)
  case (Node l xb r)
  then obtain k where k: "h p = Some k" "p = snd xb" "p \<noteq> 0"
    "repr h (sn_m_left k) p l" "repr h (sn_m_right k) p r" by auto
  consider "a = p" | "a \<in> addrs l" | "a \<in> addrs r" using Node.prems(3) k(2) by auto
  then show ?case
  proof cases
    case 1
    then have "child_ptr n = sn_m_left k \<or> child_ptr n = sn_m_right k"
      using k(1) Node.prems(4) by (auto simp: child_ptr_def)
    then show ?thesis
      using 1 k Node.prems(2) repr_root_addr[OF k(4)] repr_root_addr[OF k(5)] by auto
  qed (use Node k in auto)
qed simp

lemma remove_impl_root:
  assumes "ss_nodes s a = Some na" and "sn_m_left na = 0 \<or> sn_m_right na = 0" and "a \<noteq> 0"
    and "0 < ss_fresh s"
  shows "SortedSet_remove_impl s a 0 = Inr (s\<lparr>ss_m_root := child_ptr na,
    ss_nodes := (ss_nodes s)(a := None), ss_m_size := ss_m_size s - 1\<rparr>)"
  using assms
  by (auto simp: SortedSet_remove_impl_def set_m_parent_def delete_single child_ptr_def put_node_def)

lemma remove_impl_inner:
  assumes a: "ss_nodes s a = Some na" "sn_m_left na = 0 \<or> sn_m_right na = 0" "a \<noteq> 0"
    and b: "ss_nodes s b = Some nb" "sn_m_left nb = a \<or> sn_m_right nb = a" "b \<noteq> 0" "a \<noteq> b"
    and c: "c = child_ptr na" "c = 0 \<or> ss_nodes s c \<noteq> None \<and> c \<noteq> a \<and> c \<noteq> b"
    and fresh: "0 < ss_fresh s"
  shows "SortedSet_remove_impl s a b = Inr (s\<lparr>ss_nodes := unlinked a b nb c (ss_nodes s),
    ss_m_size := ss_m_size s - 1\<rparr>)"
proof -
  define na' where "na' = na\<lparr>sn_m_parent := 0\<rparr>"
  define nb' where "nb' = (if sn_m_left nb = a then nb\<lparr>sn_m_left := c\<rparr> else nb\<lparr>sn_m_right := c\<rparr>)"
  define h' where "h' = with_parent c b ((ss_nodes s)(a \<mapsto> na', b \<mapsto> nb'))"
  have h'a: "h' a = Some na'" using a(3) b(4) c(2) by (auto simp: h'_def)
  have "Node_replace_child s b a c = Inr (s\<lparr>ss_nodes := h'\<rparr>)"
    using a b c(2) by (auto simp: Node_replace_child_def set_m_parent_def put_node_def
        na'_def nb'_def h'_def with_parent_def node_at_def)
  moreover have "h'(a := None) = unlinked a b nb c (ss_nodes s)"
    using b(4) c(2) by (auto simp: h'_def unlinked_def nb'_def with_parent_def fun_eq_iff)
  ultimately show ?thesis
    using a b c fresh h'a
    by (auto simp: SortedSet_remove_impl_def set_m_parent_def delete_single child_ptr_def put_node_def
        na'_def)
qed

locale keyed_order =
  fixes lt gt :: "'a order" and key :: "'a \<Rightarrow> 'k::linorder"
  assumes lt_key: "lt a b \<longleftrightarrow> key a < key b" and gt_key: "gt a b \<longleftrightarrow> key b < key a"
begin

definition sorted_keys :: "'a list \<Rightarrow> bool" where
  "sorted_keys xs \<longleftrightarrow> sorted_wrt (\<lambda>x y. key x < key y) xs"

fun t_search :: "'a \<Rightarrow> nat \<Rightarrow> ('a \<times> nat) tree \<Rightarrow> nat \<times> nat" where
  "t_search v par Leaf = (0, par)"
| "t_search v par (Node l xa r) =
     (if key v < key (fst xa) then t_search v (snd xa) l
      else if key (fst xa) < key v then t_search v (snd xa) r
      else (snd xa, par))"

lemma search_impl_tree:
  "repr (ss_nodes s) p q t \<Longrightarrow> size t \<le> fuel \<Longrightarrow>
   SortedSet_search_impl lt gt fuel s v par p = Inr (t_search v par t)"
proof (induction t arbitrary: p q par fuel)
  case Leaf
  then show ?case by (subst SortedSet_search_impl.simps) simp
next
  case (Node l xa r)
  obtain n where n: "ss_nodes s p = Some n" "p = snd xa" "p \<noteq> 0" "sn_m_value n = fst xa"
    "repr (ss_nodes s) (sn_m_left n) p l" "repr (ss_nodes s) (sn_m_right n) p r"
    using Node.prems(1) by auto
  have "SortedSet_search_impl lt gt (fuel - 1) s v p (sn_m_left n) = Inr (t_search v p l)"
    "SortedSet_search_impl lt gt (fuel - 1) s v p (sn_m_right n) = Inr (t_search v p r)"
    using Node.prems(2) n(5,6) by (auto intro!: Node.IH)
  then show ?case
    using n Node.prems(2) lt_key gt_key by (subst SortedSet_search_impl.simps) auto
qed

lemma sorted_keys_node:
  "sorted_keys (vals (Node l xa r)) \<longleftrightarrow> sorted_keys (vals l) \<and> sorted_keys (vals r) \<and>
     (\<forall>x \<in> set (vals l). key x < key (fst xa)) \<and> (\<forall>x \<in> set (vals r). key (fst xa) < key x) \<and>
     (\<forall>x \<in> set (vals l). \<forall>y \<in> set (vals r). key x < key y)"
  by (auto simp: sorted_keys_def sorted_wrt_append)

text \<open>A search either finds the element with the key or ends at the place where it belongs.\<close>

lemma t_search_found:
  "sorted_keys (vals t) \<Longrightarrow> (x, a) \<in> set (inorder t) \<Longrightarrow> key x = key v \<Longrightarrow> apart t \<Longrightarrow> 0 \<notin> addrs t \<Longrightarrow>
   t_search v par t = (a, if a = root_addr t then par else parent_in a t)"
proof (induction t arbitrary: par)
  case (Node l xb r)
  note sk = Node.prems(1)[unfolded sorted_keys_node]
  have in_addrs: "b \<in> addrs s" if "(y, b) \<in> set (inorder s)" for y b and s :: "('a \<times> nat) tree"
    using that by (force simp flip: addrs_inorder)
  have root: "b \<noteq> root_addr s" if "b \<in> addrs t" "t = l \<and> s = r \<or> t = r \<and> s = l"
    for b s t using that Node.prems(4,5) root_addr_in[of s] by (cases s) auto
  consider "(x, a) = xb" | "(x, a) \<in> set (inorder l)" | "(x, a) \<in> set (inorder r)"
    using Node.prems(2) by auto
  then show ?case
  proof cases
    case 1
    then show ?thesis using Node.prems(3) by (cases xb) auto
  next
    case 2
    then have "x \<in> set (vals l)" by force
    then have "key v < key (fst xb)" using sk Node.prems(3) by metis
    moreover have "a \<in> addrs l" using in_addrs 2 .
    ultimately show ?thesis
      using Node.IH(1)[OF _ 2 Node.prems(3)] sk Node.prems(4,5) root[of a l r] by auto
  next
    case 3
    then have "x \<in> set (vals r)" by force
    then have "key (fst xb) < key v" using sk Node.prems(3) by metis
    moreover have "a \<in> addrs r" using in_addrs 3 .
    ultimately show ?thesis
      using Node.IH(2)[OF _ 3 Node.prems(3)] sk Node.prems(4,5) root[of a r l] by auto
  qed
qed simp

fun t_insert :: "'a \<Rightarrow> nat \<Rightarrow> ('a \<times> nat) tree \<Rightarrow> ('a \<times> nat) tree" where
  "t_insert v a Leaf = Node Leaf (v, a) Leaf"
| "t_insert v a (Node l xb r) =
     (if key v < key (fst xb) then Node (t_insert v a l) xb r else Node l xb (t_insert v a r))"

text \<open>The abstract operations on lists sorted by key.\<close>

definition put_sorted :: "'a \<Rightarrow> 'a list \<Rightarrow> 'a list" where
  "put_sorted v xs = takeWhile (\<lambda>x. key x < key v) xs @ v # dropWhile (\<lambda>x. key x \<le> key v) xs"

lemma put_sorted_sorted: "sorted_keys xs \<Longrightarrow> sorted_keys (put_sorted v xs)"
proof (induction xs)
  case Nil
  then show ?case by (simp add: put_sorted_def sorted_keys_def)
next
  case (Cons x xs)
  have sub: "set (put_sorted v xs) \<subseteq> insert v (set xs)"
    by (auto simp: put_sorted_def dest: set_takeWhileD set_dropWhileD)
  have xs: "sorted_keys xs" "\<forall>y \<in> set xs. key x < key y" using Cons.prems by (auto simp: sorted_keys_def)
  have drop: "dropWhile (\<lambda>x. key x \<le> key v) xs = xs" if "key v \<le> key x"
    using that xs(2) by (cases xs) (auto simp: not_le)
  consider "key x < key v" | "key x = key v" | "key v < key x" by (rule linorder_cases)
  then show ?case
  proof cases
    case 1
    then have "put_sorted v (x # xs) = x # put_sorted v xs" by (simp add: put_sorted_def)
    then show ?thesis using 1 Cons.IH[OF xs(1)] xs(2) sub by (auto simp: sorted_keys_def)
  next
    case 2
    then show ?thesis using drop xs by (simp add: put_sorted_def sorted_keys_def)
  next
    case 3
    then show ?thesis using Cons.prems by (auto simp: put_sorted_def sorted_keys_def not_le)
  qed
qed

lemma put_sorted_append:
  "\<forall>x \<in> set xs. key x < key v \<Longrightarrow> put_sorted v (xs @ ys) = xs @ put_sorted v ys"
  by (induction xs) (auto simp: put_sorted_def)

lemma put_sorted_above:
  assumes "\<forall>y \<in> set ys. key v < key y"
  shows "put_sorted v (xs @ ys) = put_sorted v xs @ ys"
proof -
  have "dropWhile (\<lambda>x. key x \<le> key v) ys = ys" "takeWhile (\<lambda>x. key x < key v) ys = []"
    using assms by (cases ys; auto)+
  then have "dropWhile (\<lambda>x. key x \<le> key v) (xs @ ys) = dropWhile (\<lambda>x. key x \<le> key v) xs @ ys"
    "takeWhile (\<lambda>x. key x < key v) (xs @ ys) = takeWhile (\<lambda>x. key x < key v) xs"
    by (induction xs) auto
  then show ?thesis by (simp add: put_sorted_def)
qed

lemma t_search_new:
  "sorted_keys (vals t) \<Longrightarrow> \<forall>x \<in> set (vals t). key x \<noteq> key v \<Longrightarrow>
   fst (t_search v par t) = 0 \<and> vals (t_insert v a t) = put_sorted v (vals t)"
proof (induction t arbitrary: par)
  case Leaf
  then show ?case by (simp add: put_sorted_def)
next
  case (Node l xb r)
  note sk = Node.prems(1)[unfolded sorted_keys_node]
  show ?case
  proof (cases "key v < key (fst xb)")
    case True
    have "put_sorted v (vals l @ fst xb # vals r) = put_sorted v (vals l) @ fst xb # vals r"
      using True sk by (intro put_sorted_above) auto
    then show ?thesis using True Node sk by auto
  next
    case False
    then have lt: "key (fst xb) < key v" using Node.prems(2) by (auto simp: not_less_iff_gr_or_eq)
    have "put_sorted v ((vals l @ [fst xb]) @ vals r) = (vals l @ [fst xb]) @ put_sorted v (vals r)"
      using lt sk by (intro put_sorted_append) (auto intro: less_trans)
    then show ?thesis using False lt Node sk by auto
  qed
qed

lemma addrs_t_insert [simp]: "addrs (t_insert v a t) = insert a (addrs t)"
  by (induction t) auto

lemma apart_t_insert: "apart t \<Longrightarrow> a \<notin> addrs t \<Longrightarrow> apart (t_insert v a t)"
  by (induction t) auto

lemma repr_t_insert:
  assumes "repr h p q t" and "apart t" and "t \<noteq> Leaf" and "a \<notin> addrs t" and "a \<noteq> 0"
    and "\<forall>x \<in> set (vals t). key x \<noteq> key v" and "snd (t_search v par t) = b"
  shows "\<exists>n. h b = Some n \<and> b \<in> addrs t \<and>
     (if key v < key (sn_m_value n)
      then sn_m_left n = 0 \<and>
        repr (h(b \<mapsto> n\<lparr>sn_m_left := a\<rparr>, a \<mapsto> (Node_new v)\<lparr>sn_m_parent := b\<rparr>)) p q (t_insert v a t)
      else key (sn_m_value n) < key v \<and> sn_m_right n = 0 \<and>
        repr (h(b \<mapsto> n\<lparr>sn_m_right := a\<rparr>, a \<mapsto> (Node_new v)\<lparr>sn_m_parent := b\<rparr>)) p q (t_insert v a t))"
  using assms
proof (induction t arbitrary: p q par)
  case (Node l xb r)
  obtain n where n: "h p = Some n" "p = snd xb" "p \<noteq> 0" "sn_m_value n = fst xb" "sn_m_parent n = q"
    "repr h (sn_m_left n) p l" "repr h (sn_m_right n) p r" using Node.prems(1) by auto
  have keep: "repr (h(c \<mapsto> m, a \<mapsto> m')) u v s = repr h u v s"
    if "c \<notin> addrs s" "a \<notin> addrs s" for c m m' u v s
    using that by (intro repr_cong) auto
  have keep1: "repr (h(c \<mapsto> m, a \<mapsto> m')) u v s" if "repr h u v s" "c \<notin> addrs s" "a \<notin> addrs s"
    for c m m' u v s using keep that by blast
  show ?case
  proof (cases "key v < key (fst xb)")
    case True
    show ?thesis
    proof (cases "l = Leaf")
      case l: True
      then have b: "b = p" using Node.prems(7) True n(2) by simp
      have "repr (h(p \<mapsto> n\<lparr>sn_m_left := a\<rparr>, a \<mapsto> (Node_new v)\<lparr>sn_m_parent := p\<rparr>)) (sn_m_right n) p r"
        using n Node.prems(2,4) by (intro keep1) auto
      then show ?thesis
        using b True l n Node.prems(4,5) by (auto simp: Node_new_def)
    next
      case False
      then have "snd (t_search v p l) = b" using Node.prems(7) True n(2) by simp
      from Node.IH(1)[OF n(6) _ False _ Node.prems(5) _ this] Node.prems(2,4,6)
      obtain m where m: "h b = Some m" "b \<in> addrs l"
        "if key v < key (sn_m_value m)
         then sn_m_left m = 0 \<and>
           repr (h(b \<mapsto> m\<lparr>sn_m_left := a\<rparr>, a \<mapsto> (Node_new v)\<lparr>sn_m_parent := b\<rparr>)) (sn_m_left n) p (t_insert v a l)
         else key (sn_m_value m) < key v \<and> sn_m_right m = 0 \<and>
           repr (h(b \<mapsto> m\<lparr>sn_m_right := a\<rparr>, a \<mapsto> (Node_new v)\<lparr>sn_m_parent := b\<rparr>)) (sn_m_left n) p (t_insert v a l)"
        by auto
      have "b \<notin> addrs r" "b \<noteq> p" "a \<notin> addrs r" "a \<noteq> p" using m(2) Node.prems(2,4) n(2) by auto
      then show ?thesis
        using m True n keep1[OF n(7), of b] by (auto split: if_splits)
    qed
  next
    case False
    then have lt: "key (fst xb) < key v" using Node.prems(6) by (auto simp: not_less_iff_gr_or_eq)
    show ?thesis
    proof (cases "r = Leaf")
      case r: True
      then have b: "b = p" using Node.prems(7) False lt n(2) by simp
      have "repr (h(p \<mapsto> n\<lparr>sn_m_right := a\<rparr>, a \<mapsto> (Node_new v)\<lparr>sn_m_parent := p\<rparr>)) (sn_m_left n) p l"
        using n Node.prems(2,4) by (intro keep1) auto
      then show ?thesis
        using b False lt r n Node.prems(4,5) by (auto simp: Node_new_def)
    next
      case r: False
      then have "snd (t_search v p r) = b" using Node.prems(7) False lt n(2) by simp
      from Node.IH(2)[OF n(7) _ r _ Node.prems(5) _ this] Node.prems(2,4,6)
      obtain m where m: "h b = Some m" "b \<in> addrs r"
        "if key v < key (sn_m_value m)
         then sn_m_left m = 0 \<and>
           repr (h(b \<mapsto> m\<lparr>sn_m_left := a\<rparr>, a \<mapsto> (Node_new v)\<lparr>sn_m_parent := b\<rparr>)) (sn_m_right n) p (t_insert v a r)
         else key (sn_m_value m) < key v \<and> sn_m_right m = 0 \<and>
           repr (h(b \<mapsto> m\<lparr>sn_m_right := a\<rparr>, a \<mapsto> (Node_new v)\<lparr>sn_m_parent := b\<rparr>)) (sn_m_right n) p (t_insert v a r)"
        by auto
      have "b \<notin> addrs l" "b \<noteq> p" "a \<notin> addrs l" "a \<noteq> p" using m(2) Node.prems(2,4) n(2) by auto
      then show ?thesis
        using m False n keep1[OF n(6), of b] by (auto split: if_splits)
    qed
  qed
qed simp

subsection \<open>The operations on represented sets\<close>

definition shape_rel :: "'a SortedSet \<Rightarrow> ('a \<times> nat) tree \<Rightarrow> bool" where
  "shape_rel s t \<longleftrightarrow> (\<exists>q. repr (ss_nodes s) (ss_m_root s) q t) \<and> apart t \<and> 0 < ss_fresh s \<and>
     (\<forall>a \<in> addrs t. a < ss_fresh s) \<and> dom (ss_nodes s) = addrs t \<and>
     ss_m_size s = of_nat (size t)"

definition set_rel :: "'a SortedSet \<Rightarrow> ('a \<times> nat) tree \<Rightarrow> bool" where
  "set_rel s t \<longleftrightarrow> shape_rel s t \<and> sorted_keys (vals t)"

lemmas set_rel_eq = set_rel_def shape_rel_def

lemma shape_relD:
  assumes "shape_rel s t"
  shows "\<exists>q. repr (ss_nodes s) (ss_m_root s) q t" and "apart t" and "0 \<notin> addrs t"
    and "size t \<le> ss_fresh s" and "0 < ss_fresh s" and "\<forall>a \<in> addrs t. a < ss_fresh s"
    and "dom (ss_nodes s) = addrs t" and "ss_m_size s = of_nat (size t)" and "ss_m_root s = root_addr t"
proof -
  show R: "\<exists>q. repr (ss_nodes s) (ss_m_root s) q t" and ap: "apart t" and "0 < ss_fresh s"
    and less: "\<forall>a \<in> addrs t. a < ss_fresh s" and "dom (ss_nodes s) = addrs t"
    and "ss_m_size s = of_nat (size t)"
    using assms by (simp_all add: shape_rel_def)
  have "addrs t \<subseteq> {..<ss_fresh s}" using less by auto
  then have "card (addrs t) \<le> ss_fresh s" using card_mono[OF finite_lessThan] by fastforce
  then show "size t \<le> ss_fresh s" using card_addrs[OF ap] by simp
  obtain q where q: "repr (ss_nodes s) (ss_m_root s) q t" using R by (elim exE)
  show "ss_m_root s = root_addr t" using repr_root[OF q] .
  show "0 \<notin> addrs t" using repr_addrs[OF q, of 0] by auto
qed

lemma set_relD:
  assumes "set_rel s t"
  shows "\<exists>q. repr (ss_nodes s) (ss_m_root s) q t" and "apart t" and "0 \<notin> addrs t"
    and "size t \<le> ss_fresh s" and "0 < ss_fresh s" and "\<forall>a \<in> addrs t. a < ss_fresh s"
    and "dom (ss_nodes s) = addrs t" and "ss_m_size s = of_nat (size t)" and "sorted_keys (vals t)"
    and "ss_m_root s = root_addr t"
proof -
  have sh: "shape_rel s t" and "sorted_keys (vals t)" using assms by (simp_all add: set_rel_def)
  then show "sorted_keys (vals t)" by simp
qed (fact shape_relD[OF assms[unfolded set_rel_def, THEN conjunct1]])+

lemma search_rel:
  assumes "set_rel s t"
  shows "SortedSet_search_impl lt gt (ss_fresh s) s v 0 (ss_m_root s) = Inr (t_search v 0 t)"
  using set_relD(1,4)[OF assms] search_impl_tree by blast

lemma found_cases:
  assumes "sorted_keys (vals t)"
  obtains (new) "\<forall>x \<in> set (vals t). key x \<noteq> key v"
    | (found) us x a vs where "inorder t = us @ (x, a) # vs" "key x = key v"
        "\<forall>y \<in> set (map fst us). key y < key v" "\<forall>y \<in> set (map fst vs). key v < key y"
proof (cases "\<exists>x \<in> set (vals t). key x = key v")
  case True
  then obtain x a where xa: "(x, a) \<in> set (inorder t)" and k: "key x = key v" by auto
  then obtain us vs where u: "inorder t = us @ (x, a) # vs" by (meson split_list)
  then have "sorted_keys (map fst us @ x # map fst vs)" using assms by simp
  then have "\<forall>y \<in> set (map fst us). key y < key v" "\<forall>y \<in> set (map fst vs). key v < key y"
    using k by (auto simp: sorted_keys_def sorted_wrt_append)
  with u k show ?thesis using found by blast
qed (use new in blast)

lemma put_sorted_found:
  "\<forall>y \<in> set us. key y < key v \<Longrightarrow> \<forall>y \<in> set vs. key v < key y \<Longrightarrow> key x = key v \<Longrightarrow>
   put_sorted v (us @ x # vs) = us @ v # vs"
  using put_sorted_append[of us v "x # vs"] put_sorted_above[of vs v "[x]"]
  by (simp add: put_sorted_def)

lemma apart_inorder: "apart t \<Longrightarrow> distinct (map snd (inorder t))"
proof (induction t)
  case (Node l xa r)
  then show ?case by (auto simp flip: addrs_inorder)
qed simp

lemma revalue_at:
  assumes "apart t" and "inorder t = us @ (x, a) # vs"
  shows "inorder (map_tree (revalue a v) t) = us @ (v, a) # vs"
proof -
  have "distinct (map snd (us @ (x, a) # vs))" using apart_inorder[OF assms(1)] assms(2) by simp
  then have "map (revalue a v) us = us" "map (revalue a v) vs = vs"
    by (auto simp: revalue_def intro!: map_idI split: prod.splits) force+
  moreover have "inorder (map_tree (revalue a v) t) = map (revalue a v) (inorder t)"
    by (induction t) auto
  moreover have "revalue a v (x, a) = (v, a)" by (simp add: revalue_def)
  ultimately show ?thesis using assms(2) by simp
qed

lemma insert_rel:
  assumes rel: "set_rel s t"
  shows "\<exists>s' t'. SortedSet_insert_impl lt gt s v = Inr s' \<and> set_rel s' t' \<and>
     vals t' = put_sorted v (vals t)"
proof -
  note R = set_relD[OF rel]
  obtain q where repr: "repr (ss_nodes s) (ss_m_root s) q t" using R(1) by blast
  show ?thesis
  proof (cases rule: found_cases[OF R(9), of v, case_names new found])
    case (found us x a vs)
    then have xa: "(x, a) \<in> set (inorder t)" by simp
    obtain n where n: "ss_nodes s a = Some n" "sn_m_value n = x" using repr_value[OF repr xa] by blast
    have a: "a \<in> addrs t" using n R(7) by blast
    define s' where "s' = put_node a (n\<lparr>sn_m_value := v\<rparr>) s"
    define t' where "t' = map_tree (revalue a v) t"
    have vals: "vals t' = put_sorted v (vals t)"
      using revalue_at[OF R(2) found(1), of v] found put_sorted_found[of "map fst us" v "map fst vs" x]
      by (simp add: t'_def)
    have "sorted_keys (vals t')"
      using R(9) found revalue_at[OF R(2) found(1), of v]
      by (simp add: t'_def sorted_keys_def sorted_wrt_append)
    then have "set_rel s' t'"
      using R repr_revalue[OF n(1) repr, of v] a
      by (auto simp: set_rel_eq s'_def t'_def)
    moreover have "SortedSet_insert_impl lt gt s v = Inr s'"
      using search_rel[OF rel, of v] t_search_found[OF R(9) xa found(2) R(2,3), of 0] n a R(3)
      by (auto simp: SortedSet_insert_impl_def s'_def)
    ultimately show ?thesis using vals by blast
  next
    case new
    note S = t_search_new[OF R(9) new]
    let ?a = "ss_fresh s" and ?b = "snd (t_search v 0 t)"
    have srch: "SortedSet_search_impl lt gt (ss_fresh s) s v 0 (ss_m_root s) = Inr (0, ?b)"
      using search_rel[OF rel, of v] S[of 0] by (simp add: prod_eq_iff)
    have fresh: "?a \<notin> addrs t" using R(6) by blast
    define t' where "t' = t_insert v ?a t"
    have vals': "vals t' = put_sorted v (vals t)" using S unfolding t'_def by blast
    then have sorted': "sorted_keys (vals t')" using put_sorted_sorted[OF R(9)] by simp
    have dom': "dom (ss_nodes s) \<union> {?a, ?b} = addrs t'" if "?b \<in> addrs t"
      using that R(7) by (auto simp: t'_def)
    have bounds: "\<forall>c \<in> addrs t'. c < ?a + 1" using R(6) by (auto simp: t'_def)
    have apart': "apart t'" using apart_t_insert[OF R(2) fresh] by (simp add: t'_def)
    have size': "size t' = Suc (size t)" unfolding t'_def by (induction t) auto
    show ?thesis
    proof (cases "t = Leaf")
      case True
      let ?s' = "(put_node ?a (Node_new v) (s\<lparr>ss_fresh := ?a + 1\<rparr>))\<lparr>ss_m_root := ?a, ss_m_size := ss_m_size s + 1\<rparr>"
      have "SortedSet_insert_impl lt gt s v = Inr ?s'"
        using srch True by (simp add: SortedSet_insert_impl_def Let_def)
      moreover have "repr (ss_nodes ?s') (ss_m_root ?s') 0 t'"
        using R(5) True by (simp add: t'_def Node_new_def)
      then have "set_rel ?s' t'"
        using R(7,8) True bounds sorted' apart' size' by (auto simp: set_rel_eq t'_def)
      ultimately show ?thesis using vals' by blast
    next
      case False
      have a0: "?a \<noteq> 0" using R(5) by simp
      from repr_t_insert[OF repr R(2) False fresh a0 new refl, of 0] obtain n where
        n: "ss_nodes s ?b = Some n" "?b \<in> addrs t" and
        side: "if key v < key (sn_m_value n)
          then sn_m_left n = 0 \<and> repr ((ss_nodes s)(?b \<mapsto> n\<lparr>sn_m_left := ?a\<rparr>,
              ?a \<mapsto> (Node_new v)\<lparr>sn_m_parent := ?b\<rparr>)) (ss_m_root s) q t'
          else key (sn_m_value n) < key v \<and> sn_m_right n = 0 \<and>
            repr ((ss_nodes s)(?b \<mapsto> n\<lparr>sn_m_right := ?a\<rparr>,
              ?a \<mapsto> (Node_new v)\<lparr>sn_m_parent := ?b\<rparr>)) (ss_m_root s) q t'"
        unfolding t'_def by blast
      have b0: "?b \<noteq> 0" using n(2) R(3) by metis
      define m where "m = (if key v < key (sn_m_value n) then n\<lparr>sn_m_left := ?a\<rparr> else n\<lparr>sn_m_right := ?a\<rparr>)"
      let ?s' = "(put_node ?a ((Node_new v)\<lparr>sn_m_parent := ?b\<rparr>) (put_node ?b m
        (s\<lparr>ss_fresh := ?a + 1\<rparr>)))\<lparr>ss_m_size := ss_m_size s + 1\<rparr>"
      have "SortedSet_insert_impl lt gt s v = Inr ?s'"
        using srch n(1) b0 side lt_key gt_key
        by (auto simp: SortedSet_insert_impl_def Let_def m_def node_at_def split: if_splits)
      moreover have "repr (ss_nodes ?s') (ss_m_root ?s') q t'"
        using side by (simp add: m_def split: if_splits)
      then have "set_rel ?s' t'"
        using R(8) bounds sorted' apart' size' dom'[OF n(2)] by (auto simp: set_rel_eq)
      ultimately show ?thesis using vals' by blast
    qed
  qed
qed

definition drop_key :: "'a \<Rightarrow> 'a list \<Rightarrow> 'a list" where
  "drop_key v xs = filter (\<lambda>x. key x \<noteq> key v) xs"

lemma drop_key_found:
  "\<forall>y \<in> set us. key y < key v \<Longrightarrow> \<forall>y \<in> set vs. key v < key y \<Longrightarrow> key x = key v \<Longrightarrow>
   drop_key v (us @ x # vs) = us @ vs"
proof -
  assume "\<forall>y \<in> set us. key y < key v" "\<forall>y \<in> set vs. key v < key y" "key x = key v"
  then have "filter (\<lambda>x. key x \<noteq> key v) us = us" "filter (\<lambda>x. key x \<noteq> key v) vs = vs"
    by (auto intro!: filter_True)
  then show ?thesis using \<open>key x = key v\<close> by (simp add: drop_key_def)
qed

lemma drop_key_sorted: "sorted_keys xs \<Longrightarrow> sorted_keys (drop_key v xs)"
  by (simp add: drop_key_def sorted_keys_def sorted_wrt_filter)

lemma remove_impl_rel:
  assumes rel: "shape_rel s t" and a: "a \<in> addrs t" and one: "one_child a t"
    and par: "b = (if a = root_addr t then 0 else parent_in a t)"
  shows "\<exists>s'. SortedSet_remove_impl s a b = Inr s' \<and> shape_rel s' (unlink a t) \<and>
     inorder (unlink a t) = filter (\<lambda>xb. snd xb \<noteq> a) (inorder t)"
proof -
  note R = shape_relD[OF rel]
  obtain q where repr: "repr (ss_nodes s) (ss_m_root s) q t" using R(1) by blast
  obtain n where n: "ss_nodes s a = Some n" using repr_addrs[OF repr a] by auto
  have a0: "a \<noteq> 0" using a R(3) by metis
  have le1: "sn_m_left n = 0 \<or> sn_m_right n = 0" using one_childD[OF repr one a n] .
  have inord: "inorder (unlink a t) = filter (\<lambda>xb. snd xb \<noteq> a) (inorder t)"
    using inorder_unlink[OF R(2) one] .
  have U: "apart (unlink a t)" "addrs (unlink a t) = addrs t - {a}" "size t = Suc (size (unlink a t))"
    using unlink_shape[OF R(2) one a] by simp_all
  let ?c = "child_ptr n"
  show ?thesis
  proof (cases "a = root_addr t")
    case True
    obtain l xb r where t: "t = Node l xb r" using a by (cases t) auto
    let ?s' = "s\<lparr>ss_m_root := ?c, ss_nodes := (ss_nodes s)(a := None), ss_m_size := ss_m_size s - 1\<rparr>"
    have "SortedSet_remove_impl s a b = Inr ?s'"
      using remove_impl_root[OF n le1 a0 R(5)] par True by simp
    moreover have "repr ((ss_nodes s)(a := None)) ?c a (unlink a t)"
    proof -
      have "repr (ss_nodes s) ?c a (only_child t)"
        using repr_only_child[of "ss_nodes s" "ss_m_root s" q l xb r n] repr n True R(9) one t by auto
      then have "repr (ss_nodes s) ?c a (unlink a t)" using unlink_root[OF True] by simp
      then show ?thesis using U(2) by (subst repr_cong) auto
    qed
    then have "shape_rel ?s' (unlink a t)"
      using R(5-8) U by (auto simp: shape_rel_def)
    ultimately show ?thesis using inord by blast
  next
    case False
    have ap: "a \<noteq> ss_m_root s" using False R(9) by simp
    from repr_unlink[OF repr R(2) a ap one n] False obtain nb where
      nb: "ss_nodes s b = Some nb" "sn_m_left nb = a \<or> sn_m_right nb = a" "b \<in> addrs t" "b \<noteq> a"
      "repr (unlinked a b nb ?c (ss_nodes s)) (ss_m_root s) q (unlink a t)"
      using par by auto
    have b0: "b \<noteq> 0" using nb(3) R(3) by metis
    have c: "?c = 0 \<or> ss_nodes s ?c \<noteq> None \<and> ?c \<noteq> a \<and> ?c \<noteq> b"
      using child_ptr_in[OF repr a n] repr_addrs[OF repr] child_not_self[OF repr R(2) a n]
        child_not_parent[OF repr R(2) a n] nb(1,2) by blast
    let ?s' = "s\<lparr>ss_nodes := unlinked a b nb ?c (ss_nodes s), ss_m_size := ss_m_size s - 1\<rparr>"
    have "SortedSet_remove_impl s a b = Inr ?s'"
      using remove_impl_inner[OF n le1 a0 nb(1,2) b0 _ refl c R(5)] nb(4) by simp
    moreover have "dom (unlinked a b nb ?c (ss_nodes s)) = addrs t - {a}"
      using R(7) nb(1,3,4) by (auto simp: unlinked_def with_parent_def split: option.splits if_splits)
    then have "shape_rel ?s' (unlink a t)"
      using R(5,6,8) U nb(5) by (auto simp: shape_rel_def)
    ultimately show ?thesis using inord by blast
  qed
qed

lemma filter_addr:
  assumes "apart t" and "inorder t = us @ (x, a) # vs"
  shows "filter (\<lambda>xb. snd xb \<noteq> a) (inorder t) = us @ vs"
proof -
  have "distinct (map snd (us @ (x, a) # vs))" using apart_inorder[OF assms(1)] assms(2) by simp
  then have "filter (\<lambda>xb. snd xb \<noteq> a) us = us" "filter (\<lambda>xb. snd xb \<noteq> a) vs = vs"
    by (force intro!: filter_True)+
  then show ?thesis using assms(2) by simp
qed

lemma remove_rel:
  assumes rel: "set_rel s t"
  shows "\<exists>s' t'. SortedSet_remove lt gt s v = Inr s' \<and> set_rel s' t' \<and> vals t' = drop_key v (vals t)"
proof -
  note R = set_relD[OF rel]
  obtain q where repr: "repr (ss_nodes s) (ss_m_root s) q t" using R(1) by blast
  show ?thesis
  proof (cases rule: found_cases[OF R(9), of v, case_names new found])
    case new
    then have "drop_key v (vals t) = vals t" by (auto simp: drop_key_def intro!: filter_True)
    moreover have "SortedSet_remove lt gt s v = Inr s"
      using search_rel[OF rel, of v] t_search_new[OF R(9) new, of 0]
      by (cases "t_search v 0 t") (auto simp: SortedSet_remove_def)
    ultimately show ?thesis using rel by auto
  next
    case (found us x a vs)
    have xa: "(x, a) \<in> set (inorder t)" using found(1) by simp
    obtain n where n: "ss_nodes s a = Some n" "sn_m_value n = x" using repr_value[OF repr xa] by blast
    have a: "a \<in> addrs t" using n R(7) by blast
    have a0: "a \<noteq> 0" using a R(3) by metis
    let ?par = "if a = root_addr t then 0 else parent_in a t"
    have srch: "SortedSet_search_impl lt gt (ss_fresh s) s v 0 (ss_m_root s) = Inr (a, ?par)"
      using search_rel[OF rel, of v] t_search_found[OF R(9) xa found(2) R(2,3), of 0] by simp
    have shape: "shape_rel s t" using rel by (simp add: set_rel_def)
    have sorted': "sorted_keys (drop_key v (vals t))" using drop_key_sorted[OF R(9)] .
    have drop: "drop_key v (vals t) = map fst us @ map fst vs"
      using found drop_key_found[of "map fst us" v "map fst vs" x] by simp
    show ?thesis
    proof (cases "sn_m_left n = 0 \<or> sn_m_right n = 0")
      case True
      have "one_child a t" using one_childI[OF repr R(2) n(1) True] .
      from remove_impl_rel[OF shape a this refl] obtain s' where
        s': "SortedSet_remove_impl s a ?par = Inr s'" "shape_rel s' (unlink a t)"
        "inorder (unlink a t) = filter (\<lambda>xb. snd xb \<noteq> a) (inorder t)" by blast
      have "SortedSet_remove lt gt s v = Inr s'"
        using srch n(1) True s'(1) a0 by (simp add: SortedSet_remove_def)
      moreover have "vals (unlink a t) = drop_key v (vals t)"
        unfolding s'(3) filter_addr[OF R(2) found(1)] drop by simp
      ultimately show ?thesis using s'(2) sorted' by (auto simp: set_rel_def)
    next
      case False
      then have two: "sn_m_left n \<noteq> 0" "sn_m_right n \<noteq> 0" by simp_all
      from two_children[OF repr R(2,3) a n(1) two] obtain rs us' x' y vs' where
        rs: "repr (ss_nodes s) (sn_m_right n) a rs" "size rs \<le> size t" "rs \<noteq> Leaf"
        and m: "fst (t_min a rs) \<in> addrs t" "fst (t_min a rs) \<noteq> root_addr t" "fst (t_min a rs) \<noteq> a"
          "one_child (fst (t_min a rs)) t" "snd (t_min a rs) = parent_in (fst (t_min a rs)) t"
        and split: "inorder t = us' @ (x', a) # (y, fst (t_min a rs)) # vs'"
        by (auto simp: Let_def)
      define mn where "mn = fst (t_min a rs)"
      note m = m[folded mn_def] and split = split[folded mn_def]
      have dist: "distinct (map snd (inorder t))" using apart_inorder[OF R(2)] .
      have eq: "us' = us" "x' = x" "vs = (y, mn) # vs'"
        using dist found(1) split by (auto simp: append_eq_append_conv2 append_eq_Cons_conv Cons_eq_append_conv)
      have minr: "SortedSet_min_impl (ss_fresh s) s (sn_m_right n) a = Inr (mn, parent_in mn t)"
        using min_impl_tree[OF rs(1), of "ss_fresh s" a] rs(2) R(4) m(5)
        by (simp add: mn_def prod_eq_iff)
      have "(y, mn) \<in> set (inorder t)" using split by simp
      then obtain k where k: "ss_nodes s mn = Some k" "sn_m_value k = y" using repr_value[OF repr] by blast
      define s1 where "s1 = put_node a (n\<lparr>sn_m_value := y\<rparr>) s"
      define t1 where "t1 = map_tree (revalue a y) t"
      have ino1: "inorder t1 = us @ (y, a) # (y, mn) # vs'"
        using revalue_at[OF R(2) found(1), of y] eq by (simp add: t1_def)
      have "shape_rel s1 t1"
        using R repr_revalue[OF n(1) repr, of y] a
        by (auto simp: shape_rel_def s1_def t1_def)
      moreover have "mn \<in> addrs t1" "one_child mn t1"
        "parent_in mn t = (if mn = root_addr t1 then 0 else parent_in mn t1)"
        using m(1,2,4) by (simp_all add: t1_def)
      ultimately obtain s' where s': "SortedSet_remove_impl s1 mn (parent_in mn t) = Inr s'"
        "shape_rel s' (unlink mn t1)" "inorder (unlink mn t1) = filter (\<lambda>xb. snd xb \<noteq> mn) (inorder t1)"
        using remove_impl_rel by blast
      have mn0: "mn \<noteq> 0" using m(1) R(3) by metis
      have "SortedSet_remove lt gt s v = Inr s'"
        using srch n(1) two s'(1) a0 minr mn0 k by (simp add: SortedSet_remove_def s1_def)
      moreover have "vals (unlink mn t1) = drop_key v (vals t)"
      proof -
        have "inorder t1 = (us @ [(y, a)]) @ (y, mn) # vs'" using ino1 by simp
        from filter_addr[OF _ this] R(2) show ?thesis
          unfolding s'(3) drop by (simp add: t1_def eq)
      qed
      ultimately show ?thesis using s'(2) sorted' by (auto simp: set_rel_def)
    qed
  qed
qed

lemma clear_rel: "set_rel s t \<Longrightarrow> \<exists>s'. SortedSet_clear s = Inr s' \<and> set_rel s' Leaf"
proof -
  assume rel: "set_rel s t"
  note R = set_relD[OF rel]
  obtain q where repr: "repr (ss_nodes s) (ss_m_root s) q t" using R(1) by blast
  have "ss_nodes s |` (- addrs t) = (\<lambda>_. None)" using R(7) by (force simp: restrict_map_def fun_eq_iff)
  then show ?thesis
    using delete_tree[OF repr R(2,4)] R(5)
    by (auto simp: SortedSet_clear_def set_rel_eq sorted_keys_def)
qed

lemma min_rel:
  assumes rel: "set_rel s t"
  shows "SortedSet_min s = Inr (case vals t of [] \<Rightarrow> None | x # _ \<Rightarrow> Some x)"
proof -
  note R = set_relD[OF rel]
  obtain q where repr: "repr (ss_nodes s) (ss_m_root s) q t" using R(1) by blast
  note m = min_impl_tree[OF repr R(4), of 0]
  show ?thesis
  proof (cases "t = Leaf")
    case True
    then show ?thesis using m by (simp add: SortedSet_min_def value_of_def)
  next
    case False
    then have "inorder t \<noteq> []" by (cases t) auto
    then obtain xa ys where "inorder t = xa # ys" by (meson neq_Nil_conv)
    then obtain x a where i: "inorder t = (x, a) # ys" by (cases xa) simp
    then have "fst (t_min 0 t) = a" using t_min_hd[OF False, of 0] by simp
    moreover obtain n where "ss_nodes s a = Some n" "sn_m_value n = x"
      using repr_value[OF repr, of x a] i by auto
    moreover have "a \<noteq> 0" using \<open>ss_nodes s a = Some n\<close> R(3,7) by (metis domI)
    ultimately show ?thesis using m i
      by (cases "t_min 0 t") (simp add: SortedSet_min_def value_of_def)
  qed
qed

lemma search_value_rel:
  assumes rel: "set_rel s t"
  shows "SortedSet_search lt gt s v = Inr (find (\<lambda>x. key x = key v) (vals t))"
proof -
  note R = set_relD[OF rel]
  obtain q where repr: "repr (ss_nodes s) (ss_m_root s) q t" using R(1) by blast
  show ?thesis
  proof (cases rule: found_cases[OF R(9), of v, case_names new found])
    case new
    then have "find (\<lambda>x. key x = key v) (vals t) = None" by (simp add: find_None_iff)
    then show ?thesis
      using search_rel[OF rel, of v] t_search_new[OF R(9) new, of 0]
      by (cases "t_search v 0 t") (simp add: SortedSet_search_def value_of_def)
  next
    case (found us x a vs)
    have xa: "(x, a) \<in> set (inorder t)" using found(1) by simp
    obtain n where n: "ss_nodes s a = Some n" "sn_m_value n = x" using repr_value[OF repr xa] by blast
    have "a \<noteq> 0" using n R(3,7) by (metis domI)
    moreover have "find (\<lambda>x. key x = key v) (map fst us @ x # map fst vs) = Some x"
      using found(2,3) by (induction us) auto
    ultimately show ?thesis
      using search_rel[OF rel, of v] t_search_found[OF R(9) xa found(2) R(2,3), of 0] n found(1)
      by (simp add: SortedSet_search_def value_of_def)
  qed
qed

end

subsection \<open>Iteration\<close>

lemma split_around:
  "xs @ y # ys = us @ z # vs \<Longrightarrow>
   (\<exists>v1. xs = us @ z # v1 \<and> vs = v1 @ y # ys) \<or> (us = xs \<and> z = y \<and> vs = ys) \<or>
   (\<exists>u1. ys = u1 @ z # vs \<and> us = xs @ y # u1)"
proof (induction xs arbitrary: us)
  case Nil
  then show ?case by (cases us) auto
next
  case (Cons x xs)
  then show ?case by (cases us) auto
qed

lemma next_in_subtree:
  assumes "repr (ss_nodes s) p q t" and "apart t" and "0 \<notin> addrs t" and "size t \<le> ss_fresh s"
    and "inorder t = us @ (x, a) # vs"
  shows "(vs \<noteq> [] \<longrightarrow> InorderIterator_next s a = Inr (snd (hd vs))) \<and>
    (vs = [] \<longrightarrow> (\<exists>n. ss_nodes s a = Some n \<and> sn_m_right n = 0) \<and>
       (\<exists>d \<le> size t. \<forall>k. InorderIterator_climb (k + d) s a = InorderIterator_climb k s p))"
  using assms
proof (induction t arbitrary: p q us vs)
  case (Node l xb r)
  obtain n where n: "ss_nodes s p = Some n" "p = snd xb" "p \<noteq> 0" "sn_m_parent n = q"
    "repr (ss_nodes s) (sn_m_left n) p l" "repr (ss_nodes s) (sn_m_right n) p r"
    using Node.prems(1) by auto
  note ap = Node.prems(2)[simplified] and nz = Node.prems(3)[simplified] and sz = Node.prems(4)[simplified]
  have climb: "InorderIterator_climb (Suc k) s c = (if sn_m_left n = c then Inr c else InorderIterator_climb k s p)"
    if "ss_nodes s c = Some m" "sn_m_parent m = p" for k c m
    using that n(1,3) by (subst InorderIterator_climb.simps) simp
  consider (left) vs1 where "inorder l = us @ (x, a) # vs1" "vs = vs1 @ xb # inorder r"
    | (here) "us = inorder l" "xb = (x, a)" "vs = inorder r"
    | (right) us1 where "inorder r = us1 @ (x, a) # vs" "us = inorder l @ xb # us1"
    using split_around[of "inorder l" xb "inorder r" us "(x, a)" vs] Node.prems(5) by auto
  then show ?case
  proof cases
    case left
    have l: "l \<noteq> Leaf" using left(1) by auto
    from Node.IH(1)[OF n(5) _ _ _ left(1)] ap nz sz have IH:
      "vs1 \<noteq> [] \<Longrightarrow> InorderIterator_next s a = Inr (snd (hd vs1))"
      "vs1 = [] \<Longrightarrow> (\<exists>n. ss_nodes s a = Some n \<and> sn_m_right n = 0) \<and>
        (\<exists>d \<le> size l. \<forall>k. InorderIterator_climb (k + d) s a = InorderIterator_climb k s (sn_m_left n))"
      by auto
    show ?thesis
    proof (cases "vs1 = []")
      case True
      with IH(2) obtain na d where na: "ss_nodes s a = Some na" "sn_m_right na = 0" and d: "d \<le> size l"
        "\<And>k. InorderIterator_climb (k + d) s a = InorderIterator_climb k s (sn_m_left n)" by auto
      obtain m where m: "ss_nodes s (sn_m_left n) = Some m" "sn_m_parent m = p"
        using n(5) l by (cases l) auto
      have "d < ss_fresh s" using d(1) sz by simp
      then obtain k where "ss_fresh s = Suc (d + k)" using less_imp_Suc_add by blast
      then have k: "ss_fresh s = Suc k + d" by simp
      have "InorderIterator_climb (ss_fresh s) s a = Inr (sn_m_left n)"
        unfolding k d(2) using climb[OF m] by simp
      moreover have "a \<noteq> 0" using left(1) nz addrs_inorder[of l] by force
      ultimately show ?thesis using na m n(2,3) left(2) True
        by (simp add: InorderIterator_next_def)
    qed (use IH left(2) in auto)
  next
    case here
    show ?thesis
    proof (cases "r = Leaf")
      case True
      then show ?thesis using here n by (auto intro!: exI[of _ 0])
    next
      case False
      have "SortedSet_min_impl (ss_fresh s) s (sn_m_right n) 0 = Inr (t_min 0 r)"
        using min_impl_tree[OF n(6)] sz by simp
      moreover have "sn_m_right n \<noteq> 0" using repr_null[OF n(6)] False by simp
      moreover have "inorder r \<noteq> []" using False by (cases r) auto
      ultimately show ?thesis using here n t_min_hd[OF False, of 0]
        by (cases "t_min 0 r") (simp add: InorderIterator_next_def)
    qed
  next
    case right
    have r: "r \<noteq> Leaf" using right(1) by auto
    from Node.IH(2)[OF n(6) _ _ _ right(1)] ap nz sz have IH:
      "vs \<noteq> [] \<Longrightarrow> InorderIterator_next s a = Inr (snd (hd vs))"
      "vs = [] \<Longrightarrow> (\<exists>n. ss_nodes s a = Some n \<and> sn_m_right n = 0) \<and>
        (\<exists>d \<le> size r. \<forall>k. InorderIterator_climb (k + d) s a = InorderIterator_climb k s (sn_m_right n))"
      by auto
    show ?thesis
    proof (cases "vs = []")
      case True
      with IH(2) obtain na d where na: "ss_nodes s a = Some na" "sn_m_right na = 0" and d: "d \<le> size r"
        "\<And>k. InorderIterator_climb (k + d) s a = InorderIterator_climb k s (sn_m_right n)" by auto
      obtain m where m: "ss_nodes s (sn_m_right n) = Some m" "sn_m_parent m = p"
        using n(6) r by (cases r) auto
      have "sn_m_right n \<in> addrs r" using repr_root_addr[OF n(6)] repr_null[OF n(6)] r by simp
      then have "sn_m_left n \<noteq> sn_m_right n"
        using repr_root_addr[OF n(5)] repr_null[OF n(5)] ap nz by (metis disjoint_iff)
      then have "InorderIterator_climb (k + Suc d) s a = InorderIterator_climb k s p" for k
        using d(2)[of "Suc k"] climb[OF m, of k] by simp
      then show ?thesis using True na d(1) by (auto intro!: exI[of _ "Suc d"])
    qed (use IH in auto)
  qed
qed simp

lemma next_in_tree:
  assumes "repr (ss_nodes s) p 0 t" and "apart t" and "0 \<notin> addrs t" and "size t \<le> ss_fresh s"
    and "inorder t = us @ (x, a) # vs"
  shows "InorderIterator_next s a = Inr (case vs of [] \<Rightarrow> 0 | (_, b) # _ \<Rightarrow> b)"
proof (cases vs)
  case Nil
  from next_in_subtree[OF assms] Nil obtain n d where n: "ss_nodes s a = Some n" "sn_m_right n = 0"
    and d: "d \<le> size t" "\<And>k. InorderIterator_climb (k + d) s a = InorderIterator_climb k s p" by auto
  obtain m where m: "ss_nodes s p = Some m" "sn_m_parent m = 0"
    using assms(1,5) by (cases t) auto
  have k: "ss_fresh s = (ss_fresh s - d) + d" using d(1) assms(4) by simp
  have "InorderIterator_climb (ss_fresh s) s a = Inr p"
    by (subst k, subst d(2)) (use m in \<open>subst InorderIterator_climb.simps, simp\<close>)
  moreover have "a \<noteq> 0" using assms(3,5) addrs_inorder[of t] by force
  ultimately show ?thesis using n m Nil by (simp add: InorderIterator_next_def)
next
  case (Cons b bs)
  with next_in_subtree[OF assms] show ?thesis by (cases b) simp
qed

lemma iterate_from_tree:
  assumes "repr (ss_nodes s) p 0 t" and "apart t" and "0 \<notin> addrs t" and "size t \<le> ss_fresh s"
    and "inorder t = us @ vs" and "length vs \<le> fuel"
  shows "SortedSet_iterate_from fuel s (case vs of [] \<Rightarrow> 0 | (_, b) # _ \<Rightarrow> b) = Inr (map fst vs)"
  using assms(5,6)
proof (induction vs arbitrary: us fuel)
  case Nil
  then show ?case by (subst SortedSet_iterate_from.simps) simp
next
  case (Cons xa vs)
  obtain x a where xa: "xa = (x, a)" by (cases xa)
  have "(x, a) \<in> set (inorder t)" using Cons.prems(1) xa by simp
  then obtain n where n: "ss_nodes s a = Some n" "sn_m_value n = x" using repr_value[OF assms(1)] by blast
  have "a \<noteq> 0" using assms(3) Cons.prems(1) xa addrs_inorder[of t] by force
  moreover have "InorderIterator_next s a = Inr (case vs of [] \<Rightarrow> 0 | (_, b) # _ \<Rightarrow> b)"
    using next_in_tree[OF assms(1-4)] Cons.prems(1) xa by simp
  moreover have "SortedSet_iterate_from (fuel - 1) s (case vs of [] \<Rightarrow> 0 | (_, b) # _ \<Rightarrow> b) = Inr (map fst vs)"
    using Cons.IH[of "us @ [xa]" "fuel - 1"] Cons.prems by simp
  ultimately show ?case using n xa Cons.prems(2) by (subst SortedSet_iterate_from.simps) simp
qed

lemma iterate_tree:
  assumes "repr (ss_nodes s) (ss_m_root s) 0 t" and "apart t" and "0 \<notin> addrs t" and "size t \<le> ss_fresh s"
  shows "SortedSet_iterate s = Inr (vals t)"
proof -
  have "fst (t_min 0 t) = (case inorder t of [] \<Rightarrow> 0 | (_, b) # _ \<Rightarrow> b)"
    using t_min_hd[of t 0] by (cases t) (auto split: list.splits simp: append_eq_Cons_conv)
  moreover have "length (inorder t) \<le> ss_fresh s" using assms(4) by simp
  ultimately show ?thesis
    using min_impl_tree[OF assms(1,4), of 0] iterate_from_tree[OF assms, of "[]" "inorder t" "ss_fresh s"]
    by (cases "t_min 0 t") (simp add: SortedSet_iterate_def SortedSet_inorder_def)
qed

text \<open>Iterating over a tree whose root still names a node that is gone reads that node.\<close>

lemma next_dangling:
  assumes "repr (ss_nodes s) p q t" and "q \<noteq> 0" and "ss_nodes s q = None"
    and "apart t" and "0 \<notin> addrs t" and "size t < ss_fresh s" and "inorder t = us @ [(x, a)]"
  shows "InorderIterator_next s a = Inl (UNDEFINED ''null or dangling pointer'')"
proof -
  from next_in_subtree[OF assms(1,4,5) _ assms(7)] assms(6) obtain n d where
    n: "ss_nodes s a = Some n" "sn_m_right n = 0" and d: "d \<le> size t"
    and climb: "\<And>k. InorderIterator_climb (k + d) s a = InorderIterator_climb k s p" by auto
  obtain m where m: "ss_nodes s p = Some m" "sn_m_parent m = q" using assms(1,7) by (cases t) auto
  define k where "k = ss_fresh s - Suc d"
  have k: "ss_fresh s = Suc k + d" using d assms(6) by (simp add: k_def)
  have "InorderIterator_climb (ss_fresh s) s a = Inl (UNDEFINED ''null or dangling pointer'')"
    unfolding k climb using m assms(2,3) by (subst InorderIterator_climb.simps) (simp add: node_at_def)
  moreover have "a \<noteq> 0" using assms(5,7) addrs_inorder[of t] by force
  ultimately show ?thesis using n by (simp add: InorderIterator_next_def)
qed

lemma iterate_from_dangling:
  assumes "repr (ss_nodes s) p q t" and "q \<noteq> 0" and "ss_nodes s q = None"
    and "apart t" and "0 \<notin> addrs t" and "size t < ss_fresh s"
    and "inorder t = us @ (x, a) # vs" and "length vs < fuel"
  shows "SortedSet_iterate_from fuel s a = Inl (UNDEFINED ''null or dangling pointer'')"
  using assms(7,8)
proof (induction vs arbitrary: us x a fuel)
  case Nil
  obtain n where n: "ss_nodes s a = Some n" using repr_value[OF assms(1), of x a] Nil.prems(1) by auto
  have "a \<noteq> 0" using assms(5) Nil.prems(1) addrs_inorder[of t] by force
  then show ?case using n next_dangling[OF assms(1-6) Nil.prems(1)] Nil.prems(2)
    by (subst SortedSet_iterate_from.simps) simp
next
  case (Cons yb vs)
  obtain y b where yb: "yb = (y, b)" by (cases yb)
  obtain n where n: "ss_nodes s a = Some n" using repr_value[OF assms(1), of x a] Cons.prems(1) by auto
  have "a \<noteq> 0" using assms(5) Cons.prems(1) addrs_inorder[of t] by force
  moreover have "InorderIterator_next s a = Inr b"
    using next_in_subtree[OF assms(1,4,5) _ Cons.prems(1)] assms(6) yb by simp
  moreover have "SortedSet_iterate_from (fuel - 1) s b = Inl (UNDEFINED ''null or dangling pointer'')"
    using Cons.IH[of "us @ [(x, a)]" y b "fuel - 1"] Cons.prems yb by simp
  ultimately show ?case using n Cons.prems(2) by (subst SortedSet_iterate_from.simps) simp
qed

lemma iterate_dangling:
  assumes "repr (ss_nodes s) (ss_m_root s) q t" and "t \<noteq> Leaf" and "q \<noteq> 0" and "ss_nodes s q = None"
    and "apart t" and "0 \<notin> addrs t" and "size t < ss_fresh s"
  shows "SortedSet_iterate s = Inl (UNDEFINED ''null or dangling pointer'')"
proof -
  have "inorder t \<noteq> []" using assms(2) by (cases t) simp_all
  then obtain x a vs where ino: "inorder t = [] @ (x, a) # vs" by (cases "inorder t") auto
  have "SortedSet_min_impl (ss_fresh s) s (ss_m_root s) 0 = Inr (t_min 0 t)"
    using min_impl_tree[OF assms(1)] assms(7) by simp
  moreover have "fst (t_min 0 t) = a" using t_min_hd[OF assms(2)] ino by simp
  moreover have "length vs < ss_fresh s" using assms(7) length_inorder[of t] ino by simp
  ultimately show ?thesis
    using iterate_from_dangling[OF assms(1,3-7) ino]
    by (cases "t_min 0 t") (simp add: SortedSet_iterate_def SortedSet_inorder_def)
qed

end
