(* ===== verification/Sorted_Set_Runs.thy ===== *)
theory Sorted_Set_Runs
  imports Sorted_Set_Correct
begin

section \<open>Sequences of operations on a sorted set\<close>

text \<open>
  What \<^verbatim>\<open>SortedSet\<close> promises to its clients: any sequence of its operations answers as the same
  sequence on a list sorted by key without duplicate keys, never crashes and never leaks a node.
  In-order iteration lists the elements as long as nothing has been removed; removing the root
  can leave the new root with a dangling parent pointer that iteration then follows.
\<close>

subsection \<open>The specification\<close>

definition sorted_put :: "('a \<Rightarrow> 'k::linorder) \<Rightarrow> 'a \<Rightarrow> 'a list \<Rightarrow> 'a list" where
  "sorted_put key v xs = takeWhile (\<lambda>x. key x < key v) xs @ v # dropWhile (\<lambda>x. key x \<le> key v) xs"

datatype 'a set_op = SetInsert 'a | SetRemove 'a | SetSearch 'a | SetMin | SetSize | SetClear

datatype 'a set_answer = Unit | Element "'a option" | Count usize

fun list_step :: "('a \<Rightarrow> 'k::linorder) \<Rightarrow> 'a set_op \<Rightarrow> 'a list \<Rightarrow> 'a set_answer \<times> 'a list" where
  "list_step key (SetInsert v) xs = (Unit, sorted_put key v xs)"
| "list_step key (SetRemove v) xs = (Unit, filter (\<lambda>x. key x \<noteq> key v) xs)"
| "list_step key (SetSearch v) xs = (Element (find (\<lambda>x. key x = key v) xs), xs)"
| "list_step key SetMin xs = (Element (case xs of [] \<Rightarrow> None | x # _ \<Rightarrow> Some x), xs)"
| "list_step key SetSize xs = (Count (of_nat (length xs)), xs)"
| "list_step key SetClear xs = (Unit, [])"

fun set_step ::
  "'a order \<Rightarrow> 'a order \<Rightarrow> 'a set_op \<Rightarrow> 'a SortedSet \<Rightarrow> ('a set_answer \<times> 'a SortedSet) outcome" where
  "set_step lt gt (SetInsert v) s = bindE (SortedSet_insert_impl lt gt s v) (\<lambda>s. Inr (Unit, s))"
| "set_step lt gt (SetRemove v) s = bindE (SortedSet_remove lt gt s v) (\<lambda>s. Inr (Unit, s))"
| "set_step lt gt (SetSearch v) s = bindE (SortedSet_search lt gt s v) (\<lambda>r. Inr (Element r, s))"
| "set_step lt gt SetMin s = bindE (SortedSet_min s) (\<lambda>r. Inr (Element r, s))"
| "set_step lt gt SetSize s = Inr (Count (SortedSet_size s), s)"
| "set_step lt gt SetClear s = bindE (SortedSet_clear s) (\<lambda>s. Inr (Unit, s))"

fun run_list :: "('a \<Rightarrow> 'k::linorder) \<Rightarrow> 'a set_op list \<Rightarrow> 'a list \<Rightarrow> 'a set_answer list \<times> 'a list" where
  "run_list key [] xs = ([], xs)"
| "run_list key (op # ops) xs =
     (let (r, xs) = list_step key op xs; (rs, xs) = run_list key ops xs in (r # rs, xs))"

fun run_set ::
  "'a order \<Rightarrow> 'a order \<Rightarrow> 'a set_op list \<Rightarrow> 'a SortedSet \<Rightarrow> ('a set_answer list \<times> 'a SortedSet) outcome" where
  "run_set lt gt [] s = Inr ([], s)"
| "run_set lt gt (op # ops) s =
     bindE (set_step lt gt op s) (\<lambda>(r, s). bindE (run_set lt gt ops s) (\<lambda>(rs, s). Inr (r # rs, s)))"

fun removes :: "'a set_op \<Rightarrow> bool" where
  "removes (SetRemove v) = True"
| "removes _ = False"

text \<open>Insertions keep the root's parent pointer null, which iteration depends on.\<close>

definition rooted :: "'a SortedSet \<Rightarrow> bool" where
  "rooted s \<longleftrightarrow> (\<forall>n. ss_nodes s (ss_m_root s) = Some n \<longrightarrow> sn_m_parent n = 0)"

subsection \<open>The simulation\<close>

context keyed_order
begin

definition represents :: "'a SortedSet \<Rightarrow> 'a list \<Rightarrow> bool" where
  "represents s xs \<longleftrightarrow> (\<exists>t. set_rel s t \<and> vals t = xs)"

lemma represents_new: "represents SortedSet_new []"
  unfolding represents_def
  by (rule exI[of _ Leaf]) (simp add: set_rel_eq SortedSet_new_def sorted_keys_def)

lemma put_sorted_eq: "put_sorted v xs = sorted_put key v xs"
  by (simp add: put_sorted_def sorted_put_def)

lemma size_rel: "set_rel s t \<Longrightarrow> SortedSet_size s = of_nat (length (vals t))"
  using set_relD(8) by (simp add: SortedSet_size_def)

lemma step_simulates:
  assumes "represents s xs"
  shows "\<exists>s'. set_step lt gt op s = Inr (fst (list_step key op xs), s') \<and>
     represents s' (snd (list_step key op xs))"
proof -
  obtain t where rel: "set_rel s t" and xs: "vals t = xs" using assms by (auto simp: represents_def)
  show ?thesis
  proof (cases op)
    case (SetInsert v)
    then show ?thesis using insert_rel[OF rel, of v] xs by (auto simp: represents_def put_sorted_eq)
  next
    case (SetRemove v)
    then show ?thesis using remove_rel[OF rel, of v] xs by (auto simp: represents_def drop_key_def)
  next
    case (SetSearch v)
    then show ?thesis using search_value_rel[OF rel, of v] xs assms by simp
  next
    case SetMin
    then show ?thesis using min_rel[OF rel] xs assms by simp
  next
    case SetSize
    then show ?thesis using size_rel[OF rel] xs assms by simp
  next
    case SetClear
    then show ?thesis using clear_rel[OF rel] by (auto simp: represents_def)
  qed
qed

lemma run_simulates:
  "represents s xs \<Longrightarrow> \<exists>s'. run_set lt gt ops s = Inr (fst (run_list key ops xs), s') \<and>
     represents s' (snd (run_list key ops xs))"
proof (induction ops arbitrary: s xs)
  case (Cons op ops)
  obtain s1 where s1: "set_step lt gt op s = Inr (fst (list_step key op xs), s1)"
    "represents s1 (snd (list_step key op xs))" using step_simulates[OF Cons.prems] by blast
  obtain s2 where "run_set lt gt ops s1 = Inr (fst (run_list key ops (snd (list_step key op xs))), s2)"
    "represents s2 (snd (run_list key ops (snd (list_step key op xs))))"
    using Cons.IH[OF s1(2)] by blast
  with s1 show ?case by (simp add: Let_def split_beta)
qed simp

text \<open>Nothing leaks: the live nodes are as many as the elements.\<close>

lemma represents_nodes: "represents s xs \<Longrightarrow> card (dom (ss_nodes s)) = length xs"
  using set_relD(2,7) card_addrs by (fastforce simp: represents_def)

lemma rooted_insert:
  assumes rel: "set_rel s t" and "rooted s" and "SortedSet_insert_impl lt gt s v = Inr s'"
  shows "rooted s'"
proof -
  have "ss_m_root s \<noteq> ss_fresh s"
    using set_relD(5,6,10)[OF rel] root_addr_in[of t] by (cases t) auto
  then show ?thesis
    using assms(2,3)
    by (auto simp: SortedSet_insert_impl_def Let_def rooted_def node_at_def put_node_def Node_new_def
        bindE_def checkE_def split: if_splits sum.splits option.splits prod.splits)
qed

lemma iterate_represents:
  assumes "represents s xs" and "rooted s"
  shows "SortedSet_iterate s = Inr xs"
proof -
  obtain t where rel: "set_rel s t" and xs: "vals t = xs" using assms by (auto simp: represents_def)
  note R = set_relD[OF rel]
  obtain q where q: "repr (ss_nodes s) (ss_m_root s) q t" using R(1) by blast
  then have "repr (ss_nodes s) (ss_m_root s) 0 t"
    using assms(2) by (cases t) (auto simp: rooted_def)
  from iterate_tree[OF this R(2-4)] xs show ?thesis by simp
qed

lemma rooted_run:
  "represents s xs \<Longrightarrow> rooted s \<Longrightarrow> list_all (\<lambda>op. \<not> removes op) ops \<Longrightarrow>
   run_set lt gt ops s = Inr (rs, s') \<Longrightarrow> rooted s'"
proof (induction ops arbitrary: s xs rs)
  case (Cons op ops)
  obtain s1 where s1: "set_step lt gt op s = Inr (fst (list_step key op xs), s1)"
    "represents s1 (snd (list_step key op xs))" using step_simulates[OF Cons.prems(1)] by blast
  have "rooted s1"
  proof (cases op)
    case (SetInsert v)
    then show ?thesis using s1(1) Cons.prems(1,2) rooted_insert
      by (auto simp: represents_def outcome_simps)
  next
    case SetClear
    obtain t where "set_rel s t" using Cons.prems(1) by (auto simp: represents_def)
    from clear_rel[OF this] obtain s2 where s2: "SortedSet_clear s = Inr s2" "set_rel s2 Leaf" by blast
    have "dom (ss_nodes s2) = {}" using set_relD(7)[OF s2(2)] by simp
    then show ?thesis using SetClear s1(1) s2(1) by (auto simp: rooted_def)
  qed (use s1(1) Cons.prems in \<open>auto simp: outcome_simps\<close>)
  moreover obtain rs' where "run_set lt gt ops s1 = Inr (rs', s')"
    using Cons.prems(4) s1(1) by (auto simp: outcome_simps)
  ultimately show ?case using Cons.IH[OF s1(2)] Cons.prems(3) by simp
qed simp

end

text \<open>A sorted set is a container of elements identified by their keys.\<close>

definition contains :: "('a \<Rightarrow> 'k) \<Rightarrow> 'a list \<Rightarrow> 'k \<rightharpoonup> 'a" where
  "contains key xs = (\<lambda>k. find (\<lambda>x. key x = k) xs)"

lemma contains_Nil [simp]: "contains key [] = Map.empty"
  by (simp add: contains_def)

lemma contains_Cons [simp]: "contains key (x # xs) = (contains key xs)(key x \<mapsto> x)"
  by (auto simp: contains_def)

lemma dom_contains: "dom (contains key xs) = key ` set xs"
proof (induction xs)
  case (Cons x xs)
  have "dom (contains key (x # xs)) = insert (key x) (dom (contains key xs))"
    unfolding contains_Cons by (auto simp: dom_def)
  with Cons show ?case by (simp only: list.set image_insert)
qed (simp add: dom_def)

lemma contains_sorted_put:
  fixes key :: "'a \<Rightarrow> 'k::linorder"
  assumes "sorted_wrt (\<lambda>x y. key x < key y) xs"
  shows "contains key (sorted_put key v xs) = (contains key xs)(key v \<mapsto> v)"
  using assms
proof (induction xs)
  case (Cons x xs)
  have drop: "dropWhile (\<lambda>x. key x \<le> key v) xs = xs" if "key v \<le> key x"
    using that Cons.prems by (cases xs) (auto simp: not_le)
  consider "key x < key v" | "key x = key v" | "key v < key x" by (rule linorder_cases)
  then show ?case
  proof cases
    case 1
    then have "sorted_put key v (x # xs) = x # sorted_put key v xs" by (simp add: sorted_put_def)
    then show ?thesis using 1 Cons by (auto simp: fun_eq_iff)
  next
    case 2
    then show ?thesis using drop by (auto simp: sorted_put_def fun_eq_iff)
  next
    case 3
    then have "\<not> key x < key v" "\<not> key x \<le> key v" by simp_all
    then show ?thesis by (auto simp: sorted_put_def fun_eq_iff)
  qed
qed (simp add: sorted_put_def)

lemma contains_filter: "contains key (filter (\<lambda>x. key x \<noteq> k) xs) = (contains key xs)(k := None)"
  by (induction xs) (auto simp: fun_eq_iff)

context keyed_order
begin

definition holds :: "'a SortedSet \<Rightarrow> ('k \<rightharpoonup> 'a) \<Rightarrow> bool" where
  "holds s m \<longleftrightarrow> (\<exists>xs. represents s xs \<and> m = contains key xs)"

lemma represents_sorted: "represents s xs \<Longrightarrow> sorted_wrt (\<lambda>x y. key x < key y) xs"
  using set_relD(9) by (auto simp: represents_def sorted_keys_def)

lemma container_laws: "keyed_container (SortedSet_insert_impl lt gt) (SortedSet_remove lt gt)
  (SortedSet_search lt gt) SortedSet_clear SortedSet_size key holds"
proof
  fix s m v assume "holds s m"
  then obtain xs where xs: "represents s xs" and m: "m = contains key xs" by (auto simp: holds_def)
  obtain t where t: "set_rel s t" "vals t = xs" using xs by (auto simp: represents_def)
  note sorted = represents_sorted[OF xs]
  show "\<exists>s'. SortedSet_insert_impl lt gt s v = Inr s' \<and> holds s' (m(key v \<mapsto> v))"
    using insert_rel[OF t(1), of v] t(2) contains_sorted_put[OF sorted, of v]
    by (fastforce simp: holds_def represents_def put_sorted_eq m)
  show "\<exists>s'. SortedSet_remove lt gt s v = Inr s' \<and> holds s' (m(key v := None))"
    using remove_rel[OF t(1), of v] t(2) contains_filter[of key "key v" xs]
    by (fastforce simp: holds_def represents_def drop_key_def m)
  show "SortedSet_search lt gt s v = Inr (m (key v))"
    using search_value_rel[OF t(1), of v] t(2) by (simp add: m contains_def)
  show "\<exists>s'. SortedSet_clear s = Inr s' \<and> holds s' Map.empty"
    using clear_rel[OF t(1)] by (force simp: holds_def represents_def)
  have "distinct (map key xs)"
    using sorted by (induction xs) auto
  then have "card (key ` set xs) = length xs" using distinct_card by fastforce
  then show "finite (dom m) \<and> SortedSet_size s = of_nat (card (dom m))"
    using size_rel[OF t(1)] t(2) by (simp add: m dom_contains)
qed

end

sublocale keyed_order \<subseteq> container: keyed_container
  "SortedSet_insert_impl lt gt" "SortedSet_remove lt gt" "SortedSet_search lt gt"
  SortedSet_clear SortedSet_size key holds
  by (rule container_laws)

lemma keyed_order_by: "keyed_order (\<lambda>a b. key a < key b) (\<lambda>a b. key b < key a) key"
  by unfold_locales simp_all

subsection \<open>Properties\<close>

text \<open>
  C12. \<^verbatim>\<open>SortedSet\<close> refines a sorted list: for elements compared by a key, any sequence of
  insertions, removals, searches, minimum and size queries and clears on the pointer structure
  succeeds, answers as the same sequence on a list sorted by key without duplicate keys, and leaves
  exactly as many live nodes as there are elements.
\<close>

theorem SortedSet_simulates_sorted_list:
  fixes key :: "'a \<Rightarrow> 'k::linorder"
  shows "\<exists>s. run_set (\<lambda>a b. key a < key b) (\<lambda>a b. key b < key a) ops SortedSet_new
      = Inr (fst (run_list key ops []), s) \<and>
    card (dom (ss_nodes s)) = length (snd (run_list key ops []))"
  using keyed_order.run_simulates[OF keyed_order_by keyed_order.represents_new[OF keyed_order_by],
      where ops = ops and key = key] keyed_order.represents_nodes[OF keyed_order_by] by blast

text \<open>
  C13. In-order iteration works on every set built without removals: after any sequence of
  operations other than \<^verbatim>\<open>remove\<close>, iterating visits exactly the elements, in increasing order of
  their keys, and ends.
\<close>

theorem SortedSet_iterates_in_order:
  fixes key :: "'a \<Rightarrow> 'k::linorder"
  assumes "list_all (\<lambda>op. \<not> removes op) ops"
    and "run_set (\<lambda>a b. key a < key b) (\<lambda>a b. key b < key a) ops SortedSet_new = Inr (rs, s)"
  shows "SortedSet_iterate s = Inr (snd (run_list key ops []))"
proof -
  note K = keyed_order_by[of key] and new = keyed_order.represents_new[OF keyed_order_by[of key]]
  have "rooted (SortedSet_new :: 'a SortedSet)"
    by (simp add: rooted_def SortedSet_new_def)
  from keyed_order.rooted_run[OF K new this assms] keyed_order.run_simulates[OF K new, of ops] assms(2)
  show ?thesis using keyed_order.iterate_represents[OF K] by force
qed

context keyed_order
begin

lemma remove_root_dangles:
  assumes "set_rel s t" and "ss_nodes s (ss_m_root s) = Some n"
    and "(sn_m_left n = 0) \<noteq> (sn_m_right n = 0)" and "key v = key (sn_m_value n)"
  shows "\<exists>s' m. SortedSet_remove lt gt s v = Inr s' \<and> ss_nodes s' (ss_m_root s') = Some m \<and>
    sn_m_parent m = ss_m_root s \<and> ss_nodes s' (ss_m_root s) = None \<and>
    SortedSet_iterate s' = Inl (UNDEFINED ''null or dangling pointer'')"
proof -
  note R = set_relD[OF assms(1)]
  let ?p = "ss_m_root s" and ?c = "child_ptr n"
  obtain q where repr: "repr (ss_nodes s) ?p q t" using R(1) by blast
  have p: "?p \<in> addrs t" using R(7) assms(2) by blast
  then have p0: "?p \<noteq> 0" using R(3) by metis
  obtain l xb r where t: "t = Node l xb r" using p by (cases t) auto
  have le1: "sn_m_left n = 0 \<or> sn_m_right n = 0" using assms(3) by auto
  have one: "one_child ?p t" using one_childI[OF repr R(2) assms(2) le1] .
  have c0: "?c \<noteq> 0" using assms(3) by (auto simp: child_ptr_def)
  let ?s' = "s\<lparr>ss_m_root := ?c, ss_nodes := (ss_nodes s)(?p := None), ss_m_size := ss_m_size s - 1\<rparr>"
  have "SortedSet_search_impl lt gt (ss_fresh s) s v 0 ?p = Inr (?p, 0)"
    using assms(2,4) p0 R(5) by (subst SortedSet_search_impl.simps) (simp add: lt_key gt_key)
  then have remove: "SortedSet_remove lt gt s v = Inr ?s'"
    using remove_impl_root[OF assms(2) le1 p0 R(5)] p0 assms(2) le1 by (simp add: SortedSet_remove_def)
  have "repr (ss_nodes s) ?c ?p (only_child t)"
    using repr_only_child[of "ss_nodes s" ?p q l xb r n] repr assms(2) one R(10) t by auto
  then have child: "repr (ss_nodes ?s') ?c ?p (only_child t)"
    using root_not_in_only_child[OF R(2)] R(10) t by (subst repr_cong) auto
  have ne: "only_child t \<noteq> Leaf" using repr_null[OF child] c0 by simp
  have "size (only_child t) < size t" using t by (cases t) auto
  moreover have "apart (only_child t)" "0 \<notin> addrs (only_child t)"
    using apart_only_child[OF R(2)] addrs_only_child[of t] R(3) by auto
  ultimately have "SortedSet_iterate ?s' = Inl (UNDEFINED ''null or dangling pointer'')"
    using child ne p0 R(4) by (intro iterate_dangling[of ?s' ?p "only_child t"]) simp_all
  moreover obtain m where "ss_nodes ?s' ?c = Some m" "sn_m_parent m = ?p"
    using child ne by (cases "only_child t") auto
  ultimately show ?thesis using remove by (intro exI[of _ ?s'] exI[of _ m]) auto
qed

end

text \<open>
  C14. Removing a root with one child breaks iteration: in every set that a sequence of operations
  builds and whose root has exactly one child, left or right, removing the root's element makes
  that child the new root without resetting its parent pointer, which still holds the address of
  the deleted node; iterating over the set then reads the deleted node.
\<close>

theorem SortedSet_remove_root_dangles:
  fixes key :: "'a \<Rightarrow> 'k::linorder"
  assumes "run_set (\<lambda>a b. key a < key b) (\<lambda>a b. key b < key a) ops SortedSet_new = Inr (rs, s)"
    and "ss_nodes s (ss_m_root s) = Some n" and "(sn_m_left n = 0) \<noteq> (sn_m_right n = 0)"
    and "key v = key (sn_m_value n)"
  shows "\<exists>s' m. SortedSet_remove (\<lambda>a b. key a < key b) (\<lambda>a b. key b < key a) s v = Inr s' \<and>
    ss_nodes s' (ss_m_root s') = Some m \<and> sn_m_parent m = ss_m_root s \<and>
    ss_nodes s' (ss_m_root s) = None \<and>
    SortedSet_iterate s' = Inl (UNDEFINED ''null or dangling pointer'')"
proof -
  note K = keyed_order_by[of key] and new = keyed_order.represents_new[OF keyed_order_by[of key]]
  obtain t where "keyed_order.set_rel key s t"
    using keyed_order.run_simulates[OF K new, of ops] assms(1) keyed_order.represents_def[OF K] by auto
  from keyed_order.remove_root_dangles[OF K this assms(2-4)] show ?thesis .
qed

theorem SortedSet_remove_root_dangles_witness:
  "\<exists>rs s s' m. run_set (\<lambda>a b. id a < id b) (\<lambda>a b. id b < id a)
      [SetInsert (2::nat), SetInsert 1] SortedSet_new = Inr (rs, s) \<and>
    SortedSet_remove (\<lambda>a b. id a < id b) (\<lambda>a b. id b < id a) s 2 = Inr s' \<and>
    ss_nodes s' (ss_m_root s') = Some m \<and> sn_m_parent m = ss_m_root s \<and>
    ss_nodes s' (ss_m_root s) = None \<and>
    SortedSet_iterate s' = Inl (UNDEFINED ''null or dangling pointer'')"
proof -
  define s :: "nat SortedSet" where "s = \<lparr>ss_m_root = 1, ss_m_size = 2, ss_nodes =
    [1 \<mapsto> \<lparr>sn_m_value = 2, sn_m_left = 2, sn_m_right = 0, sn_m_parent = 0\<rparr>,
     2 \<mapsto> \<lparr>sn_m_value = 1, sn_m_left = 0, sn_m_right = 0, sn_m_parent = 1\<rparr>], ss_fresh = 3\<rparr>"
  have run: "run_set (\<lambda>a b. id a < id b) (\<lambda>a b. id b < id a)
      [SetInsert (2::nat), SetInsert 1] SortedSet_new = Inr ([Unit, Unit], s)"
    by (simp add: SortedSet_insert_impl_def SortedSet_new_def SortedSet_search_impl.simps node_at_def
        put_node_def Node_new_def Let_def s_def fun_upd_twist numeral_2_eq_2 numeral_3_eq_3)
  have root: "ss_nodes s (ss_m_root s) = Some \<lparr>sn_m_value = 2, sn_m_left = 2, sn_m_right = 0, sn_m_parent = 0\<rparr>"
    by (simp add: s_def)
  from SortedSet_remove_root_dangles[OF run root, of 2] run show ?thesis by auto
qed

theorem SortedSet_iterates_in_order_witness:
  "\<exists>s. run_set (\<lambda>a b. id a < id b) (\<lambda>a b. id b < id a)
      [SetInsert (2::nat), SetInsert 1, SetInsert 2] SortedSet_new = Inr ([Unit, Unit, Unit], s) \<and>
    SortedSet_iterate s = Inr [1, 2]"
proof -
  have spec: "run_list id [SetInsert (2::nat), SetInsert 1, SetInsert 2] [] = ([Unit, Unit, Unit], [1, 2])"
    by (simp add: sorted_put_def)
  from keyed_order.run_simulates[OF keyed_order_by[of "id :: nat \<Rightarrow> nat"]
      keyed_order.represents_new[OF keyed_order_by], of "[SetInsert 2, SetInsert 1, SetInsert 2]"]
  obtain s where run: "run_set (\<lambda>a b. id a < id b) (\<lambda>a b. id b < id a)
      [SetInsert (2::nat), SetInsert 1, SetInsert 2] SortedSet_new = Inr ([Unit, Unit, Unit], s)"
    unfolding spec by auto
  have "SortedSet_iterate s = Inr (snd (run_list id [SetInsert (2::nat), SetInsert 1, SetInsert 2] []))"
    by (rule SortedSet_iterates_in_order[OF _ run]) simp
  with run show ?thesis unfolding spec by auto
qed

end
