(* ===== verification/Hash_Map.thy ===== *)
theory Hash_Map
  imports Sorted_Set_Runs "HOL-Library.Product_Lexorder"
begin

section \<open>Std/HashTable.hpp and Std/HashMap.hpp\<close>

text \<open>
  A hash table is a sorted set of nodes that carry their hash and compare by hash first; a hash map
  is a hash table of key-value nodes that compare by key and ignore the value.  Keys are compared
  with the order of their type.  The container interface gives the map semantics for every hash
  function, collisions included.
\<close>

subsection \<open>Hash functions\<close>

definition Hash_u32_compute :: "u32 \<Rightarrow> u32" where
  "Hash_u32_compute val =
     (let val = val XOR drop_bit 16 val;
          val = val * 0x7feb352d;
          val = val XOR drop_bit 15 val;
          val = val * 0x846ca68b;
          val = val XOR drop_bit 16 val
      in val)"

text \<open>\<^verbatim>\<open>char\<close> is unsigned on the ARM target, so a character is added as a number below 256.\<close>

definition Hash_StringView_compute :: "u8 list \<Rightarrow> u32" where
  "Hash_StringView_compute val = foldl (\<lambda>hash ch. (push_bit 5 hash + hash) + ucast ch) 5381 val"

subsection \<open>Hash tables\<close>

record 'a HashTable_Node =
  htn_m_hash :: u32
  htn_m_value :: 'a

definition HashTable_Node_less :: "'a order \<Rightarrow> 'a HashTable_Node order" where
  "HashTable_Node_less lt n other =
     (if htn_m_hash n < htn_m_hash other then True
      else if htn_m_hash n > htn_m_hash other then False
      else lt (htn_m_value n) (htn_m_value other))"

definition HashTable_Node_greater :: "'a order \<Rightarrow> 'a HashTable_Node order" where
  "HashTable_Node_greater gt n other =
     (if htn_m_hash n > htn_m_hash other then True
      else if htn_m_hash n < htn_m_hash other then False
      else gt (htn_m_value n) (htn_m_value other))"

type_synonym 'a HashTable = "'a HashTable_Node SortedSet"

definition HashTable_insert ::
  "('a \<Rightarrow> u32) \<Rightarrow> 'a order \<Rightarrow> 'a order \<Rightarrow> 'a HashTable \<Rightarrow> 'a \<Rightarrow> 'a HashTable outcome" where
  "HashTable_insert hash lt gt s val =
     SortedSet_insert_impl (HashTable_Node_less lt) (HashTable_Node_greater gt) s
       \<lparr>htn_m_hash = hash val, htn_m_value = val\<rparr>"

definition HashTable_search ::
  "('a \<Rightarrow> u32) \<Rightarrow> 'a order \<Rightarrow> 'a order \<Rightarrow> 'a HashTable \<Rightarrow> 'a \<Rightarrow> 'a option outcome" where
  "HashTable_search hash lt gt s val =
     bindE (SortedSet_search (HashTable_Node_less lt) (HashTable_Node_greater gt) s
              \<lparr>htn_m_hash = hash val, htn_m_value = val\<rparr>)
       (\<lambda>node. case node of Some n \<Rightarrow> Inr (Some (htn_m_value n)) | None \<Rightarrow> Inr None)"

definition HashTable_remove ::
  "('a \<Rightarrow> u32) \<Rightarrow> 'a order \<Rightarrow> 'a order \<Rightarrow> 'a HashTable \<Rightarrow> 'a \<Rightarrow> 'a HashTable outcome" where
  "HashTable_remove hash lt gt s val =
     SortedSet_remove (HashTable_Node_less lt) (HashTable_Node_greater gt) s
       \<lparr>htn_m_hash = hash val, htn_m_value = val\<rparr>"

definition HashTable_clear :: "'a HashTable \<Rightarrow> 'a HashTable outcome" where
  "HashTable_clear s = SortedSet_clear s"

definition HashTable_size :: "'a HashTable \<Rightarrow> usize" where
  "HashTable_size s = SortedSet_size s"

definition HashTable_iterate :: "'a HashTable \<Rightarrow> 'a list outcome" where
  "HashTable_iterate s = bindE (SortedSet_iterate s) (\<lambda>ns. Inr (map htn_m_value ns))"

subsection \<open>Hash maps\<close>

record ('k, 'v) HashMap_Node =
  hmn_m_key :: 'k
  hmn_m_value :: "'v option"

definition HashMap_Node_hash :: "('k \<Rightarrow> u32) \<Rightarrow> ('k, 'v) HashMap_Node \<Rightarrow> u32" where
  "HashMap_Node_hash hash n = hash (hmn_m_key n)"

definition HashMap_Node_less :: "('k::linorder, 'v) HashMap_Node order" where
  "HashMap_Node_less n other = (hmn_m_key n < hmn_m_key other)"

definition HashMap_Node_greater :: "('k::linorder, 'v) HashMap_Node order" where
  "HashMap_Node_greater n other = (hmn_m_key n > hmn_m_key other)"

type_synonym ('k, 'v) HashMap = "('k, 'v) HashMap_Node HashTable"

definition HashMap_new :: "('k, 'v) HashMap" where
  "HashMap_new = SortedSet_new"

definition HashMap_set ::
  "('k::linorder \<Rightarrow> u32) \<Rightarrow> ('k, 'v) HashMap \<Rightarrow> 'k \<Rightarrow> 'v \<Rightarrow> ('k, 'v) HashMap outcome" where
  "HashMap_set hash s key val =
     HashTable_insert (HashMap_Node_hash hash) HashMap_Node_less HashMap_Node_greater s
       \<lparr>hmn_m_key = key, hmn_m_value = Some val\<rparr>"

definition HashMap_search ::
  "('k::linorder \<Rightarrow> u32) \<Rightarrow> ('k, 'v) HashMap \<Rightarrow> 'k \<Rightarrow> ('k, 'v) HashMap_Node option outcome" where
  "HashMap_search hash s key =
     HashTable_search (HashMap_Node_hash hash) HashMap_Node_less HashMap_Node_greater s
       \<lparr>hmn_m_key = key, hmn_m_value = None\<rparr>"

definition HashMap_get ::
  "('k::linorder \<Rightarrow> u32) \<Rightarrow> ('k, 'v) HashMap \<Rightarrow> 'k \<Rightarrow> 'v option outcome" where
  "HashMap_get hash s key = bindE (HashMap_search hash s key) (\<lambda>node.
     case node of
       None \<Rightarrow> Inr None
     | Some n \<Rightarrow> (case hmn_m_value n of
                    None \<Rightarrow> Inl (UNDEFINED ''value of an empty Optional'')
                  | Some v \<Rightarrow> Inr (Some v)))"

definition HashMap_get_opt ::
  "('k::linorder \<Rightarrow> u32) \<Rightarrow> ('k, 'v) HashMap \<Rightarrow> 'k \<Rightarrow> 'v option outcome" where
  "HashMap_get_opt hash s key = bindE (HashMap_search hash s key) (\<lambda>node.
     case node of Some n \<Rightarrow> Inr (hmn_m_value n) | None \<Rightarrow> Inr None)"

definition HashMap_remove ::
  "('k::linorder \<Rightarrow> u32) \<Rightarrow> ('k, 'v) HashMap \<Rightarrow> 'k \<Rightarrow> ('k, 'v) HashMap outcome" where
  "HashMap_remove hash s key =
     HashTable_remove (HashMap_Node_hash hash) HashMap_Node_less HashMap_Node_greater s
       \<lparr>hmn_m_key = key, hmn_m_value = None\<rparr>"

definition HashMap_clear :: "('k, 'v) HashMap \<Rightarrow> ('k, 'v) HashMap outcome" where
  "HashMap_clear s = HashTable_clear s"

definition HashMap_size :: "('k, 'v) HashMap \<Rightarrow> usize" where
  "HashMap_size s = HashTable_size s"

subsection \<open>The order on the nodes\<close>

definition node_key :: "('k, 'v) HashMap_Node HashTable_Node \<Rightarrow> u32 \<times> 'k" where
  "node_key n = (htn_m_hash n, hmn_m_key (htn_m_value n))"

interpretation nodes: keyed_order
  "HashTable_Node_less HashMap_Node_less :: ('k::linorder, 'v) HashMap_Node HashTable_Node order"
  "HashTable_Node_greater HashMap_Node_greater" node_key
  by unfold_locales
    (auto simp: node_key_def HashTable_Node_less_def HashTable_Node_greater_def
      HashMap_Node_less_def HashMap_Node_greater_def less_prod_def')

lemma nodes_key [simp]: "node_key \<lparr>htn_m_hash = h, htn_m_value = \<lparr>hmn_m_key = k, hmn_m_value = v\<rparr>\<rparr> = (h, k)"
  by (simp add: node_key_def)


subsection \<open>Hash maps are finite maps\<close>

text \<open>The nodes that a hash map holds for an abstract map.\<close>

definition map_nodes ::
  "('k \<Rightarrow> u32) \<Rightarrow> ('k \<rightharpoonup> 'v) \<Rightarrow> u32 \<times> 'k \<rightharpoonup> ('k, 'v) HashMap_Node HashTable_Node" where
  "map_nodes hash M = (\<lambda>(h, k). if h = hash k
     then map_option (\<lambda>v. \<lparr>htn_m_hash = h, htn_m_value = \<lparr>hmn_m_key = k, hmn_m_value = Some v\<rparr>\<rparr>) (M k)
     else None)"

lemma map_nodes_empty [simp]: "map_nodes hash Map.empty = Map.empty"
  by (auto simp: map_nodes_def fun_eq_iff)

lemma map_nodes_upd:
  "(map_nodes hash M)((hash k, k) \<mapsto>
     \<lparr>htn_m_hash = hash k, htn_m_value = \<lparr>hmn_m_key = k, hmn_m_value = Some v\<rparr>\<rparr>)
   = map_nodes hash (M(k \<mapsto> v))"
  by (auto simp: map_nodes_def fun_eq_iff)

lemma map_nodes_del: "(map_nodes hash M)((hash k, k) := None) = map_nodes hash (M(k := None))"
  by (auto simp: map_nodes_def fun_eq_iff)

lemma map_nodes_dom: "dom (map_nodes hash M) = (\<lambda>k. (hash k, k)) ` dom M"
  by (force simp: map_nodes_def image_iff split: if_splits)

lemma map_nodes_card: "card (dom (map_nodes hash M)) = card (dom M)"
  unfolding map_nodes_dom by (rule card_image) (simp add: inj_on_def)

definition models :: "('k::linorder \<Rightarrow> u32) \<Rightarrow> ('k, 'v) HashMap \<Rightarrow> ('k \<rightharpoonup> 'v) \<Rightarrow> bool" where
  "models hash s M \<longleftrightarrow> nodes.holds s (map_nodes hash M)"

lemma models_new: "models hash HashMap_new Map.empty"
  using nodes.represents_new by (auto simp: models_def HashMap_new_def nodes.holds_def)

lemmas HashMap_defs = HashMap_set_def HashMap_search_def HashMap_get_def HashMap_get_opt_def
  HashMap_remove_def HashMap_clear_def HashMap_size_def HashMap_Node_hash_def
  HashTable_insert_def HashTable_search_def HashTable_remove_def HashTable_clear_def HashTable_size_def

lemma HashMap_set_models:
  "models hash s M \<Longrightarrow> \<exists>s'. HashMap_set hash s k v = Inr s' \<and> models hash s' (M(k \<mapsto> v))"
  using nodes.container.ins_law[of s "map_nodes hash M"
      "\<lparr>htn_m_hash = hash k, htn_m_value = \<lparr>hmn_m_key = k, hmn_m_value = Some v\<rparr>\<rparr>"]
  by (simp add: models_def HashMap_defs map_nodes_upd)

lemma HashMap_remove_models:
  "models hash s M \<Longrightarrow> \<exists>s'. HashMap_remove hash s k = Inr s' \<and> models hash s' (M(k := None))"
  using nodes.container.del_law[of s "map_nodes hash M"
      "\<lparr>htn_m_hash = hash k, htn_m_value = \<lparr>hmn_m_key = k, hmn_m_value = None\<rparr>\<rparr>"]
  by (simp add: models_def HashMap_defs map_nodes_del)

lemma HashMap_get_models:
  "models hash s M \<Longrightarrow> HashMap_get hash s k = Inr (M k)"
  "models hash s M \<Longrightarrow> HashMap_get_opt hash s k = Inr (M k)"
  using nodes.container.srch_law[of s "map_nodes hash M"
      "\<lparr>htn_m_hash = hash k, htn_m_value = \<lparr>hmn_m_key = k, hmn_m_value = None\<rparr>\<rparr>"]
  by (cases "M k"; simp add: models_def HashMap_defs map_nodes_def)+

lemma HashMap_clear_models:
  "models hash s M \<Longrightarrow> \<exists>s'. HashMap_clear s = Inr s' \<and> models hash s' Map.empty"
  using nodes.container.clr_law[of s "map_nodes hash M"] by (simp add: models_def HashMap_defs)

lemma HashMap_size_models:
  "models hash s M \<Longrightarrow> HashMap_size s = of_nat (card (dom M))"
  using nodes.container.count_law[of s "map_nodes hash M"]
  by (simp add: models_def HashMap_defs map_nodes_card)

text \<open>An iterator can always be started.\<close>

lemma models_inorder: "models hash s M \<Longrightarrow> \<exists>it. SortedSet_inorder s = Inr it"
proof -
  assume "models hash s M"
  then obtain xs t where t: "nodes.set_rel s t"
    by (auto simp: models_def nodes.holds_def nodes.represents_def)
  show ?thesis
    using nodes.min_rel[OF t] by (auto simp: SortedSet_min_def SortedSet_inorder_def outcome_simps)
qed

datatype ('k, 'v) map_op = MapSet 'k 'v | MapGet 'k | MapGetOpt 'k | MapRemove 'k | MapClear | MapSize

datatype 'v map_answer = Done | Value "'v option" | Number usize

fun map_step :: "('k, 'v) map_op \<Rightarrow> ('k \<rightharpoonup> 'v) \<Rightarrow> 'v map_answer \<times> ('k \<rightharpoonup> 'v)" where
  "map_step (MapSet k v) M = (Done, M(k \<mapsto> v))"
| "map_step (MapGet k) M = (Value (M k), M)"
| "map_step (MapGetOpt k) M = (Value (M k), M)"
| "map_step (MapRemove k) M = (Done, M(k := None))"
| "map_step MapClear M = (Done, Map.empty)"
| "map_step MapSize M = (Number (of_nat (card (dom M))), M)"

fun HashMap_step ::
  "('k::linorder \<Rightarrow> u32) \<Rightarrow> ('k, 'v) map_op \<Rightarrow> ('k, 'v) HashMap \<Rightarrow> ('v map_answer \<times> ('k, 'v) HashMap) outcome" where
  "HashMap_step hash (MapSet k v) s = bindE (HashMap_set hash s k v) (\<lambda>s. Inr (Done, s))"
| "HashMap_step hash (MapGet k) s = bindE (HashMap_get hash s k) (\<lambda>v. Inr (Value v, s))"
| "HashMap_step hash (MapGetOpt k) s = bindE (HashMap_get_opt hash s k) (\<lambda>v. Inr (Value v, s))"
| "HashMap_step hash (MapRemove k) s = bindE (HashMap_remove hash s k) (\<lambda>s. Inr (Done, s))"
| "HashMap_step hash MapClear s = bindE (HashMap_clear s) (\<lambda>s. Inr (Done, s))"
| "HashMap_step hash MapSize s = Inr (Number (HashMap_size s), s)"

fun run_map :: "('k, 'v) map_op list \<Rightarrow> ('k \<rightharpoonup> 'v) \<Rightarrow> 'v map_answer list \<times> ('k \<rightharpoonup> 'v)" where
  "run_map [] M = ([], M)"
| "run_map (op # ops) M = (let (r, M) = map_step op M; (rs, M) = run_map ops M in (r # rs, M))"

fun run_HashMap ::
  "('k::linorder \<Rightarrow> u32) \<Rightarrow> ('k, 'v) map_op list \<Rightarrow> ('k, 'v) HashMap
     \<Rightarrow> ('v map_answer list \<times> ('k, 'v) HashMap) outcome" where
  "run_HashMap hash [] s = Inr ([], s)"
| "run_HashMap hash (op # ops) s = bindE (HashMap_step hash op s) (\<lambda>(r, s).
     bindE (run_HashMap hash ops s) (\<lambda>(rs, s). Inr (r # rs, s)))"

lemma HashMap_step_models:
  assumes "models hash s M"
  shows "\<exists>s'. HashMap_step hash op s = Inr (fst (map_step op M), s') \<and> models hash s' (snd (map_step op M))"
proof (cases op)
  case (MapSet k v)
  then show ?thesis using HashMap_set_models[OF assms, of k v] by auto
next
  case (MapRemove k)
  then show ?thesis using HashMap_remove_models[OF assms, of k] by auto
next
  case MapClear
  then show ?thesis using HashMap_clear_models[OF assms] by auto
qed (use assms HashMap_get_models[OF assms] HashMap_size_models[OF assms] in auto)

lemma run_HashMap_models:
  "models hash s M \<Longrightarrow> \<exists>s'. run_HashMap hash ops s = Inr (fst (run_map ops M), s') \<and>
     models hash s' (snd (run_map ops M))"
proof (induction ops arbitrary: s M)
  case (Cons op ops)
  obtain s1 where s1: "HashMap_step hash op s = Inr (fst (map_step op M), s1)"
    "models hash s1 (snd (map_step op M))" using HashMap_step_models[OF Cons.prems] by blast
  obtain s2 where "run_HashMap hash ops s1 = Inr (fst (run_map ops (snd (map_step op M))), s2)"
    "models hash s2 (snd (run_map ops (snd (map_step op M))))" using Cons.IH[OF s1(2)] by blast
  with s1 show ?case by (simp add: Let_def split_beta)
qed simp

subsection \<open>Properties\<close>

text \<open>
  C15. \<^verbatim>\<open>HashMap\<close> is a finite map whatever the hash function: every sequence of set, get, get_opt,
  remove, clear and size on a new map succeeds and answers as the same sequence on a partial
  function; in particular a found node always holds a value.
\<close>

theorem HashMap_simulates_map:
  "\<exists>s. run_HashMap hash ops HashMap_new = Inr (fst (run_map ops Map.empty), s)"
  using run_HashMap_models[OF models_new, of hash ops] by blast

text \<open>Mixing steps that can be undone.\<close>

definition Hash_u32_inverse :: "u32 \<Rightarrow> u32" where
  "Hash_u32_inverse x =
     (let x = x XOR drop_bit 16 x;
          x = x * 0x43021123;
          x = x XOR drop_bit 15 x XOR drop_bit 30 x;
          x = x * 0x1d69e2a5;
          x = x XOR drop_bit 16 x
      in x)"

lemma xorshift16_undone: "(x XOR drop_bit 16 x) XOR drop_bit 16 (x XOR drop_bit 16 x) = (x :: u32)"
  by (rule bit_word_eqI) (auto simp: bit_simps)

lemma xorshift15_undone:
  "(let y = x XOR drop_bit 15 x in y XOR drop_bit 15 y XOR drop_bit 30 y) = (x :: u32)"
  unfolding Let_def by (rule bit_word_eqI) (auto simp: bit_simps)

text \<open>
  C16. The hash of 32-bit integers loses nothing: it is injective, so integer keys never collide.
\<close>

theorem Hash_u32_injective: "inj Hash_u32_compute"
proof (rule inj_on_inverseI[where g = Hash_u32_inverse])
  fix x :: u32
  have inv: "0x846ca68b * 0x43021123 = (1 :: u32)" "0x7feb352d * 0x1d69e2a5 = (1 :: u32)"
    by simp_all
  have mul: "y * 0x846ca68b * 0x43021123 = y" "y * 0x7feb352d * 0x1d69e2a5 = y" for y :: u32
    using inv by (simp_all only: mult.assoc mult_1_right)
  show "Hash_u32_inverse (Hash_u32_compute x) = x"
    unfolding Hash_u32_inverse_def Hash_u32_compute_def Let_def xorshift16_undone mul(1)
      xorshift15_undone[unfolded Let_def] mul(2) ..
qed

end
