(* ===== verification/Files.thy ===== *)
theory Files
  imports Console Paths Hash_Map
begin

section \<open>Kernel/FileSystem and Kernel/Interface\<close>

text \<open>
  The files, directories, devices and handles of the kernel.  Files and handles live in two lists,
  as they are never deleted; a pointer to one is its index.  Directories hold their entries in the
  hash map of \<^verbatim>\<open>Std/HashMap.hpp\<close>, keyed by names with the order of \<^verbatim>\<open>StringView\<close>.  The flash image
  that the build generates is the value \<open>__flash_root\<close> passed to the boot code.
\<close>

subsection \<open>Interface constants and types\<close>

definition ENOTDIR :: int where "ENOTDIR = 1"
definition ERANGE :: int where "ERANGE = 3"
definition ENOENT :: int where "ENOENT = 4"
definition EISDIR :: int where "EISDIR = 6"

definition O_DIRECTORY :: u32 where "O_DIRECTORY = push_bit 4 1"
definition O_CREAT :: u32 where "O_CREAT = push_bit 5 1"
definition O_TRUNC :: u32 where "O_TRUNC = push_bit 6 1"

definition Mode_Format :: u32 where "Mode_Format = push_bit 0 0xF"
definition Mode_Directory :: u32 where "Mode_Directory = push_bit 0 1"
definition Mode_Device :: u32 where "Mode_Device = push_bit 0 2"
definition Mode_Regular :: u32 where "Mode_Regular = push_bit 0 3"
definition Mode_Invalid :: u32 where "Mode_Invalid = 0"

text \<open>The same modes as userland sees them.\<close>

definition S_IFMT :: u32 where "S_IFMT = push_bit 0 0xF"
definition S_IFDIR :: u32 where "S_IFDIR = push_bit 0 1"
definition S_IFREG :: u32 where "S_IFREG = push_bit 0 2"
definition S_IFDEV :: u32 where "S_IFDEV = push_bit 0 3"

datatype FileSystemId = Invalid | Flash | Ram

text \<open>\<^verbatim>\<open>FileInfo\<close>: an inode of the flash image, with the bytes or the entries it points to.\<close>

datatype FileInfo = FileInfo
  (fi_st_ino: u32) (fi_st_mode: u32) (fi_bytes: "u8 list") (fi_entries: "(string \<times> FileInfo) list")

subsection \<open>Names\<close>

datatype FileName = FileName (name_chars: string)

instantiation FileName :: linorder
begin

definition less_FileName :: "FileName \<Rightarrow> FileName \<Rightarrow> bool" where
  "less_FileName a b \<longleftrightarrow> shortlex (name_chars a) (name_chars b)"

definition less_eq_FileName :: "FileName \<Rightarrow> FileName \<Rightarrow> bool" where
  "less_eq_FileName a b \<longleftrightarrow> a = b \<or> a < b"

instance
proof
  fix a b c :: FileName
  show "a < b \<longleftrightarrow> a \<le> b \<and> \<not> b \<le> a"
    by (auto simp: less_FileName_def less_eq_FileName_def shortlex_def)
  show "a \<le> a" by (simp add: less_eq_FileName_def)
  show "a \<le> b \<Longrightarrow> b \<le> c \<Longrightarrow> a \<le> c"
    by (auto simp: less_FileName_def less_eq_FileName_def shortlex_def)
  show "a \<le> b \<Longrightarrow> b \<le> a \<Longrightarrow> a = b"
    by (auto simp: less_FileName_def less_eq_FileName_def shortlex_def)
  show "a \<le> b \<or> b \<le> a"
    by (cases a; cases b) (auto simp: less_FileName_def less_eq_FileName_def shortlex_def)
qed

end

definition name_hash :: "FileName \<Rightarrow> u32" where
  "name_hash n = Hash_StringView_compute (map of_char (name_chars n))"

subsection \<open>Files and handles\<close>

type_synonym entries = "(FileName, nat) HashMap"

datatype FileClass =
    MemoryFile "u8 list"
  | FlashFile "u8 list"
  | MemoryDirectory entries
  | FlashDirectory entries
  | ConsoleFile

text \<open>\<open>None\<close> is a size that the constructor leaves uninitialised.\<close>

record VirtualFile =
  vf_m_filesystem :: FileSystemId
  vf_m_ino :: u32
  vf_m_mode :: u32
  vf_m_owning_user :: u32
  vf_m_owning_group :: u32
  vf_m_size :: "u32 option"
  vf_m_device_id :: u32
  vf_class :: FileClass

text \<open>Handles refer to their file and carry an offset or an iterator (a node, 0 at the end).\<close>

datatype Handle =
    MemoryFileHandle nat usize
  | FlashFileHandle nat usize
  | MemoryDirectoryHandle nat nat
  | FlashDirectoryHandle nat nat
  | ConsoleFileHandle

text \<open>
  \<open>fs_stack\<close> is what an uninitialised \<^verbatim>\<open>UserlandDirectoryInfo\<close> on the stack contains.
\<close>

record FS =
  fs_files :: "VirtualFile list"
  fs_handles :: "Handle list"
  fs_m_root :: nat
  fs_flash_m_root :: nat
  fs_m_next_ino :: u32
  fs_m_devices :: "(u32, nat) HashMap"
  fs_console :: nat
  fs_uart :: UART
  fs_stack :: "u8 list"

definition file_at :: "FS \<Rightarrow> nat \<Rightarrow> VirtualFile outcome" where
  "file_at fs f = (if f < length (fs_files fs) then Inr (fs_files fs ! f) else Inl (UNDEFINED ''null pointer''))"

definition put_file :: "FS \<Rightarrow> nat \<Rightarrow> VirtualFile \<Rightarrow> FS" where
  "put_file fs f v = fs\<lparr>fs_files := (fs_files fs)[f := v]\<rparr>"

definition new_file :: "FS \<Rightarrow> VirtualFile \<Rightarrow> nat \<times> FS" where
  "new_file fs v = (length (fs_files fs), fs\<lparr>fs_files := fs_files fs @ [v]\<rparr>)"

definition new_handle :: "FS \<Rightarrow> Handle \<Rightarrow> nat \<times> FS" where
  "new_handle fs h = (length (fs_handles fs), fs\<lparr>fs_handles := fs_handles fs @ [h]\<rparr>)"

definition VirtualFile_new :: "FileClass \<Rightarrow> VirtualFile" where
  "VirtualFile_new c =
     \<lparr>vf_m_filesystem = Invalid, vf_m_ino = 0, vf_m_mode = Mode_Invalid, vf_m_owning_user = 0,
      vf_m_owning_group = 0, vf_m_size = None, vf_m_device_id = 0xdead, vf_class = c\<rparr>"

definition MemoryFileSystem_next_ino :: "FS \<Rightarrow> u32 \<times> FS" where
  "MemoryFileSystem_next_ino fs = (fs_m_next_ino fs, fs\<lparr>fs_m_next_ino := fs_m_next_ino fs + 1\<rparr>)"

definition MemoryFile_new :: "FS \<Rightarrow> nat \<times> FS" where
  "MemoryFile_new fs =
     (let (ino, fs) = MemoryFileSystem_next_ino fs
      in new_file fs ((VirtualFile_new (MemoryFile []))\<lparr>vf_m_filesystem := Ram, vf_m_ino := ino,
           vf_m_mode := Mode_Regular, vf_m_size := Some 0\<rparr>))"

definition VirtualDirectory_entries :: "VirtualFile \<Rightarrow> entries option" where
  "VirtualDirectory_entries v =
     (case vf_class v of MemoryDirectory e \<Rightarrow> Some e | FlashDirectory e \<Rightarrow> Some e | _ \<Rightarrow> None)"

definition VirtualDirectory_put :: "VirtualFile \<Rightarrow> entries \<Rightarrow> VirtualFile" where
  "VirtualDirectory_put v e =
     (case vf_class v of
        MemoryDirectory _ \<Rightarrow> v\<lparr>vf_class := MemoryDirectory e\<rparr>
      | FlashDirectory _ \<Rightarrow> v\<lparr>vf_class := FlashDirectory e\<rparr>
      | _ \<Rightarrow> v)"

text \<open>\<^verbatim>\<open>dynamic_cast<VirtualDirectory*>(file)->m_entries.set(name, value)\<close>\<close>

definition entries_set :: "FS \<Rightarrow> nat \<Rightarrow> string \<Rightarrow> nat \<Rightarrow> FS outcome" where
  "entries_set fs d name f =
     bindE (file_at fs d) (\<lambda>v.
     case VirtualDirectory_entries v of
       None \<Rightarrow> Inl (UNDEFINED ''null pointer'')
     | Some e \<Rightarrow> bindE (HashMap_set name_hash e (FileName name) f) (\<lambda>e.
         Inr (put_file fs d (VirtualDirectory_put v e))))"

definition MemoryDirectory_new :: "FS \<Rightarrow> (nat \<times> FS) outcome" where
  "MemoryDirectory_new fs =
     (let (ino, fs) = MemoryFileSystem_next_ino fs;
          (d, fs) = new_file fs ((VirtualFile_new (MemoryDirectory HashMap_new))\<lparr>vf_m_filesystem := Ram,
             vf_m_ino := ino, vf_m_mode := Mode_Directory, vf_m_size := Some 0xdead\<rparr>)
      in bindE (entries_set fs d ''.'' d) (\<lambda>fs.
         bindE (entries_set fs d ''..'' d) (\<lambda>fs. Inr (d, fs))))"

definition FlashFile_new :: "FS \<Rightarrow> FileInfo \<Rightarrow> nat \<times> FS" where
  "FlashFile_new fs info =
     new_file fs ((VirtualFile_new (FlashFile (fi_bytes info)))\<lparr>vf_m_filesystem := Flash,
       vf_m_ino := fi_st_ino info, vf_m_mode := fi_st_mode info,
       vf_m_size := Some (of_nat (length (fi_bytes info)))\<rparr>)"

text \<open>The constructor of a flash directory builds the tree below its inode.\<close>

function FlashDirectory_new :: "FS \<Rightarrow> FileInfo \<Rightarrow> (nat \<times> FS) outcome"
  and FlashDirectory_loop :: "FS \<Rightarrow> nat \<Rightarrow> (string \<times> FileInfo) list \<Rightarrow> FS outcome" where
  "FlashDirectory_new fs info =
     (let (d, fs) = new_file fs ((VirtualFile_new (FlashDirectory HashMap_new))\<lparr>vf_m_filesystem := Flash,
             vf_m_ino := fi_st_ino info, vf_m_mode := fi_st_mode info, vf_m_size := Some 0xdead\<rparr>)
      in bindE (entries_set fs d ''.'' d) (\<lambda>fs.
         bindE (entries_set fs d ''..'' d) (\<lambda>fs.
         bindE (FlashDirectory_loop fs d (fi_entries info)) (\<lambda>fs. Inr (d, fs)))))"
| "FlashDirectory_loop fs d [] = Inr fs"
| "FlashDirectory_loop fs d ((m_name, m_info) # entries) =
     bindE (if fi_st_mode m_info AND Mode_Format = Mode_Directory
            then bindE (FlashDirectory_new fs m_info) (\<lambda>(new_directory, fs).
                 bindE (entries_set fs new_directory ''..'' d) (\<lambda>fs.
                 entries_set fs d m_name new_directory))
            else checkE (fi_st_mode m_info AND Mode_Format = Mode_Regular)
                   (VERIFY ''(entry->m_info->st_mode & Format) == Regular'')
                   (let (f, fs) = FlashFile_new fs m_info in entries_set fs d m_name f))
       (\<lambda>fs. FlashDirectory_loop fs d entries)"
  by pat_completeness auto
termination
proof (relation "measure (case_sum (\<lambda>(_, info). size info)
    (\<lambda>(_, _, es). size_list (size_prod (\<lambda>_. 0) size) es))", goal_cases)
  case (2 fs info)
  show ?case by (cases info) auto
qed auto

declare FlashDirectory_new.simps [simp del] FlashDirectory_loop.simps(2) [simp del]


subsection \<open>Handles\<close>

text \<open>
  \<^verbatim>\<open>create_handle\<close> of a device node goes on with the file of its device; \<open>fuel\<close> bounds how
  often, as a device could be a device node again.
\<close>

definition create_handle_impl :: "FS \<Rightarrow> nat \<Rightarrow> VirtualFile \<Rightarrow> (nat \<times> FS) outcome" where
  "create_handle_impl fs f v =
     (case vf_class v of
        MemoryFile _ \<Rightarrow> Inr (new_handle fs (MemoryFileHandle f 0))
      | FlashFile _ \<Rightarrow> Inr (new_handle fs (FlashFileHandle f 0))
      | MemoryDirectory e \<Rightarrow> bindE (SortedSet_inorder e) (\<lambda>it. Inr (new_handle fs (MemoryDirectoryHandle f it)))
      | FlashDirectory e \<Rightarrow> bindE (SortedSet_inorder e) (\<lambda>it. Inr (new_handle fs (FlashDirectoryHandle f it)))
      | ConsoleFile \<Rightarrow> Inr (new_handle fs ConsoleFileHandle))"

fun VirtualFile_create_handle :: "nat \<Rightarrow> FS \<Rightarrow> nat \<Rightarrow> (nat \<times> FS) outcome" where
  "VirtualFile_create_handle fuel fs f =
     bindE (file_at fs f) (\<lambda>v.
     if vf_m_mode v AND Mode_Format = Mode_Device
     then if fuel = 0 then Inl DIVERGES
          else bindE (HashMap_get_opt Hash_u32_compute (fs_m_devices fs) (vf_m_device_id v)) (\<lambda>device.
               case device of
                 None \<Rightarrow> Inl (VERIFY ''is_valid()'')
               | Some g \<Rightarrow> VirtualFile_create_handle (fuel - 1) fs g)
     else create_handle_impl fs f v)"

declare VirtualFile_create_handle.simps [simp del]

definition DeviceFileSystem_create_device_handle :: "nat \<Rightarrow> FS \<Rightarrow> u32 \<Rightarrow> (nat \<times> FS) outcome" where
  "DeviceFileSystem_create_device_handle fuel fs device_id =
     bindE (HashMap_get_opt Hash_u32_compute (fs_m_devices fs) device_id) (\<lambda>device.
     case device of
       None \<Rightarrow> Inl (VERIFY ''is_valid()'')
     | Some g \<Rightarrow> VirtualFile_create_handle fuel fs g)"

definition DeviceFileSystem_add_device :: "FS \<Rightarrow> u32 \<Rightarrow> nat \<Rightarrow> FS outcome" where
  "DeviceFileSystem_add_device fs device_id f =
     bindE (HashMap_set Hash_u32_compute (fs_m_devices fs) device_id f) (\<lambda>d. Inr (fs\<lparr>fs_m_devices := d\<rparr>))"

definition VirtualFile_truncate :: "FS \<Rightarrow> nat \<Rightarrow> FS outcome" where
  "VirtualFile_truncate fs f =
     bindE (file_at fs f) (\<lambda>v.
     case vf_class v of
       MemoryFile _ \<Rightarrow> Inr (put_file fs f (v\<lparr>vf_class := MemoryFile [], vf_m_size := Some 0\<rparr>))
     | _ \<Rightarrow> Inl VERIFY_NOT_REACHED)"

definition MemoryFile_append :: "FS \<Rightarrow> nat \<Rightarrow> u8 Span \<Rightarrow> FS outcome" where
  "MemoryFile_append fs f bytes =
     bindE (file_at fs f) (\<lambda>v.
     case vf_class v of
       MemoryFile m_data \<Rightarrow>
         Inr (put_file fs f (v\<lparr>vf_class := MemoryFile (m_data @ view bytes),
           vf_m_size := map_option (\<lambda>n. n + Span_size bytes) (vf_m_size v)\<rparr>))
     | _ \<Rightarrow> Inl (UNDEFINED ''null pointer''))"

definition file_bytes :: "VirtualFile \<Rightarrow> u8 Span" where
  "file_bytes v =
     (case vf_class v of
        MemoryFile m_data \<Rightarrow> Span_of m_data (of_nat (length m_data))
      | FlashFile m_data \<Rightarrow> Span_of m_data (of_nat (length m_data))
      | _ \<Rightarrow> Span_new)"

definition put_handle :: "FS \<Rightarrow> nat \<Rightarrow> Handle \<Rightarrow> FS" where
  "put_handle fs h k = fs\<lparr>fs_handles := (fs_handles fs)[h := k]\<rparr>"

text \<open>\<^verbatim>\<open>UserlandDirectoryInfo\<close>: the name in 252 bytes, then the inode number.\<close>

definition directory_info :: "FS \<Rightarrow> string \<Rightarrow> u32 \<Rightarrow> u8 Span outcome" where
  "directory_info fs name ino =
     bindE (StringView_strcpy_to (Span_of (name @ [CHR 0x00]) (of_nat (length name)))
              (Span_of (map (\<lambda>b. char_of (unat b)) (fs_stack fs)) 252)) (\<lambda>d_name.
     Inr (Span_of (map of_char (sp_m_data d_name) @ u32_bytes ino) 256))"

definition DirectoryHandle_read ::
  "FS \<Rightarrow> nat \<Rightarrow> nat \<Rightarrow> u8 Span \<Rightarrow> (usize KernelResult \<times> nat \<times> u8 Span) outcome" where
  "DirectoryHandle_read fs m_directory m_iterator bytes =
     checkE (Span_size bytes = 256) (ASSERT ''bytes.size() == sizeof(UserlandDirectoryInfo)'')
     (if m_iterator = 0 then Inr (Result_from_value 0, m_iterator, bytes)
      else bindE (file_at fs m_directory) (\<lambda>v.
        case VirtualDirectory_entries v of
          None \<Rightarrow> Inl (UNDEFINED ''null pointer'')
        | Some entries \<Rightarrow>
            bindE (node_at entries m_iterator) (\<lambda>node.
            bindE (InorderIterator_next entries m_iterator) (\<lambda>m_iterator.
            case hmn_m_value (htn_m_value (sn_m_value node)) of
              None \<Rightarrow> Inl (VERIFY ''is_valid()'')
            | Some file \<Rightarrow>
                bindE (file_at fs file) (\<lambda>entry.
                bindE (directory_info fs (name_chars (hmn_m_key (htn_m_value (sn_m_value node)))) (vf_m_ino entry)) (\<lambda>info.
                bindE (Span_copy_to info bytes) (\<lambda>(n, bytes).
                Inr (Result_from_value n, m_iterator, bytes))))))))"

definition FileHandle_read ::
  "VirtualFile \<Rightarrow> usize \<Rightarrow> u8 Span \<Rightarrow> (usize KernelResult \<times> usize \<times> u8 Span) outcome" where
  "FileHandle_read v m_offset bytes =
     bindE (Span_slice (file_bytes v) m_offset) (\<lambda>rest.
     bindE (Span_copy_trimmed_to rest bytes) (\<lambda>(nread, bytes).
     Inr (Result_from_value nread, m_offset + nread, bytes)))"

definition VirtualFileHandle_read ::
  "FS \<Rightarrow> nat \<Rightarrow> u8 Span \<Rightarrow> (usize KernelResult \<times> FS \<times> u8 Span) outcome" where
  "VirtualFileHandle_read fs h bytes =
     (case fs_handles fs ! h of
        MemoryFileHandle f m_offset \<Rightarrow>
          bindE (file_at fs f) (\<lambda>v. bindE (FileHandle_read v m_offset bytes) (\<lambda>(r, m_offset, bytes).
          Inr (r, put_handle fs h (MemoryFileHandle f m_offset), bytes)))
      | FlashFileHandle f m_offset \<Rightarrow>
          bindE (file_at fs f) (\<lambda>v. bindE (FileHandle_read v m_offset bytes) (\<lambda>(r, m_offset, bytes).
          Inr (r, put_handle fs h (FlashFileHandle f m_offset), bytes)))
      | MemoryDirectoryHandle d it \<Rightarrow>
          bindE (DirectoryHandle_read fs d it bytes) (\<lambda>(r, it, bytes).
          Inr (r, put_handle fs h (MemoryDirectoryHandle d it), bytes))
      | FlashDirectoryHandle d it \<Rightarrow>
          bindE (DirectoryHandle_read fs d it bytes) (\<lambda>(r, it, bytes).
          Inr (r, put_handle fs h (FlashDirectoryHandle d it), bytes))
      | ConsoleFileHandle \<Rightarrow>
          bindE (ConsoleFileHandle_read (fs_uart fs) bytes) (\<lambda>(r, uart, bytes).
          Inr (r, fs\<lparr>fs_uart := uart\<rparr>, bytes)))"

definition VirtualFileHandle_write :: "FS \<Rightarrow> nat \<Rightarrow> u8 Span \<Rightarrow> (usize KernelResult \<times> FS) outcome" where
  "VirtualFileHandle_write fs h bytes =
     (case fs_handles fs ! h of
        MemoryFileHandle f m_offset \<Rightarrow>
          bindE (MemoryFile_append fs f bytes) (\<lambda>fs.
          Inr (Result_from_value (Span_size bytes), put_handle fs h (MemoryFileHandle f (m_offset + Span_size bytes))))
      | ConsoleFileHandle \<Rightarrow>
          bindE (ConsoleFileHandle_write (Suc (length (ua_writable (fs_uart fs)))) (fs_uart fs) bytes) (\<lambda>(r, uart).
          Inr (r, fs\<lparr>fs_uart := uart\<rparr>))
      | _ \<Rightarrow> Inl VERIFY_NOT_REACHED)"

definition VirtualFileHandle_file :: "FS \<Rightarrow> nat \<Rightarrow> nat" where
  "VirtualFileHandle_file fs h =
     (case fs_handles fs ! h of
        MemoryFileHandle f _ \<Rightarrow> f
      | FlashFileHandle f _ \<Rightarrow> f
      | MemoryDirectoryHandle d _ \<Rightarrow> d
      | FlashDirectoryHandle d _ \<Rightarrow> d
      | ConsoleFileHandle \<Rightarrow> fs_console fs)"

subsection \<open>Looking up paths\<close>

fun lookup_loop :: "FS \<Rightarrow> string list \<Rightarrow> nat \<Rightarrow> nat outcome" where
  "lookup_loop fs [] file = Inr file"
| "lookup_loop fs (component # cs) file =
     bindE (file_at fs file) (\<lambda>v.
     case VirtualDirectory_entries v of
       None \<Rightarrow> Inl (ASSERT ''directory != nullptr'')
     | Some m_entries \<Rightarrow>
         bindE (HashMap_get_opt name_hash m_entries (FileName component)) (\<lambda>file_opt.
         case file_opt of
           None \<Rightarrow> Inl (VERIFY ''is_valid()'')
         | Some file \<Rightarrow> lookup_loop fs cs file))"

definition FileSystem_lookup :: "FS \<Rightarrow> Path \<Rightarrow> nat outcome" where
  "FileSystem_lookup fs path =
     checkE (pa_m_is_absolute path) (VERIFY ''path.is_absolute()'')
       (lookup_loop fs (pa_m_components path) (fs_m_root fs))"

fun try_lookup_loop :: "FS \<Rightarrow> string list \<Rightarrow> nat \<Rightarrow> nat KernelResult outcome" where
  "try_lookup_loop fs [] file = Inr (Result_from_value file)"
| "try_lookup_loop fs (component # cs) file =
     bindE (file_at fs file) (\<lambda>v.
     case VirtualDirectory_entries v of
       None \<Rightarrow> Inr (Result_from_error ENOTDIR)
     | Some m_entries \<Rightarrow>
         bindE (HashMap_get_opt name_hash m_entries (FileName component)) (\<lambda>file_opt.
         case file_opt of
           None \<Rightarrow> Inr (Result_from_error ENOENT)
         | Some file \<Rightarrow> try_lookup_loop fs cs file))"

definition FileSystem_try_lookup :: "FS \<Rightarrow> Path \<Rightarrow> nat KernelResult outcome" where
  "FileSystem_try_lookup fs path =
     checkE (pa_m_is_absolute path) (VERIFY ''path.is_absolute()'')
       (try_lookup_loop fs (pa_m_components path) (fs_m_root fs))"

subsection \<open>Booting the file systems\<close>

definition FS_new :: "UART \<Rightarrow> u8 list \<Rightarrow> FS" where
  "FS_new uart stack =
     \<lparr>fs_files = [VirtualFile_new ConsoleFile], fs_handles = [], fs_m_root = 0, fs_flash_m_root = 0,
      fs_m_next_ino = 2, fs_m_devices = HashMap_new, fs_console = 0, fs_uart = uart,
      fs_stack = stack\<rparr>"

definition FlashFileSystem_new :: "FS \<Rightarrow> FileInfo \<Rightarrow> FS outcome" where
  "FlashFileSystem_new fs flash_root =
     bindE (FlashDirectory_new fs flash_root) (\<lambda>(d, fs).
     bindE (file_at fs d) (\<lambda>v.
     checkE (vf_m_ino v = 2) (VERIFY ''m_root->m_ino == 2'') (Inr (fs\<lparr>fs_flash_m_root := d\<rparr>))))"

definition MemoryFileSystem_new :: "FS \<Rightarrow> FS outcome" where
  "MemoryFileSystem_new fs =
     bindE (MemoryDirectory_new fs) (\<lambda>(m_root, fs).
     let fs = fs\<lparr>fs_m_root := m_root\<rparr> in
     bindE (file_at fs m_root) (\<lambda>v.
     checkE (vf_m_ino v = 2) (ASSERT ''m_root->m_ino == 2'')
     (bindE (entries_set fs m_root ''.'' m_root) (\<lambda>fs.
      bindE (entries_set fs m_root ''..'' m_root) (\<lambda>fs.
      bindE (MemoryDirectory_new fs) (\<lambda>(dev_directory, fs).
      bindE (entries_set fs dev_directory ''..'' m_root) (\<lambda>fs.
      bindE (entries_set fs m_root ''dev'' dev_directory) (\<lambda>fs.
      let bin_directory = fs_flash_m_root fs in
      bindE (entries_set fs bin_directory ''..'' m_root) (\<lambda>fs.
      entries_set fs m_root ''bin'' bin_directory)))))))))"

definition DeviceFileSystem_new :: "FS \<Rightarrow> FS outcome" where
  "DeviceFileSystem_new fs =
     bindE (FileSystem_lookup fs \<lparr>pa_m_is_absolute = True, pa_m_components = [''dev'']\<rparr>) (\<lambda>dev_directory.
     bindE (DeviceFileSystem_add_device fs 0x00010001 (fs_console fs)) (\<lambda>fs.
     let (tty_file, fs) = MemoryFile_new fs in
     bindE (file_at fs tty_file) (\<lambda>v.
     let fs = put_file fs tty_file (v\<lparr>vf_m_mode := Mode_Device, vf_m_device_id := 0x00010001\<rparr>)
     in entries_set fs dev_directory ''tty'' tty_file)))"

definition boot_files :: "FS \<Rightarrow> FileInfo \<Rightarrow> FS outcome" where
  "boot_files fs flash_root =
     bindE (FlashFileSystem_new fs flash_root) (\<lambda>fs.
     bindE (MemoryFileSystem_new fs) (\<lambda>fs.
     bindE (DeviceFileSystem_new fs) (\<lambda>fs.
     let (example_file, fs) = MemoryFile_new fs in
     bindE (VirtualFile_create_handle 1 fs example_file) (\<lambda>(example_handle, fs).
     bindE (VirtualFileHandle_write fs example_handle (bytes_of (''Hello, world!'' @ [CHR 0x0A]))) (\<lambda>(_, fs).
     bindE (FileSystem_lookup fs \<lparr>pa_m_is_absolute = True, pa_m_components = []\<rparr>) (\<lambda>root_file.
     entries_set fs root_file ''example.txt'' example_file))))))"

end
