(* ===== verification/Processes.thy ===== *)
theory Processes
  imports Files Circular_Queue
begin

section \<open>Kernel/Process.hpp and the system calls of Kernel/Threads/Thread.cpp\<close>

text \<open>
  Processes with their working directory, descriptors and terminated children, and the handlers of
  the system calls.  A process pointer is an index into the list of processes, which are never
  deleted here.  \<^verbatim>\<open>i32\<close> values are integers.  A pointer into user memory is what it points to: a
  terminated string or a span; a handler returns what it writes there.  Debug output has no part
  in the model.
\<close>

record TerminatedProcess =
  tp_m_process_id :: int
  tp_m_status :: int

record Process =
  pr_m_working_directory :: Path
  pr_m_name :: string
  pr_m_parent :: "nat option"
  pr_m_process_id :: int
  pr_m_terminated_children :: "TerminatedProcess CircularQueue"
  pr_m_handles :: "(int, nat) HashMap"
  pr_m_next_handle_id :: int

record Kernel =
  ke_fs :: FS
  ke_processes :: "Process list"
  ke_m_next_process_id :: int

definition i32_hash :: "int \<Rightarrow> u32" where "i32_hash k = Hash_u32_compute (of_int k)"

definition i32_increment :: "int \<Rightarrow> int outcome" where
  "i32_increment n = (if n = 2 ^ 31 - 1 then Inl (UNDEFINED ''signed overflow'') else Inr (n + 1))"

definition process_at :: "Kernel \<Rightarrow> nat \<Rightarrow> Process outcome" where
  "process_at k p =
     (if p < length (ke_processes k) then Inr (ke_processes k ! p) else Inl (UNDEFINED ''null pointer''))"

definition put_process :: "Kernel \<Rightarrow> nat \<Rightarrow> Process \<Rightarrow> Kernel" where
  "put_process k p pr = k\<lparr>ke_processes := (ke_processes k)[p := pr]\<rparr>"

definition Process_add_file_handle :: "Process \<Rightarrow> nat \<Rightarrow> (int \<times> Process) outcome" where
  "Process_add_file_handle pr handle =
     (let handle_id = pr_m_next_handle_id pr
      in bindE (i32_increment (pr_m_next_handle_id pr)) (\<lambda>next_id.
         bindE (HashMap_set i32_hash (pr_m_handles pr) handle_id handle) (\<lambda>handles.
         Inr (handle_id, pr\<lparr>pr_m_next_handle_id := next_id, pr_m_handles := handles\<rparr>))))"

definition Process_get_file_handle :: "Process \<Rightarrow> int \<Rightarrow> nat outcome" where
  "Process_get_file_handle pr fd =
     bindE (HashMap_get_opt i32_hash (pr_m_handles pr) fd) (\<lambda>handle.
     case handle of None \<Rightarrow> Inl (VERIFY ''is_valid()'') | Some h \<Rightarrow> Inr h)"

definition Path_root :: Path where
  "Path_root = \<lparr>pa_m_is_absolute = True, pa_m_components = []\<rparr>"

definition Path_dev_tty :: Path where
  "Path_dev_tty = \<lparr>pa_m_is_absolute = True, pa_m_components = [''dev'', ''tty'']\<rparr>"

definition Process_new :: "Kernel \<Rightarrow> string \<Rightarrow> (nat \<times> Kernel) outcome" where
  "Process_new k name =
     (let m_process_id = ke_m_next_process_id k
      in bindE (i32_increment (ke_m_next_process_id k)) (\<lambda>next_id.
         let pr = \<lparr>pr_m_working_directory = Path_root, pr_m_name = name, pr_m_parent = None,
               pr_m_process_id = m_process_id, pr_m_terminated_children = CircularQueue_new 8,
               pr_m_handles = HashMap_new, pr_m_next_handle_id = 0\<rparr>
         in bindE (FileSystem_lookup (ke_fs k) Path_dev_tty) (\<lambda>tty_file.
            bindE (VirtualFile_create_handle 1 (ke_fs k) tty_file) (\<lambda>(h0, fs).
            bindE (Process_add_file_handle pr h0) (\<lambda>(stdin_fileno, pr).
            checkE (stdin_fileno = 0) (VERIFY ''stdin_fileno == 0'')
            (bindE (VirtualFile_create_handle 1 fs tty_file) (\<lambda>(h1, fs).
             bindE (Process_add_file_handle pr h1) (\<lambda>(stdout_fileno, pr).
             checkE (stdout_fileno = 1) (VERIFY ''stdout_fileno == 1'')
             (bindE (VirtualFile_create_handle 1 fs tty_file) (\<lambda>(h2, fs).
              bindE (Process_add_file_handle pr h2) (\<lambda>(stderr_fileno, pr).
              checkE (stderr_fileno = 2) (VERIFY ''stderr_fileno == 2'')
                (Inr (length (ke_processes k),
                      k\<lparr>ke_fs := fs, ke_processes := ke_processes k @ [pr],
                        ke_m_next_process_id := next_id\<rparr>)))))))))))))"

subsection \<open>System calls\<close>

definition Path_of_cstring :: "string \<Rightarrow> Path outcome" where
  "Path_of_cstring path = bindE (strlen path) (\<lambda>n. Path_new (Span_of path n))"

text \<open>\<^verbatim>\<open>if (!path.is_absolute()) path = m_process->m_working_directory / path;\<close>\<close>

definition absolute_path :: "Process \<Rightarrow> Path \<Rightarrow> Path outcome" where
  "absolute_path pr path =
     (if \<not> pa_m_is_absolute path then Path_append (pr_m_working_directory pr) path else Inr path)"

definition result_i32 :: "usize KernelResult \<Rightarrow> int outcome" where
  "result_i32 r =
     (if Result_is_error r then bindE (Result_error r) (\<lambda>e. Inr (- e))
      else bindE (Result_value r) (\<lambda>v. Inr (sint v)))"

definition sys_read :: "Kernel \<Rightarrow> nat \<Rightarrow> int \<Rightarrow> u8 Span \<Rightarrow> (int \<times> Kernel \<times> u8 Span) outcome" where
  "sys_read k p fd buffer =
     bindE (process_at k p) (\<lambda>pr.
     bindE (Process_get_file_handle pr fd) (\<lambda>handle.
     bindE (VirtualFileHandle_read (ke_fs k) handle buffer) (\<lambda>(r, fs, buffer).
     bindE (result_i32 r) (\<lambda>n. Inr (n, k\<lparr>ke_fs := fs\<rparr>, buffer)))))"

definition sys_write :: "Kernel \<Rightarrow> nat \<Rightarrow> int \<Rightarrow> u8 Span \<Rightarrow> (int \<times> Kernel) outcome" where
  "sys_write k p fd buffer =
     bindE (process_at k p) (\<lambda>pr.
     bindE (Process_get_file_handle pr fd) (\<lambda>handle.
     bindE (VirtualFileHandle_write (ke_fs k) handle buffer) (\<lambda>(r, fs).
     bindE (result_i32 r) (\<lambda>n. Inr (n, k\<lparr>ke_fs := fs\<rparr>)))))"

text \<open>The common end of the paths through \<^verbatim>\<open>sys$open\<close> that give a descriptor.\<close>

definition open_handle :: "Kernel \<Rightarrow> nat \<Rightarrow> nat \<Rightarrow> (int \<times> Kernel) outcome" where
  "open_handle k p file =
     bindE (VirtualFile_create_handle 1 (ke_fs k) file) (\<lambda>(handle, fs).
     bindE (process_at k p) (\<lambda>pr.
     bindE (Process_add_file_handle pr handle) (\<lambda>(fd, pr).
     Inr (fd, put_process (k\<lparr>ke_fs := fs\<rparr>) p pr))))"

definition sys_open_create :: "Kernel \<Rightarrow> nat \<Rightarrow> Path \<Rightarrow> (int \<times> Kernel) outcome" where
  "sys_open_create k p path =
     bindE (Path_parent path) (\<lambda>parent.
     bindE (FileSystem_try_lookup (ke_fs k) parent) (\<lambda>parent_opt.
     if Result_is_error parent_opt then Inr (- ENOTDIR, k)
     else let (new_file, fs) = MemoryFile_new (ke_fs k)
          in bindE (Result_value parent_opt) (\<lambda>directory.
             bindE (Path_filename path) (\<lambda>name.
             bindE (entries_set fs directory name new_file) (\<lambda>fs.
             open_handle (k\<lparr>ke_fs := fs\<rparr>) p new_file)))))"

definition sys_open_existing :: "Kernel \<Rightarrow> nat \<Rightarrow> nat \<Rightarrow> u32 \<Rightarrow> (int \<times> Kernel) outcome" where
  "sys_open_existing k p file flags =
     bindE (file_at (ke_fs k) file) (\<lambda>v.
     if flags AND O_DIRECTORY \<noteq> 0 \<and> vf_m_mode v AND Mode_Format \<noteq> Mode_Directory
     then Inr (- ENOTDIR, k)
     else if flags AND O_TRUNC \<noteq> 0
     then if vf_m_mode v AND Mode_Format \<noteq> Mode_Regular
          then checkE (vf_m_mode v AND Mode_Format = Mode_Directory)
                 (ASSERT ''(file->m_mode & ModeFlags::Format) == ModeFlags::Directory'')
                 (Inr (- EISDIR, k))
          else bindE (VirtualFile_truncate (ke_fs k) file) (\<lambda>fs. open_handle (k\<lparr>ke_fs := fs\<rparr>) p file)
     else open_handle k p file)"

definition sys_open :: "Kernel \<Rightarrow> nat \<Rightarrow> string \<Rightarrow> u32 \<Rightarrow> (int \<times> Kernel) outcome" where
  "sys_open k p pathname flags =
     bindE (process_at k p) (\<lambda>pr.
     bindE (Path_of_cstring pathname) (\<lambda>path.
     bindE (absolute_path pr path) (\<lambda>path.
     bindE (FileSystem_try_lookup (ke_fs k) path) (\<lambda>file_opt.
     if Result_is_error file_opt
     then bindE (Result_error file_opt) (\<lambda>error.
          if error = ENOENT \<and> flags AND O_CREAT \<noteq> 0 then sys_open_create k p path
          else Inr (- error, k))
     else bindE (Result_value file_opt) (\<lambda>file. sys_open_existing k p file flags)))))"

definition sys_close :: "Kernel \<Rightarrow> nat \<Rightarrow> int \<Rightarrow> (int \<times> Kernel) outcome" where
  "sys_close k p fd = Inr (0, k)"

record UserlandFileInfo =
  st_dev :: FileSystemId
  st_ino :: u32
  st_mode :: u32
  st_rdev :: u32
  st_size :: u32
  st_blksize :: u32
  st_blocks :: u32
  st_uid :: u32
  st_gid :: u32

definition sys_fstat :: "Kernel \<Rightarrow> nat \<Rightarrow> int \<Rightarrow> (int \<times> UserlandFileInfo) outcome" where
  "sys_fstat k p fd =
     bindE (process_at k p) (\<lambda>pr.
     bindE (Process_get_file_handle pr fd) (\<lambda>handle.
     bindE (file_at (ke_fs k) (VirtualFileHandle_file (ke_fs k) handle)) (\<lambda>file.
     case vf_m_size file of
       None \<Rightarrow> Inl (UNDEFINED ''uninitialised m_size'')
     | Some m_size \<Rightarrow> Inr (0, \<lparr>st_dev = vf_m_filesystem file, st_ino = vf_m_ino file,
         st_mode = vf_m_mode file, st_rdev = vf_m_device_id file, st_size = m_size,
         st_blksize = 0xdead, st_blocks = 0xdead, st_uid = vf_m_owning_user file,
         st_gid = vf_m_owning_group file\<rparr>))))"

definition sys_get_working_directory :: "Kernel \<Rightarrow> nat \<Rightarrow> char Span \<Rightarrow> (int \<times> usize \<times> char Span) outcome" where
  "sys_get_working_directory k p buffer =
     bindE (process_at k p) (\<lambda>pr.
     let str = Path_string (pr_m_working_directory pr); sz = of_nat (length str)
     in if sz + 1 > Span_size buffer then Inr (- ERANGE, sz + 1, buffer)
        else bindE (StringView_strcpy_to (Span_of (str @ [CHR 0x00]) sz) buffer) (\<lambda>buffer.
             Inr (0, sz + 1, buffer)))"

definition sys_chdir :: "Kernel \<Rightarrow> nat \<Rightarrow> string \<Rightarrow> (int \<times> Kernel) outcome" where
  "sys_chdir k p pathname =
     bindE (process_at k p) (\<lambda>pr.
     bindE (Path_of_cstring pathname) (\<lambda>path.
     bindE (absolute_path pr path) (\<lambda>path.
     bindE (FileSystem_try_lookup (ke_fs k) path) (\<lambda>file_opt.
     if Result_is_error file_opt then bindE (Result_error file_opt) (\<lambda>error. Inr (- error, k))
     else bindE (Result_value file_opt) (\<lambda>file.
          bindE (file_at (ke_fs k) file) (\<lambda>v.
          if vf_m_mode v AND Mode_Format \<noteq> Mode_Directory then Inr (- ENOTDIR, k)
          else Inr (0, put_process k p (pr\<lparr>pr_m_working_directory := path\<rparr>))))))))"

text \<open>
  One look of \<^verbatim>\<open>sys$wait\<close> at the queue of terminated children; \<open>None\<close> is going round its
  loop again.  The result is the process identifier and the status written to user memory.
\<close>

definition sys_wait_poll :: "Kernel \<Rightarrow> nat \<Rightarrow> ((int \<times> int) option \<times> Kernel) outcome" where
  "sys_wait_poll k p =
     bindE (process_at k p) (\<lambda>pr.
     if CircularQueue_size (pr_m_terminated_children pr) > 0
     then bindE (CircularQueue_dequeue (pr_m_terminated_children pr)) (\<lambda>(child, children).
          Inr (Some (tp_m_process_id child, tp_m_status child),
               put_process k p (pr\<lparr>pr_m_terminated_children := children\<rparr>)))
     else Inr (None, k))"

definition sys_exit :: "Kernel \<Rightarrow> nat \<Rightarrow> int \<Rightarrow> (int \<times> Kernel) outcome" where
  "sys_exit k p status =
     bindE (process_at k p) (\<lambda>pr.
     case pr_m_parent pr of
       None \<Rightarrow> Inr (- 1, k)
     | Some parent \<Rightarrow>
         bindE (process_at k parent) (\<lambda>q.
         bindE (CircularQueue_enqueue \<lparr>tp_m_process_id = pr_m_process_id pr, tp_m_status = status\<rparr>
                  (pr_m_terminated_children q)) (\<lambda>(_, children).
         checkE (CircularQueue_size children > 0) (ASSERT ''m_terminated_children.size() > 0'')
           (Inr (- 1, put_process k parent (q\<lparr>pr_m_terminated_children := children\<rparr>))))))"

text \<open>
  Spawning: the image of the executable is handed to the loader, together with the arguments and
  the environment for the new process.
\<close>

record SpawnRequest =
  sr_image :: "u8 list"
  sr_host_path :: string
  sr_arguments :: "string list"
  sr_variables :: "string list"

definition system_to_host :: "string \<rightharpoonup> string" where
  "system_to_host = Map.empty
     (''/bin/Shell.elf'' \<mapsto> ''Userland/Shell.1.elf'',
      ''/bin/Example.elf'' \<mapsto> ''Userland/Example.1.elf'',
      ''/bin/Editor.elf'' \<mapsto> ''Userland/Editor.1.elf'')"

definition sys_posix_spawn ::
  "Kernel \<Rightarrow> nat \<Rightarrow> string \<Rightarrow> bool \<Rightarrow> bool \<Rightarrow> string list \<Rightarrow> string list
     \<Rightarrow> (int \<times> int \<times> SpawnRequest \<times> Kernel) outcome" where
  "sys_posix_spawn k p pathname file_actions attrp argv envp =
     checkE (\<not> file_actions) (FIXME_ASSERT ''file_actions == nullptr'')
     (checkE (\<not> attrp) (FIXME_ASSERT ''attrp == nullptr'')
     (let arguments = [] @ argv;
          environment = [];
          arguments = arguments @ envp
      in bindE (process_at k p) (\<lambda>pr.
         bindE (Path_of_cstring pathname) (\<lambda>path.
         bindE (absolute_path pr path) (\<lambda>path.
         bindE (FileSystem_lookup (ke_fs k) path) (\<lambda>file.
         bindE (file_at (ke_fs k) file) (\<lambda>v.
         case vf_class v of
           FlashFile m_data \<Rightarrow>
             (case system_to_host (Path_string path) of
                None \<Rightarrow> Inl (VERIFY ''is_valid()'')
              | Some host_path \<Rightarrow>
                  bindE (Process_new k pathname) (\<lambda>(q, k).
                  bindE (process_at k q) (\<lambda>new_process.
                  let new_process = new_process\<lparr>pr_m_parent := Some p,
                        pr_m_working_directory := pr_m_working_directory pr\<rparr>
                  in Inr (0, pr_m_process_id new_process,
                       \<lparr>sr_image = m_data, sr_host_path = host_path,
                        sr_arguments = arguments, sr_variables = environment\<rparr>,
                       put_process k q new_process))))
         | _ \<Rightarrow> Inl VERIFY_NOT_REACHED)))))))"

subsection \<open>The dispatcher\<close>

text \<open>
  The three argument registers as the handlers read them: \<open>a_int\<close> is the first register as a
  number, \<open>a_cstring\<close> as a string, \<open>a_buffer\<close> the memory at the second register with the size
  in the third, \<open>a_value\<close> the second register as a number.
\<close>

record SyscallArguments =
  a_int :: int
  a_cstring :: string
  a_buffer :: "u8 Span"
  a_chars :: "char Span"
  a_value :: u32
  a_spawn_path :: string
  a_file_actions :: bool
  a_attrp :: bool
  a_argv :: "string list"
  a_envp :: "string list"

datatype SyscallOutput =
    NoOutput
  | Bytes "u8 Span"
  | Chars usize "char Span"
  | Stat UserlandFileInfo
  | Pid int SpawnRequest
  | Status int
  | Waiting

definition Thread_syscall ::
  "Kernel \<Rightarrow> nat \<Rightarrow> u32 \<Rightarrow> SyscallArguments \<Rightarrow> (int \<times> SyscallOutput \<times> Kernel) outcome" where
  "Thread_syscall k p syscall a =
     (if syscall = 1 then bindE (sys_read k p (a_int a) (a_buffer a)) (\<lambda>(r, k, b). Inr (r, Bytes b, k))
      else if syscall = 2 then bindE (sys_write k p (a_int a) (a_buffer a)) (\<lambda>(r, k). Inr (r, NoOutput, k))
      else if syscall = 3 then bindE (sys_open k p (a_cstring a) (a_value a)) (\<lambda>(r, k). Inr (r, NoOutput, k))
      else if syscall = 4 then bindE (sys_close k p (a_int a)) (\<lambda>(r, k). Inr (r, NoOutput, k))
      else if syscall = 5 then bindE (sys_fstat k p (a_int a)) (\<lambda>(r, s). Inr (r, Stat s, k))
      else if syscall = 13 then bindE (sys_get_working_directory k p (a_chars a)) (\<lambda>(r, n, b). Inr (r, Chars n b, k))
      else if syscall = 12 then
        bindE (sys_posix_spawn k p (a_spawn_path a) (a_file_actions a) (a_attrp a) (a_argv a) (a_envp a))
          (\<lambda>(r, pid, req, k). Inr (r, Pid pid req, k))
      else if syscall = 8 then
        bindE (sys_wait_poll k p) (\<lambda>(r, k).
          case r of None \<Rightarrow> Inr (0, Waiting, k) | Some (pid, status) \<Rightarrow> Inr (pid, Status status, k))
      else if syscall = 10 then bindE (sys_exit k p (a_int a)) (\<lambda>(r, k). Inr (r, NoOutput, k))
      else if syscall = 11 then bindE (sys_chdir k p (a_cstring a)) (\<lambda>(r, k). Inr (r, NoOutput, k))
      else Inl FIXME)"

end
