(* ===== verification/Files_Correct.thy ===== *)
theory Files_Correct
  imports Files
begin

section \<open>The invariant of the file systems\<close>

text \<open>
  Every pointer in a directory or a handle refers to an existing file of the right class, modes
  agree with classes, and every device node has a device.  Each operation on files keeps this and,
  on such a state, succeeds.
\<close>

fun class_tag :: "FileClass \<Rightarrow> nat" where
  "class_tag (MemoryFile _) = 0"
| "class_tag (FlashFile _) = 1"
| "class_tag (MemoryDirectory _) = 2"
| "class_tag (FlashDirectory _) = 3"
| "class_tag ConsoleFile = 4"

text \<open>What no operation changes in an existing file.\<close>

definition shape :: "VirtualFile \<Rightarrow> u32 \<times> u32 \<times> u32 \<times> nat" where
  "shape v = (vf_m_mode v, vf_m_device_id v, vf_m_ino v, class_tag (vf_class v))"

definition entries_ok :: "nat \<Rightarrow> entries \<Rightarrow> bool" where
  "entries_ok n e \<longleftrightarrow> (\<exists>M. models name_hash e M \<and> (\<forall>x f. M x = Some f \<longrightarrow> f < n))"

definition content_ok :: "nat \<Rightarrow> VirtualFile \<Rightarrow> bool" where
  "content_ok n v \<longleftrightarrow> (\<forall>e. VirtualDirectory_entries v = Some e \<longrightarrow> entries_ok n e)"

definition mode_ok :: "(u32 \<rightharpoonup> nat) \<Rightarrow> VirtualFile \<Rightarrow> bool" where
  "mode_ok D v \<longleftrightarrow>
     (vf_m_mode v AND Mode_Format = Mode_Directory \<longleftrightarrow> class_tag (vf_class v) \<in> {2, 3}) \<and>
     (vf_m_mode v AND Mode_Format = Mode_Device \<longrightarrow>
        class_tag (vf_class v) = 0 \<and> D (vf_m_device_id v) \<noteq> None)"

fun handle_ok :: "VirtualFile list \<Rightarrow> Handle \<Rightarrow> bool" where
  "handle_ok fs (MemoryFileHandle f _) \<longleftrightarrow> f < length fs \<and> class_tag (vf_class (fs ! f)) = 0"
| "handle_ok fs (FlashFileHandle f _) \<longleftrightarrow> f < length fs \<and> class_tag (vf_class (fs ! f)) = 1"
| "handle_ok fs (MemoryDirectoryHandle f _) \<longleftrightarrow> f < length fs \<and> class_tag (vf_class (fs ! f)) = 2"
| "handle_ok fs (FlashDirectoryHandle f _) \<longleftrightarrow> f < length fs \<and> class_tag (vf_class (fs ! f)) = 3"
| "handle_ok fs ConsoleFileHandle \<longleftrightarrow> True"

definition device_ok :: "VirtualFile list \<Rightarrow> nat \<Rightarrow> bool" where
  "device_ok fs g \<longleftrightarrow> g < length fs \<and> class_tag (vf_class (fs ! g)) = 4 \<and>
     vf_m_mode (fs ! g) AND Mode_Format \<noteq> Mode_Device"

definition devices_ok :: "FS \<Rightarrow> (u32 \<rightharpoonup> nat) \<Rightarrow> bool" where
  "devices_ok fs D \<longleftrightarrow> models Hash_u32_compute (fs_m_devices fs) D \<and>
     (\<forall>d g. D d = Some g \<longrightarrow> device_ok (fs_files fs) g)"

text \<open>The part that holds from the start of booting, and the whole.\<close>

definition files_ok :: "FS \<Rightarrow> (u32 \<rightharpoonup> nat) \<Rightarrow> bool" where
  "files_ok fs D \<longleftrightarrow> devices_ok fs D \<and>
     (\<forall>v\<in>set (fs_files fs). content_ok (length (fs_files fs)) v \<and> mode_ok D v) \<and>
     device_ok (fs_files fs) (fs_console fs) \<and>
     (\<forall>h\<in>set (fs_handles fs). handle_ok (fs_files fs) h)"

definition fs_ok :: "FS \<Rightarrow> bool" where
  "fs_ok fs \<longleftrightarrow> (\<exists>D. files_ok fs D) \<and> fs_m_root fs < length (fs_files fs) \<and>
     class_tag (vf_class (fs_files fs ! fs_m_root fs)) \<in> {2, 3}"

text \<open>Everything but files, handles, counters and the UART stays; files keep their shape.\<close>

definition grows :: "FS \<Rightarrow> FS \<Rightarrow> bool" where
  "grows fs fs' \<longleftrightarrow> length (fs_files fs) \<le> length (fs_files fs') \<and>
     length (fs_handles fs) \<le> length (fs_handles fs') \<and>
     (\<forall>f<length (fs_files fs). shape (fs_files fs' ! f) = shape (fs_files fs ! f)) \<and>
     fs_m_root fs' = fs_m_root fs \<and> fs_console fs' = fs_console fs \<and>
     fs_m_devices fs' = fs_m_devices fs \<and> fs_flash_m_root fs' = fs_flash_m_root fs"

lemma grows_refl [simp]: "grows fs fs" by (simp add: grows_def)

lemma grows_trans: "grows a b \<Longrightarrow> grows b c \<Longrightarrow> grows a c"
  by (auto simp: grows_def)

lemma entries_tag: "VirtualDirectory_entries v = None \<longleftrightarrow> class_tag (vf_class v) \<notin> {2, 3}"
  by (cases "vf_class v") (simp_all add: VirtualDirectory_entries_def)

lemma entries_mono: "content_ok n v \<Longrightarrow> n \<le> m \<Longrightarrow> content_ok m v"
  unfolding content_ok_def entries_ok_def by (meson less_le_trans)

lemma handle_shape:
  assumes "length fs \<le> length fs'" and "\<And>f. f < length fs \<Longrightarrow> shape (fs' ! f) = shape (fs ! f)"
  shows "handle_ok fs h \<Longrightarrow> handle_ok fs' h" and "device_ok fs g \<Longrightarrow> device_ok fs' g"
proof -
  show "device_ok fs g \<Longrightarrow> device_ok fs' g"
    using assms(1) assms(2)[of g] by (auto simp: device_ok_def shape_def)
  show "handle_ok fs h \<Longrightarrow> handle_ok fs' h"
  proof (cases h)
    case (MemoryFileHandle f x)
    then show "handle_ok fs h \<Longrightarrow> handle_ok fs' h" using assms(1) assms(2)[of f] by (simp add: shape_def)
  next
    case (FlashFileHandle f x)
    then show "handle_ok fs h \<Longrightarrow> handle_ok fs' h" using assms(1) assms(2)[of f] by (simp add: shape_def)
  next
    case (MemoryDirectoryHandle f x)
    then show "handle_ok fs h \<Longrightarrow> handle_ok fs' h" using assms(1) assms(2)[of f] by (simp add: shape_def)
  next
    case (FlashDirectoryHandle f x)
    then show "handle_ok fs h \<Longrightarrow> handle_ok fs' h" using assms(1) assms(2)[of f] by (simp add: shape_def)
  qed simp
qed

text \<open>Replacing a file by one of the same shape, and adding a file or a handle.\<close>

lemma put_file_ok:
  assumes ok: "files_ok fs D" and f: "f < length (fs_files fs)" and s: "shape v = shape (fs_files fs ! f)"
    and c: "content_ok (length (fs_files fs)) v"
  shows "files_ok (put_file fs f v) D" and "grows fs (put_file fs f v)"
proof -
  have sh: "shape ((fs_files fs)[f := v] ! g) = shape (fs_files fs ! g)" if "g < length (fs_files fs)" for g
    using that s f by (cases "g = f") simp_all
  note hs = handle_shape[of "fs_files fs" "(fs_files fs)[f := v]", OF _ sh]
  have "mode_ok D (fs_files fs ! f)" using ok f by (simp add: files_ok_def)
  then have "mode_ok D v" using s by (simp add: mode_ok_def shape_def)
  then have "\<forall>w\<in>set ((fs_files fs)[f := v]). content_ok (length (fs_files fs)) w \<and> mode_ok D w"
    using ok c set_update_subset_insert[of "fs_files fs" f v] by (auto simp: files_ok_def)
  then show "files_ok (put_file fs f v) D"
    using ok hs by (auto simp: files_ok_def put_file_def devices_ok_def)
  show "grows fs (put_file fs f v)" using sh by (simp add: grows_def put_file_def)
qed

lemma new_file_ok:
  assumes ok: "files_ok fs D" and c: "content_ok (Suc (length (fs_files fs))) v" and m: "mode_ok D v"
    and n: "new_file fs v = (f, fs')"
  shows "files_ok fs' D" and "grows fs fs'" and "f = length (fs_files fs)"
    and "fs_files fs' = fs_files fs @ [v]" and "fs_handles fs' = fs_handles fs"
    and "fs_m_next_ino fs' = fs_m_next_ino fs"
proof -
  have fs': "fs' = fs\<lparr>fs_files := fs_files fs @ [v]\<rparr>" and f: "f = length (fs_files fs)"
    using n by (auto simp: new_file_def)
  have sh: "shape ((fs_files fs @ [v]) ! g) = shape (fs_files fs ! g)" if "g < length (fs_files fs)" for g
    using that by (simp add: nth_append)
  note hs = handle_shape[of "fs_files fs" "fs_files fs @ [v]", OF _ sh]
  have "\<forall>w\<in>set (fs_files fs @ [v]). content_ok (Suc (length (fs_files fs))) w \<and> mode_ok D w"
    using ok c m entries_mono[of "length (fs_files fs)" _ "Suc (length (fs_files fs))"]
    by (auto simp: files_ok_def)
  then show "files_ok fs' D" using ok hs by (auto simp: files_ok_def fs' devices_ok_def)
  show "grows fs fs'" using sh by (simp add: grows_def fs')
qed (use n in \<open>auto simp: new_file_def\<close>)

lemma new_handle_ok:
  assumes "files_ok fs D" and "handle_ok (fs_files fs) k" and "new_handle fs k = (h, fs')"
  shows "files_ok fs' D" and "grows fs fs'" and "h = length (fs_handles fs)" and "fs_files fs' = fs_files fs"
    and "fs_handles fs' = fs_handles fs @ [k]"
  using assms by (auto simp: new_handle_def files_ok_def devices_ok_def grows_def)

lemma put_handle_ok:
  assumes "files_ok fs D" and "handle_ok (fs_files fs) k"
  shows "files_ok (put_handle fs h k) D" and "grows fs (put_handle fs h k)"
  using assms set_update_subset_insert[of "fs_handles fs" h k]
  by (auto simp: put_handle_def files_ok_def devices_ok_def grows_def)

lemma file_at_ok: "f < length (fs_files fs) \<Longrightarrow> file_at fs f = Inr (fs_files fs ! f)"
  by (simp add: file_at_def)

lemma file_facts:
  assumes "files_ok fs D" and "f < length (fs_files fs)"
  shows "content_ok (length (fs_files fs)) (fs_files fs ! f)" and "mode_ok D (fs_files fs ! f)"
  using assms by (simp_all add: files_ok_def)

lemma entries_set_ok:
  assumes ok: "files_ok fs D" and d: "d < length (fs_files fs)"
    and dir: "class_tag (vf_class (fs_files fs ! d)) \<in> {2, 3}" and f: "f < length (fs_files fs)"
  shows "\<exists>fs'. entries_set fs d name f = Inr fs' \<and> files_ok fs' D \<and> grows fs fs' \<and>
    length (fs_files fs') = length (fs_files fs) \<and> fs_handles fs' = fs_handles fs \<and>
    fs_m_next_ino fs' = fs_m_next_ino fs"
proof -
  let ?v = "fs_files fs ! d"
  obtain e where e: "VirtualDirectory_entries ?v = Some e"
    using dir entries_tag[of ?v] by (cases "VirtualDirectory_entries ?v") auto
  then obtain M where M: "models name_hash e M" "\<And>x f. M x = Some f \<Longrightarrow> f < length (fs_files fs)"
    using file_facts(1)[OF ok d] by (auto simp: content_ok_def entries_ok_def)
  obtain e' where e': "HashMap_set name_hash e (FileName name) f = Inr e'"
    "models name_hash e' (M(FileName name \<mapsto> f))" using HashMap_set_models[OF M(1)] by blast
  let ?w = "VirtualDirectory_put ?v e'"
  have s: "shape ?w = shape ?v" by (cases "vf_class ?v") (simp_all add: shape_def VirtualDirectory_put_def)
  have "VirtualDirectory_entries ?w = Some e'"
    using dir by (cases "vf_class ?v") (simp_all add: VirtualDirectory_put_def VirtualDirectory_entries_def)
  moreover have "entries_ok (length (fs_files fs)) e'"
    unfolding entries_ok_def using e'(2) M(2) f by (intro exI[of _ "M(FileName name \<mapsto> f)"]) auto
  ultimately have c: "content_ok (length (fs_files fs)) ?w" by (simp add: content_ok_def)
  have "entries_set fs d name f = Inr (put_file fs d ?w)"
    using e e' d by (simp add: entries_set_def file_at_ok)
  then show ?thesis using put_file_ok[OF ok d s c] by (simp add: put_file_def)
qed

lemma get_entry:
  assumes ok: "files_ok fs D" and f: "f < length (fs_files fs)"
    and e: "VirtualDirectory_entries (fs_files fs ! f) = Some e"
  shows "\<exists>r. HashMap_get_opt name_hash e (FileName name) = Inr r \<and> (\<forall>g. r = Some g \<longrightarrow> g < length (fs_files fs))"
proof -
  obtain M where M: "models name_hash e M" "\<And>x f. M x = Some f \<Longrightarrow> f < length (fs_files fs)"
    using file_facts(1)[OF ok f] e by (auto simp: content_ok_def entries_ok_def)
  then show ?thesis using HashMap_get_models(2)[OF M(1)] by auto
qed

lemma try_lookup_loop_ok:
  "files_ok fs D \<Longrightarrow> f < length (fs_files fs) \<Longrightarrow>
   (\<exists>g. try_lookup_loop fs cs f = Inr (Result_from_value g) \<and> g < length (fs_files fs)) \<or>
   try_lookup_loop fs cs f = Inr (Result_from_error ENOTDIR) \<or>
   try_lookup_loop fs cs f = Inr (Result_from_error ENOENT)"
proof (induction cs arbitrary: f)
  case (Cons c cs)
  show ?case
  proof (cases "VirtualDirectory_entries (fs_files fs ! f)")
    case None
    then show ?thesis using Cons.prems(2) by (simp add: file_at_ok)
  next
    case (Some e)
    from get_entry[OF Cons.prems Some, of c] obtain r where
      "HashMap_get_opt name_hash e (FileName c) = Inr r" "\<forall>g. r = Some g \<longrightarrow> g < length (fs_files fs)" by blast
    then show ?thesis using Some Cons.prems(2) Cons.IH[OF Cons.prems(1)]
      by (cases r) (simp_all add: file_at_ok)
  qed
qed auto

lemma create_handle_impl_ok:
  assumes ok: "files_ok fs D" and f: "f < length (fs_files fs)"
  shows "\<exists>fs'. create_handle_impl fs f (fs_files fs ! f) = Inr (length (fs_handles fs), fs') \<and>
    files_ok fs' D \<and> grows fs fs' \<and> fs_files fs' = fs_files fs"
proof -
  have nh: "handle_ok (fs_files fs) k \<Longrightarrow> \<exists>fs'. new_handle fs k = (length (fs_handles fs), fs') \<and>
      files_ok fs' D \<and> grows fs fs' \<and> fs_files fs' = fs_files fs" for k
  proof -
    assume k: "handle_ok (fs_files fs) k"
    obtain h fs' where n: "new_handle fs k = (h, fs')" by fastforce
    show ?thesis using new_handle_ok[OF ok k n] n by blast
  qed
  have it: "\<exists>it. SortedSet_inorder e = Inr it" if "VirtualDirectory_entries (fs_files fs ! f) = Some e" for e
  proof -
    from file_facts(1)[OF ok f] that obtain M where "models name_hash e M"
      by (auto simp: content_ok_def entries_ok_def)
    then show ?thesis by (rule models_inorder)
  qed
  show ?thesis
  proof (cases "vf_class (fs_files fs ! f)")
    case (MemoryFile d)
    then show ?thesis using nh[of "MemoryFileHandle f 0"] f by (simp add: create_handle_impl_def)
  next
    case (FlashFile d)
    then show ?thesis using nh[of "FlashFileHandle f 0"] f by (simp add: create_handle_impl_def)
  next
    case (MemoryDirectory e)
    then obtain i where "SortedSet_inorder e = Inr i" using it[of e] by (auto simp: VirtualDirectory_entries_def)
    then show ?thesis using nh[of "MemoryDirectoryHandle f i"] f MemoryDirectory
      by (simp add: create_handle_impl_def)
  next
    case (FlashDirectory e)
    then obtain i where "SortedSet_inorder e = Inr i" using it[of e] by (auto simp: VirtualDirectory_entries_def)
    then show ?thesis using nh[of "FlashDirectoryHandle f i"] f FlashDirectory
      by (simp add: create_handle_impl_def)
  next
    case ConsoleFile
    then show ?thesis using nh[of ConsoleFileHandle] by (simp add: create_handle_impl_def)
  qed
qed

lemma create_handle_ok:
  assumes ok: "files_ok fs D" and f: "f < length (fs_files fs)"
  shows "\<exists>fs'. VirtualFile_create_handle 1 fs f = Inr (length (fs_handles fs), fs') \<and>
    files_ok fs' D \<and> grows fs fs' \<and> fs_files fs' = fs_files fs"
proof (cases "vf_m_mode (fs_files fs ! f) AND Mode_Format = Mode_Device")
  case False
  then show ?thesis using create_handle_impl_ok[OF ok f] f
    by (subst VirtualFile_create_handle.simps) (simp add: file_at_ok)
next
  case True
  let ?id = "vf_m_device_id (fs_files fs ! f)"
  obtain g where g: "D ?id = Some g" using True file_facts(2)[OF ok f] by (auto simp: mode_ok_def)
  then have dev: "device_ok (fs_files fs) g" and get: "HashMap_get_opt Hash_u32_compute (fs_m_devices fs) ?id = Inr (Some g)"
    using ok HashMap_get_models(2)[of Hash_u32_compute "fs_m_devices fs" D ?id]
    by (auto simp: files_ok_def devices_ok_def)
  have "VirtualFile_create_handle 0 fs g = create_handle_impl fs g (fs_files fs ! g)"
    using dev by (subst VirtualFile_create_handle.simps) (simp add: file_at_ok device_ok_def)
  moreover have "VirtualFile_create_handle 1 fs f = VirtualFile_create_handle 0 fs g"
    using True f get by (subst VirtualFile_create_handle.simps) (simp add: file_at_ok)
  ultimately show ?thesis using create_handle_impl_ok[OF ok, of g] dev by (simp add: device_ok_def)
qed

lemma truncate_ok:
  assumes ok: "files_ok fs D" and f: "f < length (fs_files fs)"
  shows "if class_tag (vf_class (fs_files fs ! f)) = 0
    then \<exists>fs'. VirtualFile_truncate fs f = Inr fs' \<and> files_ok fs' D \<and> grows fs fs' \<and>
      length (fs_files fs') = length (fs_files fs) \<and> fs_handles fs' = fs_handles fs
    else VirtualFile_truncate fs f = Inl VERIFY_NOT_REACHED"
proof (cases "vf_class (fs_files fs ! f)")
  case (MemoryFile d)
  let ?v = "(fs_files fs ! f)\<lparr>vf_class := MemoryFile [], vf_m_size := Some 0\<rparr>"
  have "shape ?v = shape (fs_files fs ! f)" "content_ok (length (fs_files fs)) ?v"
    using MemoryFile by (simp_all add: shape_def content_ok_def VirtualDirectory_entries_def)
  from put_file_ok[OF ok f this] show ?thesis
    using MemoryFile f by (simp add: VirtualFile_truncate_def file_at_ok put_file_def)
qed (use f in \<open>simp_all add: VirtualFile_truncate_def file_at_ok\<close>)

lemma append_ok:
  assumes ok: "files_ok fs D" and f: "f < length (fs_files fs)" and m: "class_tag (vf_class (fs_files fs ! f)) = 0"
  shows "\<exists>fs'. MemoryFile_append fs f bytes = Inr fs' \<and> files_ok fs' D \<and> grows fs fs' \<and>
      length (fs_files fs') = length (fs_files fs) \<and> fs_handles fs' = fs_handles fs"
proof -
  obtain d where d: "vf_class (fs_files fs ! f) = MemoryFile d" using m by (cases "vf_class (fs_files fs ! f)") auto
  let ?v = "(fs_files fs ! f)\<lparr>vf_class := MemoryFile (d @ view bytes),
           vf_m_size := map_option (\<lambda>n. n + Span_size bytes) (vf_m_size (fs_files fs ! f))\<rparr>"
  have "shape ?v = shape (fs_files fs ! f)" "content_ok (length (fs_files fs)) ?v"
    using d by (simp_all add: shape_def content_ok_def VirtualDirectory_entries_def)
  from put_file_ok[OF ok f this] show ?thesis
    using d f by (simp add: MemoryFile_append_def file_at_ok put_file_def)
qed

lemma read_ok:
  assumes ok: "files_ok fs D" and h: "h < length (fs_handles fs)"
    and r: "VirtualFileHandle_read fs h bytes = Inr (r, fs', bytes')"
  shows "files_ok fs' D" and "grows fs fs'"
proof -
  have k: "handle_ok (fs_files fs) (fs_handles fs ! h)" using ok h by (simp add: files_ok_def)
  have "(\<exists>k. fs' = put_handle fs h k \<and> handle_ok (fs_files fs) k) \<or> (\<exists>u. fs' = fs\<lparr>fs_uart := u\<rparr>)"
    using r k by (auto simp: VirtualFileHandle_read_def outcome_simps split: Handle.splits)
  then show "files_ok fs' D" and "grows fs fs'"
    using put_handle_ok[OF ok] ok by (auto simp: files_ok_def devices_ok_def grows_def)
qed

lemma write_ok:
  assumes ok: "files_ok fs D" and h: "h < length (fs_handles fs)"
    and r: "VirtualFileHandle_write fs h bytes = Inr (r, fs')"
  shows "files_ok fs' D" and "grows fs fs'"
proof -
  have k: "handle_ok (fs_files fs) (fs_handles fs ! h)" using ok h by (simp add: files_ok_def)
  have "files_ok fs' D \<and> grows fs fs'"
  proof (cases "fs_handles fs ! h")
    case (MemoryFileHandle f off)
    then obtain fs1 where fs1: "MemoryFile_append fs f bytes = Inr fs1" "files_ok fs1 D" "grows fs fs1"
      "length (fs_files fs1) = length (fs_files fs)" "fs_handles fs1 = fs_handles fs"
      using append_ok[OF ok, of f bytes] k by auto
    let ?k = "MemoryFileHandle f (off + Span_size bytes)"
    have "handle_ok (fs_files fs1) ?k"
      using k MemoryFileHandle fs1(3) by (auto simp: grows_def shape_def)
    from put_handle_ok[OF fs1(2) this, of h] show ?thesis
      using r fs1 MemoryFileHandle grows_trans by (auto simp: VirtualFileHandle_write_def)
  next
    case ConsoleFileHandle
    then show ?thesis using r ok
      by (auto simp: VirtualFileHandle_write_def outcome_simps files_ok_def devices_ok_def grows_def)
  qed (use r in \<open>auto simp: VirtualFileHandle_write_def\<close>)
  then show "files_ok fs' D" and "grows fs fs'" by simp_all
qed


lemma grows_length: "grows fs fs' \<Longrightarrow> f < length (fs_files fs) \<Longrightarrow> f < length (fs_files fs')"
  by (simp add: grows_def)

lemma grows_tag: "grows fs fs' \<Longrightarrow> f < length (fs_files fs) \<Longrightarrow>
    class_tag (vf_class (fs_files fs' ! f)) = class_tag (vf_class (fs_files fs ! f))"
  by (auto simp: grows_def shape_def)

lemma grows_ino: "grows fs fs' \<Longrightarrow> f < length (fs_files fs) \<Longrightarrow>
    vf_m_ino (fs_files fs' ! f) = vf_m_ino (fs_files fs ! f)"
  by (auto simp: grows_def shape_def)

lemma fs_ok_grows: "fs_ok fs \<Longrightarrow> files_ok fs' D \<Longrightarrow> grows fs fs' \<Longrightarrow> fs_ok fs'"
  unfolding fs_ok_def using grows_tag[of fs fs' "fs_m_root fs"] by (auto simp: grows_def)

lemma fs_ok_files: "fs_ok fs \<Longrightarrow> \<exists>D. files_ok fs D"
  by (simp add: fs_ok_def)

subsection \<open>New files and directories\<close>

lemma models_content_new: "entries_ok n HashMap_new"
  unfolding entries_ok_def using models_new by fastforce

lemma mode_simps [simp]:
  "Mode_Directory AND Mode_Format = Mode_Directory" "Mode_Regular AND Mode_Format = Mode_Regular"
  "Mode_Device AND Mode_Format = Mode_Device" "Mode_Invalid AND Mode_Format = Mode_Invalid"
  "Mode_Directory \<noteq> Mode_Regular" "Mode_Directory \<noteq> Mode_Device" "Mode_Regular \<noteq> Mode_Directory"
  "Mode_Regular \<noteq> Mode_Device" "Mode_Device \<noteq> Mode_Directory" "Mode_Device \<noteq> Mode_Regular"
  "Mode_Invalid \<noteq> Mode_Directory" "Mode_Invalid \<noteq> Mode_Device"
  by (simp_all add: Mode_Directory_def Mode_Regular_def Mode_Device_def Mode_Format_def Mode_Invalid_def)

lemma next_ino_ok:
  assumes "files_ok fs D" and "MemoryFileSystem_next_ino fs = (ino, fs')"
  shows "files_ok fs' D" and "grows fs fs'" and "fs_files fs' = fs_files fs" and "fs_handles fs' = fs_handles fs"
    and "ino = fs_m_next_ino fs" and "fs_m_next_ino fs' = fs_m_next_ino fs + 1"
  using assms by (auto simp: MemoryFileSystem_next_ino_def files_ok_def devices_ok_def grows_def)

lemma MemoryFile_new_ok:
  assumes ok: "files_ok fs D"
  shows "\<exists>fs' v. MemoryFile_new fs = (length (fs_files fs), fs') \<and> files_ok fs' D \<and> grows fs fs' \<and>
    fs_files fs' = fs_files fs @ [v] \<and> vf_class v = MemoryFile [] \<and> vf_m_mode v = Mode_Regular \<and>
    fs_handles fs' = fs_handles fs"
proof -
  obtain ino fs1 where n1: "MemoryFileSystem_next_ino fs = (ino, fs1)" by fastforce
  note i = next_ino_ok[OF ok n1]
  let ?v = "(VirtualFile_new (MemoryFile []))\<lparr>vf_m_filesystem := Ram, vf_m_ino := ino,
           vf_m_mode := Mode_Regular, vf_m_size := Some 0\<rparr>"
  obtain f fs2 where n2: "new_file fs1 ?v = (f, fs2)" by fastforce
  have c: "content_ok (Suc (length (fs_files fs1))) ?v" and m: "mode_ok D ?v"
    by (simp_all add: content_ok_def mode_ok_def VirtualFile_new_def VirtualDirectory_entries_def)
  note f = new_file_ok[OF i(1) c m n2]
  have "MemoryFile_new fs = (length (fs_files fs), fs2)"
    using n1 n2 f(3) i(3) by (simp add: MemoryFile_new_def Let_def)
  then show ?thesis using f i grows_trans[OF i(2) f(2)]
    by (simp add: VirtualFile_new_def)
qed

lemma MemoryDirectory_new_ok:
  assumes ok: "files_ok fs D"
  shows "\<exists>fs'. MemoryDirectory_new fs = Inr (length (fs_files fs), fs') \<and> files_ok fs' D \<and> grows fs fs' \<and>
    length (fs_files fs') = Suc (length (fs_files fs)) \<and>
    class_tag (vf_class (fs_files fs' ! length (fs_files fs))) = 2 \<and>
    vf_m_ino (fs_files fs' ! length (fs_files fs)) = fs_m_next_ino fs \<and> fs_handles fs' = fs_handles fs"
proof -
  let ?d = "length (fs_files fs)"
  obtain ino fs1 where n1: "MemoryFileSystem_next_ino fs = (ino, fs1)" by fastforce
  note i = next_ino_ok[OF ok n1]
  let ?v = "(VirtualFile_new (MemoryDirectory HashMap_new))\<lparr>vf_m_filesystem := Ram,
             vf_m_ino := ino, vf_m_mode := Mode_Directory, vf_m_size := Some 0xdead\<rparr>"
  obtain f fs2 where n2: "new_file fs1 ?v = (f, fs2)" by fastforce
  have c: "content_ok (Suc (length (fs_files fs1))) ?v" and m: "mode_ok D ?v"
    using models_content_new by (simp_all add: content_ok_def mode_ok_def VirtualFile_new_def VirtualDirectory_entries_def)
  note f = new_file_ok[OF i(1) c m n2]
  have d: "?d < length (fs_files fs2)" "class_tag (vf_class (fs_files fs2 ! ?d)) = 2"
    "vf_m_ino (fs_files fs2 ! ?d) = fs_m_next_ino fs" and fd: "f = ?d"
    using f i by (simp_all add: VirtualFile_new_def)
  obtain fs3 where 3: "entries_set fs2 ?d ''.'' ?d = Inr fs3" "files_ok fs3 D" "grows fs2 fs3"
    "length (fs_files fs3) = length (fs_files fs2)" "fs_handles fs3 = fs_handles fs2"
    using entries_set_ok[OF f(1) d(1) _ d(1), of "''.''"] d(2) by auto
  have d3: "?d < length (fs_files fs3)" "class_tag (vf_class (fs_files fs3 ! ?d)) = 2"
    using d 3(4) grows_tag[OF 3(3) d(1)] by simp_all
  obtain fs4 where 4: "entries_set fs3 ?d ''..'' ?d = Inr fs4" "files_ok fs4 D" "grows fs3 fs4"
    "length (fs_files fs4) = length (fs_files fs3)" "fs_handles fs4 = fs_handles fs3"
    using entries_set_ok[OF 3(2) d3(1) _ d3(1), of "''..''"] d3(2) by auto
  have "MemoryDirectory_new fs = Inr (?d, fs4)"
    using n1 n2 3(1) 4(1) fd by (simp add: MemoryDirectory_new_def Let_def)
  moreover have "grows fs fs4" using grows_trans i(2) f(2) 3(3) 4(3) by blast
  ultimately show ?thesis
    using 3 4 f i d d3 grows_tag[OF 4(3) d3(1)] grows_ino[OF 4(3) d3(1)] grows_ino[OF 3(3) d(1)] by simp
qed

text \<open>Flash images: every inode is a regular file or a directory of such.\<close>

fun image_ok :: "FileInfo \<Rightarrow> bool" where
  "image_ok (FileInfo ino mode bytes entries) \<longleftrightarrow>
     mode AND Mode_Format = Mode_Regular \<or>
     mode AND Mode_Format = Mode_Directory \<and> (\<forall>e\<in>set entries. image_ok (snd e))"

lemma FlashFile_new_ok:
  assumes ok: "files_ok fs D" and m: "fi_st_mode info AND Mode_Format = Mode_Regular"
  shows "\<exists>fs'. FlashFile_new fs info = (length (fs_files fs), fs') \<and> files_ok fs' D \<and> grows fs fs' \<and>
    length (fs_files fs') = Suc (length (fs_files fs)) \<and> fs_m_next_ino fs' = fs_m_next_ino fs"
proof -
  let ?v = "(VirtualFile_new (FlashFile (fi_bytes info)))\<lparr>vf_m_filesystem := Flash,
       vf_m_ino := fi_st_ino info, vf_m_mode := fi_st_mode info,
       vf_m_size := Some (of_nat (length (fi_bytes info)))\<rparr>"
  obtain f fs2 where n: "new_file fs ?v = (f, fs2)" by fastforce
  have c: "content_ok (Suc (length (fs_files fs))) ?v" and m: "mode_ok D ?v"
    using m by (simp_all add: content_ok_def mode_ok_def VirtualFile_new_def VirtualDirectory_entries_def)
  note f = new_file_ok[OF ok c m n]
  show ?thesis using f n by (simp add: FlashFile_new_def)
qed

lemma FlashDirectory_ok:
  "files_ok fs D \<Longrightarrow> image_ok info \<Longrightarrow> fi_st_mode info AND Mode_Format = Mode_Directory \<Longrightarrow>
   \<exists>fs'. FlashDirectory_new fs info = Inr (length (fs_files fs), fs') \<and> files_ok fs' D \<and> grows fs fs' \<and>
     length (fs_files fs) < length (fs_files fs') \<and>
     class_tag (vf_class (fs_files fs' ! length (fs_files fs))) = 3 \<and>
     vf_m_ino (fs_files fs' ! length (fs_files fs)) = fi_st_ino info \<and> fs_m_next_ino fs' = fs_m_next_ino fs"
  "files_ok gs D \<Longrightarrow> d < length (fs_files gs) \<Longrightarrow> class_tag (vf_class (fs_files gs ! d)) = 3 \<Longrightarrow>
   (\<forall>e\<in>set entries. image_ok (snd e)) \<Longrightarrow>
   \<exists>gs'. FlashDirectory_loop gs d entries = Inr gs' \<and> files_ok gs' D \<and> grows gs gs' \<and>
     fs_m_next_ino gs' = fs_m_next_ino gs"
proof (induction fs info and gs d entries rule: FlashDirectory_new_FlashDirectory_loop.induct)
  case (1 fs info)
  let ?d = "length (fs_files fs)"
  let ?v = "(VirtualFile_new (FlashDirectory HashMap_new))\<lparr>vf_m_filesystem := Flash,
             vf_m_ino := fi_st_ino info, vf_m_mode := fi_st_mode info, vf_m_size := Some 0xdead\<rparr>"
  obtain f fs2 where n: "new_file fs ?v = (f, fs2)" by fastforce
  have c: "content_ok (Suc (length (fs_files fs))) ?v" and m: "mode_ok D ?v"
    using models_content_new 1(4)
    by (simp_all add: content_ok_def mode_ok_def VirtualFile_new_def VirtualDirectory_entries_def)
  note f = new_file_ok[OF 1(2) c m n]
  have d: "?d < length (fs_files fs2)" "class_tag (vf_class (fs_files fs2 ! ?d)) = 3"
    "vf_m_ino (fs_files fs2 ! ?d) = fi_st_ino info" and fd: "f = ?d"
    using f by (simp_all add: VirtualFile_new_def)
  obtain fs3 where 3: "entries_set fs2 ?d ''.'' ?d = Inr fs3" "files_ok fs3 D" "grows fs2 fs3"
    "length (fs_files fs3) = length (fs_files fs2)" "fs_m_next_ino fs3 = fs_m_next_ino fs2"
    using entries_set_ok[OF f(1) d(1) _ d(1), of "''.''"] d(2) by auto
  have d3: "?d < length (fs_files fs3)" "class_tag (vf_class (fs_files fs3 ! ?d)) = 3"
    using d 3(4) grows_tag[OF 3(3) d(1)] by simp_all
  obtain fs4 where 4: "entries_set fs3 ?d ''..'' ?d = Inr fs4" "files_ok fs4 D" "grows fs3 fs4"
    "length (fs_files fs4) = length (fs_files fs3)" "fs_m_next_ino fs4 = fs_m_next_ino fs3"
    using entries_set_ok[OF 3(2) d3(1) _ d3(1), of "''..''"] d3(2) by auto
  have d4: "?d < length (fs_files fs4)" "class_tag (vf_class (fs_files fs4 ! ?d)) = 3"
    using d3 4(4) grows_tag[OF 4(3) d3(1)] by simp_all
  have img: "\<forall>e\<in>set (fi_entries info). image_ok (snd e)" using 1(3,4) by (cases info) auto
  obtain fs5 where 5: "FlashDirectory_loop fs4 ?d (fi_entries info) = Inr fs5" "files_ok fs5 D" "grows fs4 fs5"
    "fs_m_next_ino fs5 = fs_m_next_ino fs4"
    using "1.IH"[OF n[symmetric] refl _ _ 4(2)] 3(1) 4(1) fd d4 img n by fastforce
  have "FlashDirectory_new fs info = Inr (?d, fs5)"
    using n 3(1) 4(1) 5(1) fd by (simp add: FlashDirectory_new.simps Let_def)
  moreover have "grows fs fs5" using grows_trans f(2) 3(3) 4(3) 5(3) by blast
  moreover have "?d < length (fs_files fs5)" using grows_length[OF 5(3) d4(1)] .
  ultimately show ?case
    using 3(5) 4(5) f(6) 5 d d4 grows_tag[OF 5(3) d4(1)] grows_ino[OF 5(3) d4(1)] grows_ino[OF 4(3) d3(1)] grows_ino[OF 3(3) d(1)]
    by simp
next
  case (2 gs d)
  then show ?case by simp
next
  case (3 gs d name info entries)
  have img: "image_ok info" using 3(6) by simp
  have "\<exists>gs1. (if fi_st_mode info AND Mode_Format = Mode_Directory
            then bindE (FlashDirectory_new gs info) (\<lambda>(new_directory, fs).
                 bindE (entries_set fs new_directory ''..'' d) (\<lambda>fs.
                 entries_set fs d name new_directory))
            else checkE (fi_st_mode info AND Mode_Format = Mode_Regular)
                   (VERIFY ''(entry->m_info->st_mode & Format) == Regular'')
                   (let (f, fs) = FlashFile_new gs info in entries_set fs d name f)) = Inr gs1 \<and>
      files_ok gs1 D \<and> grows gs gs1 \<and> fs_m_next_ino gs1 = fs_m_next_ino gs"
  proof (cases "fi_st_mode info AND Mode_Format = Mode_Directory")
    case True
    let ?n = "length (fs_files gs)"
    obtain g1 where g1: "FlashDirectory_new gs info = Inr (?n, g1)" "files_ok g1 D" "grows gs g1"
      "?n < length (fs_files g1)" "class_tag (vf_class (fs_files g1 ! ?n)) = 3"
      "fs_m_next_ino g1 = fs_m_next_ino gs" using "3.IH"(1)[OF True 3(3) img True] by blast
    have d1: "d < length (fs_files g1)" "class_tag (vf_class (fs_files g1 ! d)) = 3"
      using grows_length[OF g1(3) 3(4)] grows_tag[OF g1(3) 3(4)] 3(5) by simp_all
    obtain g2 where g2: "entries_set g1 ?n ''..'' d = Inr g2" "files_ok g2 D" "grows g1 g2"
      "fs_m_next_ino g2 = fs_m_next_ino g1"
      using entries_set_ok[OF g1(2,4) _ d1(1), of "''..''"] g1(5) by auto
    have d2: "d < length (fs_files g2)" "class_tag (vf_class (fs_files g2 ! d)) = 3" "?n < length (fs_files g2)"
      using grows_length[OF g2(3) d1(1)] grows_tag[OF g2(3) d1(1)] d1(2) grows_length[OF g2(3) g1(4)] by simp_all
    obtain g3 where g3: "entries_set g2 d name ?n = Inr g3" "files_ok g3 D" "grows g2 g3"
      "fs_m_next_ino g3 = fs_m_next_ino g2"
      using entries_set_ok[OF g2(2) d2(1) _ d2(3), of name] d2(2) by auto
    then show ?thesis using True g1(1,6) g2(1,4) grows_trans[OF grows_trans[OF g1(3) g2(3)] g3(3)] by simp
  next
    case False
    then have reg: "fi_st_mode info AND Mode_Format = Mode_Regular" using img by (cases info) auto
    let ?n = "length (fs_files gs)"
    obtain g1 where g1: "FlashFile_new gs info = (?n, g1)" "files_ok g1 D" "grows gs g1"
      "length (fs_files g1) = Suc ?n" "fs_m_next_ino g1 = fs_m_next_ino gs" using FlashFile_new_ok[OF 3(3) reg] by blast
    have d1: "d < length (fs_files g1)" "class_tag (vf_class (fs_files g1 ! d)) = 3" "?n < length (fs_files g1)"
      using grows_length[OF g1(3) 3(4)] grows_tag[OF g1(3) 3(4)] 3(5) g1(4) by simp_all
    obtain g2 where g2: "entries_set g1 d name ?n = Inr g2" "files_ok g2 D" "grows g1 g2"
      "fs_m_next_ino g2 = fs_m_next_ino g1"
      using entries_set_ok[OF g1(2) d1(1) _ d1(3), of name] d1(2) by auto
    then show ?thesis using False reg g1(1,5) grows_trans[OF g1(3) g2(3)] by simp
  qed
  then obtain gs1 where g: "(if fi_st_mode info AND Mode_Format = Mode_Directory
            then bindE (FlashDirectory_new gs info) (\<lambda>(new_directory, fs).
                 bindE (entries_set fs new_directory ''..'' d) (\<lambda>fs.
                 entries_set fs d name new_directory))
            else checkE (fi_st_mode info AND Mode_Format = Mode_Regular)
                   (VERIFY ''(entry->m_info->st_mode & Format) == Regular'')
                   (let (f, fs) = FlashFile_new gs info in entries_set fs d name f)) = Inr gs1"
    "files_ok gs1 D" "grows gs gs1" "fs_m_next_ino gs1 = fs_m_next_ino gs" by blast
  have d1: "d < length (fs_files gs1)" "class_tag (vf_class (fs_files gs1 ! d)) = 3"
    using grows_length[OF g(3) 3(4)] grows_tag[OF g(3) 3(4)] 3(5) by simp_all
  obtain gs2 where "FlashDirectory_loop gs1 d entries = Inr gs2" "files_ok gs2 D" "grows gs1 gs2"
    "fs_m_next_ino gs2 = fs_m_next_ino gs1"
    using "3.IH"(2)[OF g(1) g(2) d1] 3(6) by auto
  then show ?case using g(1,4) grows_trans[OF g(3)] by (subst FlashDirectory_loop.simps) simp
qed

end
