(* ===== verification/Files_Boot.thy ===== *)
theory Files_Boot
  imports Files_Correct
begin

section \<open>Lookups, and the state after booting\<close>

text \<open>
  What a directory lists under a name, how setting an entry changes it, and lookups as walks
  through listed entries.  Booting from any flash image of directories and regular files leaves
  a state that satisfies the invariant, with the console behind \<^verbatim>\<open>/dev/tty\<close>.
\<close>

subsection \<open>Entries\<close>

definition entry :: "FS \<Rightarrow> nat \<Rightarrow> string \<Rightarrow> nat option" where
  "entry fs f c =
     (case VirtualDirectory_entries (fs_files fs ! f) of
        None \<Rightarrow> None
      | Some e \<Rightarrow> (case HashMap_get_opt name_hash e (FileName c) of Inr r \<Rightarrow> r | Inl _ \<Rightarrow> None))"

lemma entry_get:
  assumes "files_ok fs D" and "f < length (fs_files fs)" and "VirtualDirectory_entries (fs_files fs ! f) = Some e"
  shows "HashMap_get_opt name_hash e (FileName c) = Inr (entry fs f c)"
    and "entry fs f c = Some g \<Longrightarrow> g < length (fs_files fs)"
  using get_entry[OF assms, of c] assms(3) by (auto simp: entry_def)

lemma entry_dir: "entry fs f c = Some g \<Longrightarrow> class_tag (vf_class (fs_files fs ! f)) \<in> {2, 3}"
  using entries_tag[of "fs_files fs ! f"] by (auto simp: entry_def split: option.splits)

lemma entries_set_entry:
  assumes ok: "files_ok fs D" and d: "d < length (fs_files fs)"
    and r: "entries_set fs d name f = Inr fs'" and g: "g < length (fs_files fs)"
  shows "entry fs' g c = (if g = d \<and> c = name then Some f else entry fs g c)"
proof -
  let ?v = "fs_files fs ! d"
  obtain e e' where e: "VirtualDirectory_entries ?v = Some e"
    and e': "HashMap_set name_hash e (FileName name) f = Inr e'"
    and fs': "fs' = put_file fs d (VirtualDirectory_put ?v e')"
    using r d by (auto simp: entries_set_def file_at_ok outcome_simps split: option.splits)
  obtain M where M: "models name_hash e M"
    using file_facts(1)[OF ok d] e by (auto simp: content_ok_def entries_ok_def)
  have M': "models name_hash e' (M(FileName name \<mapsto> f))"
    using HashMap_set_models[OF M, of "FileName name" f] e' by simp
  have "VirtualDirectory_entries (VirtualDirectory_put ?v e') = Some e'"
    using e by (cases "vf_class ?v") (simp_all add: VirtualDirectory_put_def VirtualDirectory_entries_def)
  then show ?thesis
    using HashMap_get_models(2)[OF M, of "FileName c"] HashMap_get_models(2)[OF M', of "FileName c"] e d g
    by (cases "g = d") (simp_all add: entry_def fs' put_file_def)
qed

text \<open>States with the same listings, apart from new files.\<close>

definition same_entries :: "FS \<Rightarrow> FS \<Rightarrow> bool" where
  "same_entries fs fs' \<longleftrightarrow> (\<forall>f<length (fs_files fs).
     VirtualDirectory_entries (fs_files fs' ! f) = VirtualDirectory_entries (fs_files fs ! f))"

lemma same_entries_entry: "same_entries fs fs' \<Longrightarrow> f < length (fs_files fs) \<Longrightarrow> entry fs' f c = entry fs f c"
  by (simp add: same_entries_def entry_def)

lemma same_entries_append: "fs_files fs' = fs_files fs @ vs \<Longrightarrow> same_entries fs fs'"
  by (simp add: same_entries_def nth_append)

lemma same_entries_trans:
  "same_entries a b \<Longrightarrow> same_entries b c \<Longrightarrow> length (fs_files a) \<le> length (fs_files b) \<Longrightarrow> same_entries a c"
  by (simp add: same_entries_def)

fun walk :: "FS \<Rightarrow> string list \<Rightarrow> nat \<Rightarrow> nat option" where
  "walk fs [] f = Some f"
| "walk fs (c # cs) f = (case entry fs f c of None \<Rightarrow> None | Some g \<Rightarrow> walk fs cs g)"

lemma try_lookup_walk:
  "files_ok fs D \<Longrightarrow> f < length (fs_files fs) \<Longrightarrow>
   (case walk fs cs f of
      Some g \<Rightarrow> try_lookup_loop fs cs f = Inr (Result_from_value g) \<and> g < length (fs_files fs)
    | None \<Rightarrow> try_lookup_loop fs cs f = Inr (Result_from_error ENOTDIR) \<or>
              try_lookup_loop fs cs f = Inr (Result_from_error ENOENT))"
proof (induction cs arbitrary: f)
  case (Cons c cs)
  show ?case
  proof (cases "VirtualDirectory_entries (fs_files fs ! f)")
    case None
    then show ?thesis using Cons.prems(2) by (simp add: file_at_ok entry_def)
  next
    case (Some e)
    note g = entry_get[OF Cons.prems Some, of c]
    show ?thesis
    proof (cases "entry fs f c")
      case None
      then show ?thesis using g(1) Some Cons.prems(2) by (simp add: file_at_ok)
    next
      case (Some h)
      have "try_lookup_loop fs (c # cs) f = try_lookup_loop fs cs h"
        using g(1) Some \<open>VirtualDirectory_entries _ = Some e\<close> Cons.prems(2) by (simp add: file_at_ok)
      moreover have "walk fs (c # cs) f = walk fs cs h" using Some by simp
      ultimately show ?thesis using Cons.IH[OF Cons.prems(1) g(2)[OF Some]] by (simp only:)
    qed
  qed
qed simp

lemma lookup_walk:
  "files_ok fs D \<Longrightarrow> f < length (fs_files fs) \<Longrightarrow> walk fs cs f = Some g \<Longrightarrow> lookup_loop fs cs f = Inr g"
proof (induction cs arbitrary: f)
  case (Cons c cs)
  then obtain h where h: "entry fs f c = Some h" "walk fs cs h = Some g" by (auto split: option.splits)
  then obtain e where e: "VirtualDirectory_entries (fs_files fs ! f) = Some e"
    by (auto simp: entry_def split: option.splits)
  note q = entry_get[OF Cons.prems(1,2) e, of c]
  show ?case using q(1) h e Cons.prems(2) Cons.IH[OF Cons.prems(1) q(2)[OF h(1)] h(2)]
    by (simp add: file_at_ok)
qed simp

lemma walk_append: "walk fs (xs @ ys) f = (case walk fs xs f of None \<Rightarrow> None | Some g \<Rightarrow> walk fs ys g)"
  by (induction xs arbitrary: f) (auto split: option.splits)

subsection \<open>Devices\<close>

lemma mode_ok_mono: "mode_ok D v \<Longrightarrow> mode_ok (D(d \<mapsto> g)) v"
  by (auto simp: mode_ok_def)

lemma add_device_ok:
  assumes ok: "files_ok fs D" and g: "device_ok (fs_files fs) g"
  shows "\<exists>fs'. DeviceFileSystem_add_device fs d g = Inr fs' \<and> files_ok fs' (D(d \<mapsto> g)) \<and>
    fs_files fs' = fs_files fs \<and> fs_handles fs' = fs_handles fs \<and> fs_m_root fs' = fs_m_root fs \<and>
    fs_console fs' = fs_console fs"
proof -
  obtain s where s: "HashMap_set Hash_u32_compute (fs_m_devices fs) d g = Inr s"
    "models Hash_u32_compute s (D(d \<mapsto> g))"
    using ok HashMap_set_models by (metis devices_ok_def files_ok_def)
  have "devices_ok (fs\<lparr>fs_m_devices := s\<rparr>) (D(d \<mapsto> g))"
    using ok s(2) g by (auto simp: devices_ok_def files_ok_def)
  then have "files_ok (fs\<lparr>fs_m_devices := s\<rparr>) (D(d \<mapsto> g))"
    using ok mode_ok_mono by (auto simp: files_ok_def)
  then show ?thesis using s(1) by (simp add: DeviceFileSystem_add_device_def)
qed

lemma entries_set_step:
  assumes ok: "files_ok fs D" and d: "d < length (fs_files fs)"
    and dir: "class_tag (vf_class (fs_files fs ! d)) \<in> {2, 3}" and f: "f < length (fs_files fs)"
  obtains fs' where "entries_set fs d name f = Inr fs'" and "files_ok fs' D" and "grows fs fs'"
    and "length (fs_files fs') = length (fs_files fs)" and "fs_handles fs' = fs_handles fs"
    and "\<And>g c. g < length (fs_files fs) \<Longrightarrow> entry fs' g c = (if g = d \<and> c = name then Some f else entry fs g c)"
  using entries_set_ok[OF assms, of name] entries_set_entry[OF ok d] by blast

lemma put_device_ok:
  assumes ok: "files_ok fs D" and f: "f < length (fs_files fs)" and t: "class_tag (vf_class (fs_files fs ! f)) = 0"
    and d: "D d \<noteq> None"
  shows "files_ok (put_file fs f ((fs_files fs ! f)\<lparr>vf_m_mode := Mode_Device, vf_m_device_id := d\<rparr>)) D"
    (is "files_ok (put_file fs f ?v) D")
proof -
  let ?fs = "(fs_files fs)[f := ?v]"
  have cls: "vf_class (?fs ! g) = vf_class (fs_files fs ! g)" if "g < length (fs_files fs)" for g
    using that f by (cases "g = f") simp_all
  have dev: "device_ok (fs_files fs) g \<Longrightarrow> device_ok ?fs g" for g
    using t by (cases "g = f") (auto simp: device_ok_def)
  have h: "handle_ok (fs_files fs) h \<Longrightarrow> handle_ok ?fs h" for h
    using cls by (cases h) auto
  have "content_ok (length (fs_files fs)) ?v" "mode_ok D ?v"
    using t d by (cases "vf_class (fs_files fs ! f)"; simp add: content_ok_def VirtualDirectory_entries_def mode_ok_def)+
  then have "\<forall>w\<in>set ?fs. content_ok (length (fs_files fs)) w \<and> mode_ok D w"
    using ok set_update_subset_insert[of "fs_files fs" f ?v] by (auto simp: files_ok_def)
  then show ?thesis using ok dev h by (auto simp: files_ok_def put_file_def devices_ok_def)
qed

subsection \<open>Booting\<close>

lemma FS_new_ok: "files_ok (FS_new uart stack) Map.empty"
  using models_new[of Hash_u32_compute]
  by (auto simp: files_ok_def FS_new_def devices_ok_def content_ok_def mode_ok_def VirtualFile_new_def
      VirtualDirectory_entries_def device_ok_def)

lemma FlashFileSystem_new_ok:
  assumes ok: "files_ok fs D" and img: "image_ok info" "fi_st_mode info AND Mode_Format = Mode_Directory"
    "fi_st_ino info = 2"
  shows "\<exists>fs'. FlashFileSystem_new fs info = Inr fs' \<and> files_ok fs' D \<and>
    fs_flash_m_root fs' < length (fs_files fs') \<and> class_tag (vf_class (fs_files fs' ! fs_flash_m_root fs')) = 3 \<and>
    fs_m_next_ino fs' = fs_m_next_ino fs \<and> fs_console fs' = fs_console fs"
proof -
  let ?d = "length (fs_files fs)"
  obtain fs1 where 1: "FlashDirectory_new fs info = Inr (?d, fs1)" "files_ok fs1 D" "grows fs fs1"
    "?d < length (fs_files fs1)" "class_tag (vf_class (fs_files fs1 ! ?d)) = 3" "vf_m_ino (fs_files fs1 ! ?d) = 2"
    "fs_m_next_ino fs1 = fs_m_next_ino fs" using FlashDirectory_ok(1)[OF ok img(1,2)] img(3) by auto
  have "files_ok (fs1\<lparr>fs_flash_m_root := ?d\<rparr>) D" using 1(2) by (simp add: files_ok_def devices_ok_def)
  then show ?thesis using 1 by (simp add: FlashFileSystem_new_def file_at_ok grows_def)
qed


lemma MemoryFileSystem_new_ok:
  assumes ok: "files_ok fs D" and ino: "fs_m_next_ino fs = 2" and r: "fs_flash_m_root fs < length (fs_files fs)"
    "class_tag (vf_class (fs_files fs ! fs_flash_m_root fs)) = 3"
  shows "\<exists>fs' dev. MemoryFileSystem_new fs = Inr fs' \<and> files_ok fs' D \<and> fs_console fs' = fs_console fs \<and>
    fs_m_root fs' < length (fs_files fs') \<and> class_tag (vf_class (fs_files fs' ! fs_m_root fs')) = 2 \<and>
    dev < length (fs_files fs') \<and> class_tag (vf_class (fs_files fs' ! dev)) = 2 \<and>
    entry fs' (fs_m_root fs') ''dev'' = Some dev"
proof -
  let ?r = "length (fs_files fs)" and ?b = "fs_flash_m_root fs"
  obtain fs1 where 1: "MemoryDirectory_new fs = Inr (?r, fs1)" "files_ok fs1 D" "grows fs fs1"
    "length (fs_files fs1) = Suc ?r" "class_tag (vf_class (fs_files fs1 ! ?r)) = 2" "vf_m_ino (fs_files fs1 ! ?r) = 2"
    using MemoryDirectory_new_ok[OF ok] ino by auto
  define fs2 where "fs2 = fs1\<lparr>fs_m_root := ?r\<rparr>"
  have 2: "files_ok fs2 D" "length (fs_files fs2) = Suc ?r" "class_tag (vf_class (fs_files fs2 ! ?r)) = 2"
    "class_tag (vf_class (fs_files fs2 ! ?b)) = 3" "?b < ?r" "fs_m_root fs2 = ?r" "fs_flash_m_root fs2 = ?b"
    "fs_console fs2 = fs_console fs" "file_at fs2 ?r = Inr (fs_files fs1 ! ?r)"
    using 1 r grows_tag[OF 1(3), of ?b] by (auto simp: fs2_def files_ok_def devices_ok_def grows_def file_at_def)
  obtain fs3 where 3: "entries_set fs2 ?r ''.'' ?r = Inr fs3" "files_ok fs3 D" "grows fs2 fs3"
    "length (fs_files fs3) = Suc ?r"
    by (rule entries_set_step[OF 2(1), of ?r ?r "''.''"]) (use 2 in auto)
  have t3: "class_tag (vf_class (fs_files fs3 ! ?r)) = 2" using grows_tag[OF 3(3), of ?r] 2 by simp
  obtain fs4 where 4: "entries_set fs3 ?r ''..'' ?r = Inr fs4" "files_ok fs4 D" "grows fs3 fs4"
    "length (fs_files fs4) = Suc ?r"
    by (rule entries_set_step[OF 3(2), of ?r ?r "''..''"]) (use 3 t3 in auto)
  have "\<exists>fs5. MemoryDirectory_new fs4 = Inr (Suc ?r, fs5) \<and> files_ok fs5 D \<and> grows fs4 fs5 \<and>
    length (fs_files fs5) = Suc (Suc ?r) \<and> class_tag (vf_class (fs_files fs5 ! Suc ?r)) = 2"
    using MemoryDirectory_new_ok[OF 4(2)] 4(4) by auto
  then obtain fs5 where 5: "MemoryDirectory_new fs4 = Inr (Suc ?r, fs5)" "files_ok fs5 D" "grows fs4 fs5"
    "length (fs_files fs5) = Suc (Suc ?r)" "class_tag (vf_class (fs_files fs5 ! Suc ?r)) = 2" by blast
  have g5: "grows fs2 fs5" using 3(3) 4(3) 5(3) grows_trans by blast
  obtain fs6 where 6: "entries_set fs5 (Suc ?r) ''..'' ?r = Inr fs6" "files_ok fs6 D" "grows fs5 fs6"
    "length (fs_files fs6) = Suc (Suc ?r)"
    by (rule entries_set_step[OF 5(2), of "Suc ?r" ?r "''..''"]) (use 5 in auto)
  have g6: "grows fs2 fs6" using g5 6(3) grows_trans by blast
  have t6: "class_tag (vf_class (fs_files fs6 ! ?r)) = 2" "class_tag (vf_class (fs_files fs6 ! Suc ?r)) = 2"
    "class_tag (vf_class (fs_files fs6 ! ?b)) = 3"
    using grows_tag[OF g6, of ?r] grows_tag[OF 6(3), of "Suc ?r"] grows_tag[OF g6, of ?b] 2 5 by simp_all
  obtain fs7 where 7: "entries_set fs6 ?r ''dev'' (Suc ?r) = Inr fs7" "files_ok fs7 D" "grows fs6 fs7"
    "length (fs_files fs7) = Suc (Suc ?r)" "entry fs7 ?r ''dev'' = Some (Suc ?r)"
    by (rule entries_set_step[OF 6(2), of ?r "Suc ?r" "''dev''"]) (use 6 t6 in auto)
  have b7: "fs_flash_m_root fs7 = ?b" using g6 7(3) 2(7) by (simp add: grows_def)
  have t7: "class_tag (vf_class (fs_files fs7 ! ?r)) = 2" "class_tag (vf_class (fs_files fs7 ! ?b)) = 3"
    "class_tag (vf_class (fs_files fs7 ! Suc ?r)) = 2"
    using grows_tag[OF 7(3), of ?r] grows_tag[OF 7(3), of ?b] grows_tag[OF 7(3), of "Suc ?r"] t6 6(4) 2(5) by simp_all
  obtain fs8 where 8: "entries_set fs7 ?b ''..'' ?r = Inr fs8" "files_ok fs8 D" "grows fs7 fs8"
    "length (fs_files fs8) = Suc (Suc ?r)" "entry fs8 ?r ''dev'' = Some (Suc ?r)"
    by (rule entries_set_step[OF 7(2), of ?b ?r "''..''"]) (use 7 t7 2(5) in auto)
  have t8: "class_tag (vf_class (fs_files fs8 ! ?r)) = 2" "class_tag (vf_class (fs_files fs8 ! Suc ?r)) = 2"
    using grows_tag[OF 8(3), of ?r] grows_tag[OF 8(3), of "Suc ?r"] t7 7(4) by simp_all
  obtain fs9 where 9: "entries_set fs8 ?r ''bin'' ?b = Inr fs9" "files_ok fs9 D" "grows fs8 fs9"
    "length (fs_files fs9) = Suc (Suc ?r)" "entry fs9 ?r ''dev'' = Some (Suc ?r)"
    by (rule entries_set_step[OF 8(2), of ?r ?b "''bin''"]) (use 8 t8 2(5) in auto)
  have t9: "class_tag (vf_class (fs_files fs9 ! ?r)) = 2" "class_tag (vf_class (fs_files fs9 ! Suc ?r)) = 2"
    using grows_tag[OF 9(3), of ?r] grows_tag[OF 9(3), of "Suc ?r"] t8 8(4) by simp_all
  have g9: "grows fs2 fs9" using g6 7(3) 8(3) 9(3) grows_trans by blast
  then have m9: "fs_m_root fs9 = ?r" "fs_console fs9 = fs_console fs" using 2 by (simp_all add: grows_def)
  have "MemoryFileSystem_new fs = Inr fs9"
    unfolding MemoryFileSystem_new_def 1(1) bindE_Inr prod.case Let_def fs2_def[symmetric] 2(9)
    using 1(6) 3(1) 4(1) 5(1) 6(1) 7(1) b7 8(1) 9(1) by simp
  then show ?thesis using 9 m9 t9 by auto
qed

text \<open>The node \<^verbatim>\<open>/dev/tty\<close>, and what a lookup of it opens.\<close>

definition tty_ok :: "FS \<Rightarrow> nat \<Rightarrow> bool" where
  "tty_ok fs tty \<longleftrightarrow> tty < length (fs_files fs) \<and> vf_m_mode (fs_files fs ! tty) AND Mode_Format = Mode_Device \<and>
     HashMap_get_opt Hash_u32_compute (fs_m_devices fs) (vf_m_device_id (fs_files fs ! tty)) = Inr (Some (fs_console fs))"

lemma tty_grows: "tty_ok fs tty \<Longrightarrow> grows fs fs' \<Longrightarrow> tty_ok fs' tty"
  by (auto simp: tty_ok_def grows_def shape_def)

lemma tty_create_handle:
  assumes ok: "files_ok fs D" and t: "tty_ok fs tty"
  shows "VirtualFile_create_handle 1 fs tty = Inr (new_handle fs ConsoleFileHandle)"
proof -
  have c: "device_ok (fs_files fs) (fs_console fs)" using ok by (simp add: files_ok_def)
  then have "vf_class (fs_files fs ! fs_console fs) = ConsoleFile"
    by (cases "vf_class (fs_files fs ! fs_console fs)") (simp_all add: device_ok_def)
  then have "VirtualFile_create_handle 0 fs (fs_console fs) = Inr (new_handle fs ConsoleFileHandle)"
    using c by (subst VirtualFile_create_handle.simps) (simp add: file_at_ok device_ok_def create_handle_impl_def)
  then show ?thesis using t by (subst VirtualFile_create_handle.simps) (simp add: file_at_ok tty_ok_def)
qed

text \<open>What booting sets up.\<close>

definition booted :: "FS \<Rightarrow> bool" where
  "booted fs \<longleftrightarrow> (\<exists>dev tty. fs_m_root fs < length (fs_files fs) \<and> class_tag (vf_class (fs_files fs ! fs_m_root fs)) = 2 \<and>
     dev < length (fs_files fs) \<and> entry fs (fs_m_root fs) ''dev'' = Some dev \<and>
     entry fs dev ''tty'' = Some tty \<and> tty_ok fs tty)"

lemma booted_entries:
  assumes "booted fs" and "grows fs fs'" and "\<And>g c v. g < length (fs_files fs) \<Longrightarrow> c \<in> {''dev'', ''tty''} \<Longrightarrow>
    entry fs g c = Some v \<Longrightarrow> entry fs' g c = Some v"
  shows "booted fs'"
proof -
  obtain dev tty where b: "fs_m_root fs < length (fs_files fs)" "class_tag (vf_class (fs_files fs ! fs_m_root fs)) = 2"
     "dev < length (fs_files fs)" "entry fs (fs_m_root fs) ''dev'' = Some dev" "entry fs dev ''tty'' = Some tty" "tty_ok fs tty"
    using assms(1) unfolding booted_def by blast
  have "fs_m_root fs' = fs_m_root fs" using assms(2) by (simp add: grows_def)
  then show ?thesis unfolding booted_def
    using b assms(3)[OF b(1) _ b(4)] assms(3)[OF b(3) _ b(5)] tty_grows[OF b(6) assms(2)] grows_tag[OF assms(2) b(1)]
      grows_length[OF assms(2) b(1)] grows_length[OF assms(2) b(3)] by auto
qed

lemma booted_fs_ok: "files_ok fs D \<Longrightarrow> booted fs \<Longrightarrow> fs_ok fs"
  unfolding fs_ok_def booted_def by auto

lemma booted_same: "booted fs \<Longrightarrow> grows fs fs' \<Longrightarrow> same_entries fs fs' \<Longrightarrow> booted fs'"
  by (erule booted_entries) (simp_all add: same_entries_entry)

lemma booted_lookup:
  assumes "files_ok fs D" and "booted fs"
  obtains tty where "FileSystem_lookup fs \<lparr>pa_m_is_absolute = True, pa_m_components = [''dev'', ''tty'']\<rparr> = Inr tty"
    and "tty < length (fs_files fs)" and "VirtualFile_create_handle 1 fs tty = Inr (new_handle fs ConsoleFileHandle)"
proof -
  obtain dev tty where b: "fs_m_root fs < length (fs_files fs)" "entry fs (fs_m_root fs) ''dev'' = Some dev"
    "entry fs dev ''tty'' = Some tty" "tty_ok fs tty" using assms(2) unfolding booted_def by blast
  have "lookup_loop fs [''dev'', ''tty''] (fs_m_root fs) = Inr tty"
    by (rule lookup_walk[OF assms(1) b(1)]) (simp add: b)
  then show ?thesis using that tty_create_handle[OF assms(1) b(4)] b(4) by (simp add: FileSystem_lookup_def tty_ok_def)
qed

lemma DeviceFileSystem_new_ok:
  assumes ok: "files_ok fs D" and r: "fs_m_root fs < length (fs_files fs)"
    "class_tag (vf_class (fs_files fs ! fs_m_root fs)) = 2" and d: "dev < length (fs_files fs)"
    "class_tag (vf_class (fs_files fs ! dev)) = 2" and e: "entry fs (fs_m_root fs) ''dev'' = Some dev"
  shows "\<exists>fs' D'. DeviceFileSystem_new fs = Inr fs' \<and> files_ok fs' D' \<and> booted fs'"
proof -
  let ?D = "D(0x00010001 \<mapsto> fs_console fs)" and ?t = "length (fs_files fs)" and ?r = "fs_m_root fs"
  have l: "FileSystem_lookup fs \<lparr>pa_m_is_absolute = True, pa_m_components = [''dev'']\<rparr> = Inr dev"
    using lookup_walk[OF ok r(1), of "[''dev'']"] e by (simp add: FileSystem_lookup_def)
  obtain fs1 where 1: "DeviceFileSystem_add_device fs 0x00010001 (fs_console fs) = Inr fs1" "files_ok fs1 ?D"
    "fs_files fs1 = fs_files fs" "fs_m_root fs1 = ?r" "fs_console fs1 = fs_console fs"
    using add_device_ok[OF ok, of "fs_console fs" "0x00010001"] ok by (auto simp: files_ok_def)
  obtain fs2 v where 2: "MemoryFile_new fs1 = (?t, fs2)" "files_ok fs2 ?D" "grows fs1 fs2" "fs_files fs2 = fs_files fs @ [v]"
    "vf_class v = MemoryFile []" using MemoryFile_new_ok[OF 1(2)] 1(3) by auto
  define w where "w = v\<lparr>vf_m_mode := Mode_Device, vf_m_device_id := 0x00010001\<rparr>"
  define fs3 where "fs3 = put_file fs2 ?t w"
  have 3: "files_ok fs3 ?D" using put_device_ok[OF 2(2), of ?t "0x00010001"] 2(4,5) by (simp add: fs3_def w_def)
  have f3: "fs_files fs3 = fs_files fs @ [w]" "fs_m_root fs3 = ?r" "fs_console fs3 = fs_console fs"
    using 1 2(3,4) by (simp_all add: fs3_def put_file_def grows_def)
  have t3: "tty_ok fs3 ?t" using 3 HashMap_get_models(2)[of Hash_u32_compute "fs_m_devices fs3" ?D]
    by (simp add: tty_ok_def f3 w_def files_ok_def devices_ok_def)
  have s3: "same_entries fs fs3" using f3(1) by (rule same_entries_append)
  obtain fs4 where 4: "entries_set fs3 dev ''tty'' ?t = Inr fs4" "files_ok fs4 ?D" "grows fs3 fs4"
    "\<And>g c. g < length (fs_files fs3) \<Longrightarrow> entry fs4 g c = (if g = dev \<and> c = ''tty'' then Some ?t else entry fs3 g c)"
    by (rule entries_set_step[OF 3, of dev ?t "''tty''"]) (use f3 d in \<open>auto simp: nth_append\<close>)
  have "entry fs4 ?r ''dev'' = Some dev" "entry fs4 dev ''tty'' = Some ?t"
    using 4(4)[of ?r "''dev''"] 4(4)[of dev "''tty''"] same_entries_entry[OF s3 r(1), of "''dev''"] e r d f3(1) by simp_all
  moreover have "fs_m_root fs4 = ?r" using 4(3) f3 by (simp add: grows_def)
  moreover have "class_tag (vf_class (fs_files fs4 ! ?r)) = 2" using grows_tag[OF 4(3), of ?r] r f3(1) by (simp add: nth_append)
  moreover have "?r < length (fs_files fs4)" "dev < length (fs_files fs4)"
    using grows_length[OF 4(3), of ?r] grows_length[OF 4(3), of dev] r d f3(1) by simp_all
  ultimately have "booted fs4" unfolding booted_def using tty_grows[OF t3 4(3)] by auto
  moreover have "DeviceFileSystem_new fs = Inr fs4"
    unfolding DeviceFileSystem_new_def l using 1(1) 2(1) 4(1) 2(4) by (simp add: file_at_def fs3_def w_def)
  ultimately show ?thesis using 4(2) by blast
qed

text \<open>Booting from an image whose root directory has inode 2.\<close>

lemma next_new: "fs_m_next_ino (FS_new uart stack) = 2" by (simp add: FS_new_def)

lemma boot_files_ok_lemma:
  assumes img: "image_ok info" "fi_st_mode info AND Mode_Format = Mode_Directory" "fi_st_ino info = 2"
  shows "\<exists>fs D. boot_files (FS_new uart stack) info = Inr fs \<and> files_ok fs D \<and> booted fs"
proof -
  let ?fs = "FS_new uart stack"
  obtain fs1 where 1: "FlashFileSystem_new ?fs info = Inr fs1" "files_ok fs1 Map.empty"
    "fs_flash_m_root fs1 < length (fs_files fs1)" "class_tag (vf_class (fs_files fs1 ! fs_flash_m_root fs1)) = 3"
    "fs_m_next_ino fs1 = 2" 
    using FlashFileSystem_new_ok[OF FS_new_ok[of uart stack] img] by (auto simp: next_new)
  obtain fs2 dev where 2: "MemoryFileSystem_new fs1 = Inr fs2" "files_ok fs2 Map.empty"
    "fs_m_root fs2 < length (fs_files fs2)" "class_tag (vf_class (fs_files fs2 ! fs_m_root fs2)) = 2"
    "dev < length (fs_files fs2)" "class_tag (vf_class (fs_files fs2 ! dev)) = 2" "entry fs2 (fs_m_root fs2) ''dev'' = Some dev"
    using MemoryFileSystem_new_ok[OF 1(2,5,3,4)] by blast
  obtain fs3 D where 3: "DeviceFileSystem_new fs2 = Inr fs3" "files_ok fs3 D" "booted fs3"
    using DeviceFileSystem_new_ok[OF 2(2-7)] by blast
  let ?e = "length (fs_files fs3)"
  obtain fs4 v where 4: "MemoryFile_new fs3 = (?e, fs4)" "files_ok fs4 D" "grows fs3 fs4" "fs_files fs4 = fs_files fs3 @ [v]"
    "vf_class v = MemoryFile []" "vf_m_mode v = Mode_Regular" using MemoryFile_new_ok[OF 3(2)] by blast
  have b4: "booted fs4" by (rule booted_same[OF 3(3) 4(3) same_entries_append[OF 4(4)]])
  obtain h fs5 where h: "new_handle fs4 (MemoryFileHandle ?e 0) = (h, fs5)" by fastforce
  note 5 = new_handle_ok[OF 4(2) _ h]
  have hk: "handle_ok (fs_files fs4) (MemoryFileHandle ?e 0)" using 4 by simp
  have c5: "VirtualFile_create_handle 1 fs4 ?e = Inr (h, fs5)"
    using 4 h by (subst VirtualFile_create_handle.simps) (simp add: file_at_def create_handle_impl_def)
  have b5: "booted fs5" using booted_same[OF b4 5(2)[OF hk]] 5(4)[OF hk] by (simp add: same_entries_def)
  let ?b = "bytes_of (''Hello, world!'' @ [CHR 0x0A])"
  define w where "w = v\<lparr>vf_class := MemoryFile (view ?b), vf_m_size := map_option (\<lambda>n. n + Span_size ?b) (vf_m_size v)\<rparr>"
  define fs6 where "fs6 = put_handle (put_file fs5 ?e w) h (MemoryFileHandle ?e (Span_size ?b))"
  have w6: "VirtualFileHandle_write fs5 h ?b = Inr (Result_from_value (Span_size ?b), fs6)"
    using 5[OF hk] 4(4,5) by (simp add: VirtualFileHandle_write_def MemoryFile_append_def file_at_def fs6_def w_def)
  have f6: "files_ok fs6 D" "grows fs5 fs6" using write_ok[OF 5(1)[OF hk] _ w6] 5(3,5)[OF hk] by simp_all
  have "same_entries fs5 fs6" unfolding same_entries_def
  proof (intro allI impI)
    fix f assume "f < length (fs_files fs5)"
    then show "VirtualDirectory_entries (fs_files fs6 ! f) = VirtualDirectory_entries (fs_files fs5 ! f)"
      using 5(4)[OF hk] 4(4,5)
      by (cases "f = ?e") (simp_all add: fs6_def put_handle_def put_file_def w_def VirtualDirectory_entries_def nth_append)
  qed
  then have b6: "booted fs6" by (rule booted_same[OF b5 f6(2)])
  have r6: "fs_m_root fs6 < length (fs_files fs6)" "class_tag (vf_class (fs_files fs6 ! fs_m_root fs6)) = 2"
    using b6 unfolding booted_def by blast+
  have e6: "?e < length (fs_files fs6)" using 5(4)[OF hk] 4(4) by (simp add: fs6_def put_handle_def put_file_def)
  obtain fs7 where 7: "entries_set fs6 (fs_m_root fs6) ''example.txt'' ?e = Inr fs7" "files_ok fs7 D" "grows fs6 fs7"
    "\<And>g c. g < length (fs_files fs6) \<Longrightarrow>
       entry fs7 g c = (if g = fs_m_root fs6 \<and> c = ''example.txt'' then Some ?e else entry fs6 g c)"
    by (rule entries_set_step[OF f6(1) r6(1) _ e6, of "''example.txt''"]) (use r6 in auto)
  have "booted fs7" by (rule booted_entries[OF b6 7(3)]) (auto simp: 7(4))
  moreover have "boot_files ?fs info = Inr fs7"
    unfolding boot_files_def using 1(1) 2(1) 3(1) 4(1) c5 w6 7(1) by (simp add: FileSystem_lookup_def)
  ultimately show ?thesis using 7(2) by blast
qed

text \<open>
  C30. The kernel boots: from any flash image that consists of directories and regular files and
  whose root directory has inode 2, building the file systems succeeds and leaves a consistent
  state, in which looking up \<^verbatim>\<open>/dev/tty\<close>, as every new process does three times, finds a node
  whose handle is a handle of the console.
\<close>
theorem boot_files_opens_console:
  assumes "image_ok info" and "fi_st_mode info AND Mode_Format = Mode_Directory" and "fi_st_ino info = 2"
  shows "\<exists>fs tty. boot_files (FS_new uart stack) info = Inr fs \<and> fs_ok fs \<and>
    FileSystem_lookup fs \<lparr>pa_m_is_absolute = True, pa_m_components = [''dev'', ''tty'']\<rparr> = Inr tty \<and>
    VirtualFile_create_handle 1 fs tty = Inr (new_handle fs ConsoleFileHandle)"
proof -
  obtain fs D where b: "boot_files (FS_new uart stack) info = Inr fs" "files_ok fs D" "booted fs"
    using boot_files_ok_lemma[OF assms] by blast
  then show ?thesis using booted_lookup[OF b(2,3)] booted_fs_ok[OF b(2,3)] by blast
qed

definition example_image :: FileInfo where
  "example_image = FileInfo 2 Mode_Directory []
     [(''Shell.elf'', FileInfo 3 Mode_Regular [0x7f, 0x45] []), (''share'', FileInfo 4 Mode_Directory [] [])]"

lemma example_image_ok:
  "image_ok example_image" "fi_st_mode example_image AND Mode_Format = Mode_Directory" "fi_st_ino example_image = 2"
  by (simp_all add: example_image_def)

lemma boot_files_opens_console_witness:
  "\<exists>fs tty. boot_files (FS_new (UART_new 0 []) []) example_image = Inr fs \<and> fs_ok fs \<and>
    FileSystem_lookup fs \<lparr>pa_m_is_absolute = True, pa_m_components = [''dev'', ''tty'']\<rparr> = Inr tty \<and>
    VirtualFile_create_handle 1 fs tty = Inr (new_handle fs ConsoleFileHandle)"
  by (rule boot_files_opens_console[OF example_image_ok])

end
