(* ===== verification/Processes_Correct.thy ===== *)
theory Processes_Correct
  imports Processes Files_Boot
begin

section \<open>The invariant of the processes, and system calls\<close>

text \<open>
  Every process has an absolute working directory, descriptors that refer to open handles, a
  queue for eight terminated children and, if any, an existing parent.
\<close>

definition handles_ok :: "nat \<Rightarrow> Process \<Rightarrow> (int \<rightharpoonup> nat) \<Rightarrow> bool" where
  "handles_ok nh pr H \<longleftrightarrow> models i32_hash (pr_m_handles pr) H \<and>
     (\<forall>fd h. H fd = Some h \<longrightarrow> h < nh \<and> fd < pr_m_next_handle_id pr)"

definition queue_ok :: "TerminatedProcess CircularQueue \<Rightarrow> bool" where
  "queue_ok q \<longleftrightarrow> CircularQueue_inv q \<and> length (cq_m_data q) = 8"

definition process_ok :: "nat \<Rightarrow> nat \<Rightarrow> Process \<Rightarrow> bool" where
  "process_ok n nh pr \<longleftrightarrow> pa_m_is_absolute (pr_m_working_directory pr) \<and> (\<exists>H. handles_ok nh pr H) \<and>
     queue_ok (pr_m_terminated_children pr) \<and> (\<forall>q. pr_m_parent pr = Some q \<longrightarrow> q < n)"

definition kernel_ok :: "Kernel \<Rightarrow> bool" where
  "kernel_ok k \<longleftrightarrow> (\<exists>D. files_ok (ke_fs k) D) \<and> booted (ke_fs k) \<and>
     (\<forall>pr\<in>set (ke_processes k). process_ok (length (ke_processes k)) (length (fs_handles (ke_fs k))) pr)"

lemma process_mono: "process_ok n nh pr \<Longrightarrow> n \<le> m \<Longrightarrow> nh \<le> mh \<Longrightarrow> process_ok m mh pr"
  unfolding process_ok_def handles_ok_def by (meson less_le_trans)

lemma kernel_files:
  assumes "kernel_ok k" and "files_ok fs' D" and "grows (ke_fs k) fs'" and "booted fs'"
  shows "kernel_ok (k\<lparr>ke_fs := fs'\<rparr>)"
  using assms process_mono unfolding kernel_ok_def grows_def by auto

lemma kernel_put:
  assumes "kernel_ok k" and "process_ok (length (ke_processes k)) (length (fs_handles (ke_fs k))) pr"
  shows "kernel_ok (put_process k p pr)"
  using assms set_update_subset_insert[of "ke_processes k" p pr] by (auto simp: kernel_ok_def put_process_def)

lemma process_at_ok:
  assumes "kernel_ok k" and "process_at k p = Inr pr"
  shows "process_ok (length (ke_processes k)) (length (fs_handles (ke_fs k))) pr" and "p < length (ke_processes k)"
    and "pr = ke_processes k ! p"
  using assms by (auto simp: kernel_ok_def process_at_def split: if_splits)

lemma add_file_handle_ok:
  assumes ok: "process_ok n nh pr" and h: "h < nh" and a: "Process_add_file_handle pr h = Inr (fd, pr')"
  shows "process_ok n nh pr'" and "fd = pr_m_next_handle_id pr"
    and "pr_m_next_handle_id pr' = pr_m_next_handle_id pr + 1"
    and "HashMap_get_opt i32_hash (pr_m_handles pr') fd = Inr (Some h)"
    and "pr_m_working_directory pr' = pr_m_working_directory pr"
proof -
  obtain H where H: "handles_ok nh pr H" using ok by (auto simp: process_ok_def)
  obtain s where s: "HashMap_set i32_hash (pr_m_handles pr) (pr_m_next_handle_id pr) h = Inr s"
    "models i32_hash s (H(pr_m_next_handle_id pr \<mapsto> h))"
    using HashMap_set_models[of i32_hash "pr_m_handles pr" H "pr_m_next_handle_id pr" h] H by (auto simp: handles_ok_def)
  have e: "fd = pr_m_next_handle_id pr"
    "pr' = pr\<lparr>pr_m_next_handle_id := pr_m_next_handle_id pr + 1, pr_m_handles := s\<rparr>"
    using a s(1) by (auto simp: Process_add_file_handle_def i32_increment_def Let_def outcome_simps split: if_splits)
  have "handles_ok nh pr' (H(fd \<mapsto> h))" using H s(2) h 
    by (auto simp: handles_ok_def e intro!: order.strict_implies_order)
  then show "process_ok n nh pr'" using ok by (auto simp: process_ok_def e)
  show "HashMap_get_opt i32_hash (pr_m_handles pr') fd = Inr (Some h)"
    using HashMap_get_models(2)[OF s(2)] by (simp add: e)
qed (use a in \<open>auto simp: Process_add_file_handle_def i32_increment_def Let_def outcome_simps split: if_splits\<close>)

lemma add_file_handle_succeeds:
  assumes ok: "process_ok n nh pr" and m: "pr_m_next_handle_id pr < 2 ^ 31 - 1"
  shows "\<exists>pr'. Process_add_file_handle pr h = Inr (pr_m_next_handle_id pr, pr')"
proof -
  obtain H where H: "models i32_hash (pr_m_handles pr) H" using ok by (auto simp: process_ok_def handles_ok_def)
  show ?thesis using HashMap_set_models[OF H, of "pr_m_next_handle_id pr" h] m
    by (auto simp: Process_add_file_handle_def i32_increment_def Let_def)
qed

lemma get_file_handle_ok:
  "process_ok n nh pr \<Longrightarrow> Process_get_file_handle pr fd = Inr h \<Longrightarrow> h < nh"
  using HashMap_get_models(2)[of i32_hash "pr_m_handles pr"]
  by (fastforce simp: process_ok_def handles_ok_def Process_get_file_handle_def split: option.splits)

subsection \<open>What reading and writing leave of the directories\<close>

lemma read_entries:
  "VirtualFileHandle_read fs h bytes = Inr (r, fs', bytes') \<Longrightarrow> same_entries fs fs'"
  by (auto simp: VirtualFileHandle_read_def same_entries_def outcome_simps put_handle_def split: Handle.splits)

lemma same_entries_put:
  "f < length (fs_files fs) \<Longrightarrow> VirtualDirectory_entries v = VirtualDirectory_entries (fs_files fs ! f) \<Longrightarrow> same_entries fs (put_file fs f v)"
  by (simp add: same_entries_def put_file_def nth_list_update_eq nth_list_update)

lemma append_entries: "MemoryFile_append fs f bytes = Inr fs' \<Longrightarrow> same_entries fs fs'"
  by (cases "vf_class (fs_files fs ! f)")
    (auto simp: MemoryFile_append_def file_at_def VirtualDirectory_entries_def intro!: same_entries_put split: if_splits)

lemma truncate_entries: "VirtualFile_truncate fs f = Inr fs' \<Longrightarrow> same_entries fs fs'"
  by (cases "vf_class (fs_files fs ! f)")
    (auto simp: VirtualFile_truncate_def file_at_def VirtualDirectory_entries_def intro!: same_entries_put split: if_splits)

lemma write_entries: "VirtualFileHandle_write fs h bytes = Inr (r, fs') \<Longrightarrow> same_entries fs fs'"
  using append_entries
  by (fastforce simp: VirtualFileHandle_write_def same_entries_def outcome_simps put_handle_def split: Handle.splits)


subsection \<open>Every system call keeps the invariant\<close>

definition kernel_grows :: "Kernel \<Rightarrow> Kernel \<Rightarrow> bool" where
  "kernel_grows k k' \<longleftrightarrow> grows (ke_fs k) (ke_fs k') \<and> length (ke_processes k) \<le> length (ke_processes k')"

lemma kernel_grows_refl [simp]: "kernel_grows k k" by (simp add: kernel_grows_def)

lemma kernel_grows_put [simp]: "kernel_grows k (put_process k' p pr) \<longleftrightarrow> kernel_grows k k'"
  by (simp add: kernel_grows_def put_process_def)

lemma kernel_grows_fs [simp]: "kernel_grows k (k\<lparr>ke_fs := fs\<rparr>) \<longleftrightarrow> grows (ke_fs k) fs"
  by (simp add: kernel_grows_def)

lemma sys_read_ok:
  assumes ok: "kernel_ok k" and r: "sys_read k p fd buffer = Inr (n, k', buffer')"
  shows "kernel_ok k' \<and> kernel_grows k k'"
proof -
  obtain pr h r fs where s: "process_at k p = Inr pr" "Process_get_file_handle pr fd = Inr h"
    "VirtualFileHandle_read (ke_fs k) h buffer = Inr (r, fs, buffer')" "k' = k\<lparr>ke_fs := fs\<rparr>"
    using r by (auto simp: sys_read_def outcome_simps)
  obtain D where D: "files_ok (ke_fs k) D" "booted (ke_fs k)" using ok by (auto simp: kernel_ok_def)
  note h = get_file_handle_ok[OF process_at_ok(1)[OF ok s(1)] s(2)]
  note R = read_ok[OF D(1) h s(3)]
  show ?thesis using kernel_files[OF ok R booted_same[OF D(2) R(2) read_entries[OF s(3)]]] R(2) s(4) by simp
qed

lemma sys_write_ok:
  assumes ok: "kernel_ok k" and r: "sys_write k p fd buffer = Inr (n, k')"
  shows "kernel_ok k' \<and> kernel_grows k k'"
proof -
  obtain pr h r fs where s: "process_at k p = Inr pr" "Process_get_file_handle pr fd = Inr h"
    "VirtualFileHandle_write (ke_fs k) h buffer = Inr (r, fs)" "k' = k\<lparr>ke_fs := fs\<rparr>"
    using r by (auto simp: sys_write_def outcome_simps)
  obtain D where D: "files_ok (ke_fs k) D" "booted (ke_fs k)" using ok by (auto simp: kernel_ok_def)
  note h = get_file_handle_ok[OF process_at_ok(1)[OF ok s(1)] s(2)]
  note R = write_ok[OF D(1) h s(3)]
  show ?thesis using kernel_files[OF ok R booted_same[OF D(2) R(2) write_entries[OF s(3)]]] R(2) s(4) by simp
qed

lemma create_handle_impl_new: "create_handle_impl fs f v = Inr (h, fs') \<Longrightarrow> \<exists>k. new_handle fs k = (h, fs')"
  by (cases "vf_class v") (auto simp: create_handle_impl_def outcome_simps)

lemma create_handle_new:
  "VirtualFile_create_handle n fs f = Inr (h, fs') \<Longrightarrow> \<exists>k. new_handle fs k = (h, fs')"
proof (induction n arbitrary: f)
  case 0
  then show ?case using create_handle_impl_new
    by (subst (asm) VirtualFile_create_handle.simps) (auto simp: outcome_simps split: if_splits)
next
  case (Suc n)
  show ?case using Suc.prems VirtualFile_create_handle.simps[of "Suc n" fs f] Suc.IH create_handle_impl_new
    by (auto simp: outcome_simps split: if_splits option.splits)
qed

lemma create_handle_index: "VirtualFile_create_handle n fs f = Inr (h, fs') \<Longrightarrow> h < length (fs_handles fs')"
  using create_handle_new by (fastforce simp: new_handle_def)

lemma open_handle_ok:
  assumes ok: "kernel_ok k" and f: "f < length (fs_files (ke_fs k))" and r: "open_handle k p f = Inr (fd, k')"
  shows "kernel_ok k' \<and> kernel_grows k k'"
proof -
  obtain D where D: "files_ok (ke_fs k) D" "booted (ke_fs k)" using ok by (auto simp: kernel_ok_def)
  let ?h = "length (fs_handles (ke_fs k))"
  obtain fs where c: "VirtualFile_create_handle 1 (ke_fs k) f = Inr (?h, fs)" "files_ok fs D" "grows (ke_fs k) fs"
    "fs_files fs = fs_files (ke_fs k)" "?h < length (fs_handles fs)"
    using create_handle_ok[OF D(1) f] create_handle_index[of 1 "ke_fs k" f] by blast
  have ok1: "kernel_ok (k\<lparr>ke_fs := fs\<rparr>)"
    using kernel_files[OF ok c(2,3) booted_same[OF D(2) c(3)]] c(4) by (simp add: same_entries_def)
  obtain pr pr' where s: "process_at k p = Inr pr" "Process_add_file_handle pr ?h = Inr (fd, pr')"
    "k' = put_process (k\<lparr>ke_fs := fs\<rparr>) p pr'" using r c(1) by (auto simp: open_handle_def outcome_simps)
  have "process_at (k\<lparr>ke_fs := fs\<rparr>) p = Inr pr" using s(1) by (auto simp: process_at_def split: if_splits)
  note p1 = process_at_ok(1)[OF ok1 this]
  have "kernel_ok k'" using kernel_put[OF ok1] add_file_handle_ok(1)[OF p1 _ s(2)] c(5) s(3) by simp
  then show ?thesis using s(3) c(3) by simp
qed


subsection \<open>Opening files\<close>

lemma result_inject [simp]:
  "Result_from_error e \<noteq> (Result_from_value v :: ('v, 'e) Result)" "Result_from_value v \<noteq> (Result_from_error e :: ('v, 'e) Result)"
  "Result_from_value v = (Result_from_value w :: ('v, 'e) Result) \<longleftrightarrow> v = w"
  "Result_from_error e = (Result_from_error f :: ('v, 'e) Result) \<longleftrightarrow> e = f"
  by (simp_all add: Result_from_error_def Result_from_value_def)

lemma try_lookup_append:
  "walk fs cs f = Some d \<Longrightarrow> files_ok fs D \<Longrightarrow> f < length (fs_files fs) \<Longrightarrow>
   try_lookup_loop fs (cs @ ds) f = try_lookup_loop fs ds d"
proof (induction cs arbitrary: f)
  case (Cons c cs)
  then obtain h where h: "entry fs f c = Some h" "walk fs cs h = Some d" by (auto split: option.splits)
  then obtain e where e: "VirtualDirectory_entries (fs_files fs ! f) = Some e"
    by (auto simp: entry_def split: option.splits)
  note q = entry_get[OF Cons.prems(2,3) e, of c]
  have "try_lookup_loop fs ((c # cs) @ ds) f = try_lookup_loop fs (cs @ ds) h"
    using q(1) h(1) e Cons.prems(3) by (simp add: file_at_ok)
  then show ?case using Cons.IH[OF h(2) Cons.prems(2) q(2)[OF h(1)]] by simp
qed simp

text \<open>A lookup fails with \<^verbatim>\<open>ENOENT\<close> in a directory without the entry.\<close>

lemma lookup_enoent:
  assumes ok: "files_ok fs D" and f: "f < length (fs_files fs)" and w: "walk fs cs f = Some d"
    and e: "try_lookup_loop fs (cs @ [c]) f = Inr (Result_from_error ENOENT)"
  shows "entry fs d c = None" and "class_tag (vf_class (fs_files fs ! d)) \<in> {2, 3}" and "d < length (fs_files fs)"
proof -
  show d: "d < length (fs_files fs)" using try_lookup_walk[OF ok f, of cs] w by simp
  have l: "try_lookup_loop fs [c] d = Inr (Result_from_error ENOENT)" using try_lookup_append[OF w ok f] e by simp
  have ne: "Result_from_error ENOTDIR \<noteq> (Result_from_error ENOENT :: nat KernelResult)"
    by (simp add: Result_from_error_def ENOTDIR_def ENOENT_def)
  show t: "class_tag (vf_class (fs_files fs ! d)) \<in> {2, 3}"
    using l d ne entries_tag[of "fs_files fs ! d"] by (auto simp: file_at_ok split: option.splits)
  then obtain en where en: "VirtualDirectory_entries (fs_files fs ! d) = Some en"
    using entries_tag[of "fs_files fs ! d"] by auto
  have nv: "Result_from_value g \<noteq> (Result_from_error ENOENT :: nat KernelResult)" for g
    by (simp add: Result_from_error_def Result_from_value_def)
  show "entry fs d c = None" using entry_get(1)[OF ok d en, of c] l d en nv
    by (cases "entry fs d c") (simp_all add: file_at_ok)
qed


lemma absolute_path_ok:
  assumes "process_ok n nh pr" and "absolute_path pr path = Inr path'"
  shows "pa_m_is_absolute path'"
  using assms by (auto simp: absolute_path_def Path_append_def process_ok_def outcome_simps split: if_splits)

text \<open>The lookup of an absolute path.\<close>

lemma kernel_lookup:
  assumes ok: "kernel_ok k" and a: "pa_m_is_absolute path" and r: "FileSystem_try_lookup (ke_fs k) path = Inr r"
  shows "(\<exists>g. r = Result_from_value g \<and> g < length (fs_files (ke_fs k)) \<and>
      walk (ke_fs k) (pa_m_components path) (fs_m_root (ke_fs k)) = Some g) \<or>
    (r = Result_from_error ENOTDIR \<or> r = Result_from_error ENOENT) \<and>
      walk (ke_fs k) (pa_m_components path) (fs_m_root (ke_fs k)) = None"
proof -
  obtain D where D: "files_ok (ke_fs k) D" "fs_m_root (ke_fs k) < length (fs_files (ke_fs k))"
    using ok by (auto simp: kernel_ok_def booted_def)
  show ?thesis using try_lookup_walk[OF D, of "pa_m_components path"] a r
    by (cases "walk (ke_fs k) (pa_m_components path) (fs_m_root (ke_fs k))")
      (auto simp: FileSystem_try_lookup_def)
qed

lemma entries_set_other: "entries_set fs d name f = Inr fs' \<Longrightarrow> g \<noteq> d \<Longrightarrow> fs_files fs' ! g = fs_files fs ! g"
  by (auto simp: entries_set_def put_file_def outcome_simps split: option.splits)

text \<open>Creating a file gives the directory a new entry for a new, empty file.\<close>

lemma sys_open_create_steps:
  assumes ok: "kernel_ok k" and a: "pa_m_is_absolute path"
    and e: "FileSystem_try_lookup (ke_fs k) path = Inr (Result_from_error ENOENT)"
  defines "cs \<equiv> pa_m_components path" and "f \<equiv> length (fs_files (ke_fs k))"
  shows "cs \<noteq> [] \<and> (case walk (ke_fs k) (butlast cs) (fs_m_root (ke_fs k)) of
      None \<Rightarrow> sys_open_create k p path = Inr (- ENOTDIR, k)
    | Some d \<Rightarrow> d < f \<and> entry (ke_fs k) d (last cs) = None \<and>
       (\<exists>fs. sys_open_create k p path = open_handle (k\<lparr>ke_fs := fs\<rparr>) p f \<and> kernel_ok (k\<lparr>ke_fs := fs\<rparr>) \<and>
          grows (ke_fs k) fs \<and> length (fs_files fs) = Suc f \<and>
          (\<forall>g c. g < f \<longrightarrow> entry fs g c = (if g = d \<and> c = last cs then Some f else entry (ke_fs k) g c)) \<and>
          vf_class (fs_files fs ! f) = MemoryFile [] \<and> vf_m_mode (fs_files fs ! f) = Mode_Regular))"
proof -
  let ?fs = "ke_fs k" and ?parent = "\<lparr>pa_m_is_absolute = True, pa_m_components = butlast cs\<rparr>"
  obtain D where D: "files_ok ?fs D" "booted ?fs" "fs_m_root ?fs < length (fs_files ?fs)"
    using ok by (auto simp: kernel_ok_def booted_def)
  have "walk ?fs cs (fs_m_root ?fs) = None" using kernel_lookup[OF ok a e] by (auto simp: cs_def)
  then have cs: "cs \<noteq> []" by auto
  then have par: "Path_parent path = Inr ?parent"
    using a by (cases path) (simp add: Path_parent_def cs_def butlast_conv_take checkE_def Suc_le_eq Path_empty_def)
  have fname: "Path_filename path = Inr (last cs)"
    using cs by (simp add: Path_filename_def cs_def last_conv_nth checkE_def Suc_le_eq)
  note lk = try_lookup_walk[OF D(1,3), of "butlast cs"]
  show ?thesis
  proof (cases "walk ?fs (butlast cs) (fs_m_root ?fs)")
    case None
    then show ?thesis using lk par cs by (auto simp: sys_open_create_def FileSystem_try_lookup_def)
  next
    case (Some d)
    have po: "FileSystem_try_lookup ?fs ?parent = Inr (Result_from_value d)"
      using lk Some by (simp add: FileSystem_try_lookup_def)
    have "try_lookup_loop ?fs (butlast cs @ [last cs]) (fs_m_root ?fs) = Inr (Result_from_error ENOENT)"
      using e a cs by (simp add: FileSystem_try_lookup_def cs_def)
    note L = lookup_enoent[OF D(1,3) Some this]
    obtain fs1 v where 1: "MemoryFile_new ?fs = (f, fs1)" "files_ok fs1 D" "grows ?fs fs1"
      "fs_files fs1 = fs_files ?fs @ [v]" "vf_class v = MemoryFile []" "vf_m_mode v = Mode_Regular"
      using MemoryFile_new_ok[OF D(1)] unfolding f_def by blast
    have d1: "d < length (fs_files fs1)" "f < length (fs_files fs1)" using L(3) 1(4) by (simp_all add: f_def)
    have t1: "class_tag (vf_class (fs_files fs1 ! d)) \<in> {2, 3}" using grows_tag[OF 1(3) L(3)] L(2) by simp
    obtain fs2 where 2: "entries_set fs1 d (last cs) f = Inr fs2" "files_ok fs2 D" "grows fs1 fs2"
      "length (fs_files fs2) = length (fs_files fs1)"
      "\<And>g c. g < length (fs_files fs1) \<Longrightarrow> entry fs2 g c = (if g = d \<and> c = last cs then Some f else entry fs1 g c)"
      by (rule entries_set_step[OF 1(2) d1(1) t1 d1(2), of "last cs"]) blast
    have s1: "same_entries ?fs fs1" using 1(4) by (rule same_entries_append)
    have b1: "booted fs1" by (rule booted_same[OF D(2) 1(3) s1])
    have "entry fs1 d (last cs) = None" using same_entries_entry[OF s1 L(3)] L(1) by simp
    then have b2: "booted fs2" using 2(5) by (intro booted_entries[OF b1 2(3)]) auto
    have g2: "grows ?fs fs2" using 1(3) 2(3) grows_trans by blast
    note ok2 = kernel_files[OF ok 2(2) g2 b2]
    have "sys_open_create k p path = open_handle (k\<lparr>ke_fs := fs2\<rparr>) p f"
      using par po fname 1(1) 2(1) by (simp add: sys_open_create_def)
    moreover have "\<forall>g c. g < f \<longrightarrow> entry fs2 g c = (if g = d \<and> c = last cs then Some f else entry ?fs g c)"
      using 2(5) same_entries_entry[OF s1] d1(2) by (simp add: f_def)
    moreover have "fs_files fs2 ! f = v" using entries_set_other[OF 2(1), of f] L(3) 1(4) by (simp add: f_def)
    moreover have "length (fs_files fs2) = Suc f" using 2(4) 1(4) by (simp add: f_def)
    ultimately show ?thesis using Some L(1,3) cs ok2 g2 1(5,6) by (auto simp: f_def)
  qed
qed

lemma sys_open_create_ok:
  assumes ok: "kernel_ok k" and a: "pa_m_is_absolute path"
    and e: "FileSystem_try_lookup (ke_fs k) path = Inr (Result_from_error ENOENT)"
    and r: "sys_open_create k p path = Inr (fd, k')"
  shows "kernel_ok k' \<and> kernel_grows k k'"
proof -
  let ?f = "length (fs_files (ke_fs k))"
  have "k' = k \<or> (\<exists>fs. open_handle (k\<lparr>ke_fs := fs\<rparr>) p ?f = Inr (fd, k') \<and> kernel_ok (k\<lparr>ke_fs := fs\<rparr>) \<and>
      grows (ke_fs k) fs \<and> length (fs_files fs) = Suc ?f)"
    using sys_open_create_steps[OF ok a e, of p] r by (auto split: option.splits)
  then show ?thesis
  proof (elim disjE exE conjE)
    fix fs assume h: "open_handle (k\<lparr>ke_fs := fs\<rparr>) p ?f = Inr (fd, k')" "kernel_ok (k\<lparr>ke_fs := fs\<rparr>)"
      "grows (ke_fs k) fs" "length (fs_files fs) = Suc ?f"
    show ?thesis using open_handle_ok[OF h(2) _ h(1)] h(3,4) by (auto simp: kernel_grows_def intro: grows_trans)
  qed (use ok in simp)
qed

lemma sys_open_existing_ok:
  assumes ok: "kernel_ok k" and f: "f < length (fs_files (ke_fs k))"
    and r: "sys_open_existing k p f flags = Inr (fd, k')"
  shows "kernel_ok k' \<and> kernel_grows k k'"
proof -
  let ?fs = "ke_fs k"
  obtain D where D: "files_ok ?fs D" "booted ?fs" using ok by (auto simp: kernel_ok_def)
  consider "k' = k" | "open_handle k p f = Inr (fd, k')"
    | fs where "VirtualFile_truncate ?fs f = Inr fs" "open_handle (k\<lparr>ke_fs := fs\<rparr>) p f = Inr (fd, k')"
    using r f by (auto simp: sys_open_existing_def file_at_ok outcome_simps split: if_splits)
  then show ?thesis
  proof cases
    case 1
    then show ?thesis using ok by simp
  next
    case 2
    then show ?thesis using open_handle_ok[OF ok f] by blast
  next
    case (3 fs)
    have T: "files_ok fs D" "grows ?fs fs"
      using truncate_ok[OF D(1) f] 3(1) by (auto split: if_splits)
    have "booted fs" by (rule booted_same[OF D(2) T(2) truncate_entries[OF 3(1)]])
    note ok1 = kernel_files[OF ok T this]
    have "f < length (fs_files fs)" using f T(2) grows_length by blast
    then show ?thesis using open_handle_ok[OF ok1 _ 3(2)] T(2) by (auto simp: kernel_grows_def intro: grows_trans)
  qed
qed

lemma sys_open_ok:
  assumes ok: "kernel_ok k" and r: "sys_open k p pathname flags = Inr (fd, k')"
  shows "kernel_ok k' \<and> kernel_grows k k'"
proof -
  obtain pr path0 path fo where s: "process_at k p = Inr pr" "Path_of_cstring pathname = Inr path0"
    "absolute_path pr path0 = Inr path" "FileSystem_try_lookup (ke_fs k) path = Inr fo"
    using r by (auto simp: sys_open_def outcome_simps)
  note a = absolute_path_ok[OF process_at_ok(1)[OF ok s(1)] s(3)]
  from kernel_lookup[OF ok a s(4)] show ?thesis
  proof (elim disjE exE conjE)
    fix g assume "fo = Result_from_value g" "g < length (fs_files (ke_fs k))"
    then show ?thesis using sys_open_existing_ok[OF ok] r s by (auto simp: sys_open_def)
  qed (use r s ok sys_open_create_ok[OF ok a] in \<open>auto simp: sys_open_def ENOTDIR_def ENOENT_def split: if_splits\<close>)
qed


subsection \<open>The other calls\<close>

lemma sys_chdir_ok:
  assumes ok: "kernel_ok k" and r: "sys_chdir k p pathname = Inr (n, k')"
  shows "kernel_ok k' \<and> kernel_grows k k'"
proof -
  obtain pr path0 path fo where s: "process_at k p = Inr pr" "Path_of_cstring pathname = Inr path0"
    "absolute_path pr path0 = Inr path" "FileSystem_try_lookup (ke_fs k) path = Inr fo"
    using r by (auto simp: sys_chdir_def outcome_simps)
  note a = absolute_path_ok[OF process_at_ok(1)[OF ok s(1)] s(3)]
  have "k' = k \<or> k' = put_process k p (pr\<lparr>pr_m_working_directory := path\<rparr>)"
    using r s by (auto simp: sys_chdir_def outcome_simps split: if_splits)
  moreover have "process_ok (length (ke_processes k)) (length (fs_handles (ke_fs k))) (pr\<lparr>pr_m_working_directory := path\<rparr>)"
    using process_at_ok(1)[OF ok s(1)] a by (simp add: process_ok_def handles_ok_def)
  ultimately show ?thesis using ok kernel_put by auto
qed

lemma queue_enqueue_ok:
  "queue_ok q \<Longrightarrow> CircularQueue_enqueue x q = Inr (r, q') \<Longrightarrow> queue_ok q'"
  using cq.enqD[of q x r q'] by (simp add: queue_ok_def)

lemma queue_dequeue_ok:
  "queue_ok q \<Longrightarrow> CircularQueue_dequeue q = Inr (x, q') \<Longrightarrow> queue_ok q'"
  using cq.deqD[of q x q'] by (simp add: queue_ok_def)

lemma children_ok:
  "process_ok n nh pr \<Longrightarrow> queue_ok q \<Longrightarrow> process_ok n nh (pr\<lparr>pr_m_terminated_children := q\<rparr>)"
  by (simp add: process_ok_def handles_ok_def)

lemma sys_wait_ok:
  assumes ok: "kernel_ok k" and r: "sys_wait_poll k p = Inr (n, k')"
  shows "kernel_ok k' \<and> kernel_grows k k'"
proof -
  obtain pr where s: "process_at k p = Inr pr" using r by (auto simp: sys_wait_poll_def outcome_simps)
  note pr = process_at_ok(1)[OF ok s]
  have "k' = k \<or> (\<exists>c q. CircularQueue_dequeue (pr_m_terminated_children pr) = Inr (c, q) \<and>
      k' = put_process k p (pr\<lparr>pr_m_terminated_children := q\<rparr>))"
    using r s by (auto simp: sys_wait_poll_def outcome_simps split: if_splits)
  then show ?thesis using ok kernel_put[OF ok children_ok[OF pr queue_dequeue_ok]] pr
    by (auto simp: process_ok_def)
qed

lemma sys_exit_ok:
  assumes ok: "kernel_ok k" and r: "sys_exit k p status = Inr (n, k')"
  shows "kernel_ok k' \<and> kernel_grows k k'"
proof -
  have "k' = k \<or> (\<exists>parent q c y qs. process_at k parent = Inr q \<and>
      CircularQueue_enqueue c (pr_m_terminated_children q) = Inr (y, qs) \<and>
      k' = put_process k parent (q\<lparr>pr_m_terminated_children := qs\<rparr>))"
    using r by (fastforce simp: sys_exit_def outcome_simps split: option.splits)
  then show ?thesis
  proof (elim disjE exE conjE)
    fix parent q c y qs
    assume h: "process_at k parent = Inr q" "CircularQueue_enqueue c (pr_m_terminated_children q) = Inr (y, qs)"
      "k' = put_process k parent (q\<lparr>pr_m_terminated_children := qs\<rparr>)"
    note q = process_at_ok(1)[OF ok h(1)]
    then have "queue_ok (pr_m_terminated_children q)" by (simp add: process_ok_def)
    note k = kernel_put[OF ok children_ok[OF q queue_enqueue_ok[OF this h(2)]]]
    show ?thesis using k h(3) by simp
  qed (use ok in simp)
qed

lemma kernel_new_process:
  assumes ok: "kernel_ok k" and pr: "process_ok (length (ke_processes k)) (length (fs_handles (ke_fs k))) pr"
  shows "kernel_ok (k\<lparr>ke_processes := ke_processes k @ [pr], ke_m_next_process_id := i\<rparr>)"
  using ok process_mono[OF pr, of "Suc (length (ke_processes k))" "length (fs_handles (ke_fs k))"]
    process_mono[of "length (ke_processes k)" "length (fs_handles (ke_fs k))" _
      "Suc (length (ke_processes k))" "length (fs_handles (ke_fs k))"]
  by (auto simp: kernel_ok_def)

lemma booted_tty:
  assumes "files_ok fs D" and "booted fs"
  obtains tty where "FileSystem_lookup fs Path_dev_tty = Inr tty" and "tty_ok fs tty"
proof -
  obtain dev tty where b: "fs_m_root fs < length (fs_files fs)" "entry fs (fs_m_root fs) ''dev'' = Some dev"
    "entry fs dev ''tty'' = Some tty" "tty_ok fs tty" using assms(2) unfolding booted_def by blast
  have "lookup_loop fs [''dev'', ''tty''] (fs_m_root fs) = Inr tty"
    by (rule lookup_walk[OF assms(1) b(1)]) (simp add: b)
  then show ?thesis using that b(4) by (simp add: FileSystem_lookup_def Path_dev_tty_def)
qed

text \<open>Opening the console once more.\<close>

lemma console_handle_ok:
  assumes ok: "files_ok fs D" and t: "tty_ok fs tty" and b: "booted fs"
    and v: "VirtualFile_create_handle 1 fs tty = Inr (h, fs')"
  shows "files_ok fs' D" and "tty_ok fs' tty" and "booted fs'" and "grows fs fs'" and "h < length (fs_handles fs')"
proof -
  have n: "new_handle fs ConsoleFileHandle = (h, fs')" using tty_create_handle[OF ok t] v by simp
  note N = new_handle_ok[OF ok _ n, simplified]
  show "files_ok fs' D" "grows fs fs'" "h < length (fs_handles fs')" using N by simp_all
  show "tty_ok fs' tty" by (rule tty_grows[OF t N(2)])
  show "booted fs'" using booted_same[OF b N(2)] N(4) by (simp add: same_entries_def)
qed

lemma fresh_process_ok:
  assumes "pr = \<lparr>pr_m_working_directory = Path_root, pr_m_name = name, pr_m_parent = None,
               pr_m_process_id = i, pr_m_terminated_children = CircularQueue_new 8,
               pr_m_handles = HashMap_new, pr_m_next_handle_id = 0\<rparr>"
  shows "process_ok n nh pr"
  unfolding process_ok_def
proof (intro conjI exI[of _ Map.empty])
  show "handles_ok nh pr Map.empty" by (simp add: handles_ok_def assms models_new)
qed (simp_all add: assms Path_root_def queue_ok_def CircularQueue_new_inv(1))

lemma Process_new_ok:
  assumes ok: "kernel_ok k" and r: "Process_new k name = Inr (q, k')"
  shows "kernel_ok k' \<and> kernel_grows k k' \<and> q = length (ke_processes k) \<and> q < length (ke_processes k')"
proof -
  let ?fs = "ke_fs k"
  obtain D where D: "files_ok ?fs D" "booted ?fs" using ok by (auto simp: kernel_ok_def)
  obtain tty where tty: "FileSystem_lookup ?fs Path_dev_tty = Inr tty" "tty_ok ?fs tty" by (rule booted_tty[OF D])
  define pr where "pr = \<lparr>pr_m_working_directory = Path_root, pr_m_name = name, pr_m_parent = None,
               pr_m_process_id = ke_m_next_process_id k, pr_m_terminated_children = CircularQueue_new 8,
               pr_m_handles = HashMap_new, pr_m_next_handle_id = 0\<rparr>"
  obtain i h0 fs1 i0 pr1 h1 fs2 i1 pr2 h2 fs3 i2 pr3 where s:
    "VirtualFile_create_handle 1 ?fs tty = Inr (h0, fs1)" "Process_add_file_handle pr h0 = Inr (i0, pr1)"
    "VirtualFile_create_handle 1 fs1 tty = Inr (h1, fs2)" "Process_add_file_handle pr1 h1 = Inr (i1, pr2)"
    "VirtualFile_create_handle 1 fs2 tty = Inr (h2, fs3)" "Process_add_file_handle pr2 h2 = Inr (i2, pr3)"
    "q = length (ke_processes k)"
    "k' = k\<lparr>ke_fs := fs3, ke_processes := ke_processes k @ [pr3], ke_m_next_process_id := i\<rparr>"
    using r tty(1) unfolding Process_new_def pr_def by (auto simp: outcome_simps Let_def)
  note f1 = console_handle_ok[OF D(1) tty(2) D(2) s(1)]
  note f2 = console_handle_ok[OF f1(1-3) s(3)]
  note f3 = console_handle_ok[OF f2(1-3) s(5)]
  have g: "grows ?fs fs3" using f1(4) f2(4) f3(4) grows_trans by blast
  have h: "h0 < length (fs_handles fs3)" "h1 < length (fs_handles fs3)" "h2 < length (fs_handles fs3)"
    using f1(5) f2(4,5) f3(4,5) by (auto simp: grows_def)
  note p0 = fresh_process_ok[OF pr_def, of "length (ke_processes k)" "length (fs_handles fs3)"]
  note p1 = add_file_handle_ok(1)[OF p0 h(1) s(2)]
  note p2 = add_file_handle_ok(1)[OF p1 h(2) s(4)]
  note p3 = add_file_handle_ok(1)[OF p2 h(3) s(6)]
  note k1 = kernel_files[OF ok f3(1) g f3(3)]
  have "kernel_ok k'" using kernel_new_process[OF k1, of pr3 i] p3 s(8) by simp
  then show ?thesis using g s(7,8) by (simp add: kernel_grows_def)
qed

lemma sys_posix_spawn_ok:
  assumes ok: "kernel_ok k" and r: "sys_posix_spawn k p path fa at argv envp = Inr (n, pid, req, k')"
  shows "kernel_ok k' \<and> kernel_grows k k'"
proof -
  obtain pr where pr: "process_at k p = Inr pr"
    using r by (auto simp: sys_posix_spawn_def outcome_simps Let_def)
  obtain path0 path1 g v where q: "Path_of_cstring path = Inr path0" "absolute_path pr path0 = Inr path1"
    "FileSystem_lookup (ke_fs k) path1 = Inr g" "file_at (ke_fs k) g = Inr v" "\<not> fa" "\<not> at"
    using r pr by (auto simp: sys_posix_spawn_def outcome_simps Let_def)
  have "\<exists>q k1 pq. Process_new k path = Inr (q, k1) \<and> process_at k1 q = Inr pq \<and>
      k' = put_process k1 q (pq\<lparr>pr_m_parent := Some p, pr_m_working_directory := pr_m_working_directory pr\<rparr>)"
    using r pr q by (cases "vf_class v") (auto simp: sys_posix_spawn_def outcome_simps Let_def split: option.splits)
  then obtain q k1 pq where s: "Process_new k path = Inr (q, k1)" "process_at k1 q = Inr pq"
      "k' = put_process k1 q (pq\<lparr>pr_m_parent := Some p, pr_m_working_directory := pr_m_working_directory pr\<rparr>)" by blast
  note N = Process_new_ok[OF ok s(1)]
  have pq: "process_ok (length (ke_processes k1)) (length (fs_handles (ke_fs k1))) pq"
    using process_at_ok(1)[OF _ s(2)] N by blast
  have "p < length (ke_processes k1)" using process_at_ok(2)[OF ok pr] N by (auto simp: kernel_grows_def)
  then have "process_ok (length (ke_processes k1)) (length (fs_handles (ke_fs k1)))
      (pq\<lparr>pr_m_parent := Some p, pr_m_working_directory := pr_m_working_directory pr\<rparr>)"
    using pq process_at_ok(1)[OF ok pr] by (simp add: process_ok_def handles_ok_def)
  from kernel_put[OF _ this] show ?thesis using s(3) N by simp
qed

lemmas syscalls_ok = sys_read_ok sys_write_ok sys_open_ok sys_chdir_ok sys_wait_ok sys_exit_ok sys_posix_spawn_ok

lemma Thread_syscall_ok:
  assumes ok: "kernel_ok k" and r: "Thread_syscall k p n a = Inr (res, out, k')"
  shows "kernel_ok k' \<and> kernel_grows k k'"
proof -
  consider "k' = k" | b where "sys_read k p (a_int a) (a_buffer a) = Inr (res, k', b)"
    | "sys_write k p (a_int a) (a_buffer a) = Inr (res, k')"
    | "sys_open k p (a_cstring a) (a_value a) = Inr (res, k')"
    | pid req where "sys_posix_spawn k p (a_spawn_path a) (a_file_actions a) (a_attrp a) (a_argv a) (a_envp a) =
        Inr (res, pid, req, k')"
    | w where "sys_wait_poll k p = Inr (w, k')" | "sys_exit k p (a_int a) = Inr (res, k')"
    | "sys_chdir k p (a_cstring a) = Inr (res, k')"
    using r unfolding Thread_syscall_def
    by (auto simp: outcome_simps sys_close_def split: if_splits option.splits)
  then show ?thesis using ok by cases (auto dest: syscalls_ok)
qed


text \<open>Creating a process succeeds as long as the counter of process identifiers does not overflow.\<close>

lemma Process_new_succeeds:
  assumes ok: "kernel_ok k" and i: "ke_m_next_process_id k < 2 ^ 31 - 1"
  shows "\<exists>q k'. Process_new k name = Inr (q, k')"
proof -
  let ?fs = "ke_fs k"
  obtain D where D: "files_ok ?fs D" "booted ?fs" using ok by (auto simp: kernel_ok_def)
  obtain tty where tty: "FileSystem_lookup ?fs Path_dev_tty = Inr tty" "tty_ok ?fs tty" by (rule booted_tty[OF D])
  define pr where "pr = \<lparr>pr_m_working_directory = Path_root, pr_m_name = name, pr_m_parent = None,
               pr_m_process_id = ke_m_next_process_id k, pr_m_terminated_children = CircularQueue_new 8,
               pr_m_handles = HashMap_new, pr_m_next_handle_id = 0\<rparr>"
  have c: "\<exists>h fs'. VirtualFile_create_handle 1 fs tty = Inr (h, fs')" if "files_ok fs D" "tty_ok fs tty" for fs
    using tty_create_handle[OF that] by (cases "new_handle fs ConsoleFileHandle") auto
  obtain h0 fs1 where s1: "VirtualFile_create_handle 1 ?fs tty = Inr (h0, fs1)" using c[OF D(1) tty(2)] by blast
  note f1 = console_handle_ok[OF D(1) tty(2) D(2) s1]
  obtain h1 fs2 where s2: "VirtualFile_create_handle 1 fs1 tty = Inr (h1, fs2)" using c[OF f1(1,2)] by blast
  note f2 = console_handle_ok[OF f1(1-3) s2]
  obtain h2 fs3 where s3: "VirtualFile_create_handle 1 fs2 tty = Inr (h2, fs3)" using c[OF f2(1,2)] by blast
  note f3 = console_handle_ok[OF f2(1-3) s3]
  have h: "h0 < length (fs_handles fs3)" "h1 < length (fs_handles fs3)" "h2 < length (fs_handles fs3)"
    using f1(5) f2(4,5) f3(4,5) by (auto simp: grows_def)
  note p0 = fresh_process_ok[OF pr_def, of 0 "length (fs_handles fs3)"]
  have n0: "pr_m_next_handle_id pr = 0" by (simp add: pr_def)
  obtain pr1 where a1: "Process_add_file_handle pr h0 = Inr (0, pr1)"
    using add_file_handle_succeeds[OF p0, of h0] n0 by auto
  note A1 = add_file_handle_ok[OF p0 h(1) a1]
  obtain pr2 where a2: "Process_add_file_handle pr1 h1 = Inr (1, pr2)"
    using add_file_handle_succeeds[OF A1(1), of h1] A1(3) n0 by auto
  note A2 = add_file_handle_ok[OF A1(1) h(2) a2]
  obtain pr3 where a3: "Process_add_file_handle pr2 h2 = Inr (2, pr3)"
    using add_file_handle_succeeds[OF A2(1), of h2] A1(3) A2(3) n0 by auto
  show ?thesis unfolding Process_new_def Let_def
    using i tty(1) s1 s2 s3 a1 a2 a3 by (simp add: i32_increment_def pr_def)
qed

subsection \<open>The states the kernel can reach\<close>

text \<open>
  From booting, by creating processes, by system calls of any of them, and by what the hardware
  does in between: bytes that arrive and stack contents.
\<close>

inductive reachable_kernel :: "FileInfo \<Rightarrow> Kernel \<Rightarrow> bool" for flash where
  boot: "boot_files (FS_new uart stack) flash = Inr fs \<Longrightarrow>
    reachable_kernel flash \<lparr>ke_fs = fs, ke_processes = [], ke_m_next_process_id = 0\<rparr>"
| create: "reachable_kernel flash k \<Longrightarrow> Process_new k name = Inr (q, k') \<Longrightarrow> reachable_kernel flash k'"
| call: "reachable_kernel flash k \<Longrightarrow> Thread_syscall k p n a = Inr (result, out, k') \<Longrightarrow> reachable_kernel flash k'"
| hardware: "reachable_kernel flash k \<Longrightarrow>
    reachable_kernel flash (k\<lparr>ke_fs := (ke_fs k)\<lparr>fs_uart := uart, fs_stack := stack\<rparr>\<rparr>)"

lemma hardware_ok:
  assumes "kernel_ok k"
  shows "kernel_ok (k\<lparr>ke_fs := (ke_fs k)\<lparr>fs_uart := uart, fs_stack := stack\<rparr>\<rparr>)"
proof -
  let ?fs = "(ke_fs k)\<lparr>fs_uart := uart, fs_stack := stack\<rparr>"
  obtain D where D: "files_ok (ke_fs k) D" "booted (ke_fs k)" using assms by (auto simp: kernel_ok_def)
  have "grows (ke_fs k) ?fs" "same_entries (ke_fs k) ?fs" by (simp_all add: grows_def same_entries_def)
  moreover have "files_ok ?fs D" using D(1) by (simp add: files_ok_def devices_ok_def)
  ultimately show ?thesis using kernel_files[OF assms] booted_same[OF D(2)] by blast
qed

lemma boot_kernel_ok:
  assumes "image_ok flash" and "fi_st_mode flash AND Mode_Format = Mode_Directory" and "fi_st_ino flash = 2"
  shows "\<exists>fs. boot_files (FS_new uart stack) flash = Inr fs \<and>
    kernel_ok \<lparr>ke_fs = fs, ke_processes = [], ke_m_next_process_id = i\<rparr>"
  using boot_files_ok_lemma[OF assms, of uart stack] by (auto simp: kernel_ok_def)

lemma reachable_ok_lemma:
  assumes "image_ok flash" and "fi_st_mode flash AND Mode_Format = Mode_Directory" and "fi_st_ino flash = 2"
    and "reachable_kernel flash k"
  shows "kernel_ok k"
  using assms(4)
proof induction
  case (boot uart stack fs)
  then show ?case using boot_kernel_ok[OF assms(1-3), of uart stack 0] by auto
next
  case (create k name q k')
  then show ?case using Process_new_ok by blast
next
  case (call k p n a result out k')
  then show ?case using Thread_syscall_ok by blast
qed (rule hardware_ok)

text \<open>
  C31. The kernel's data stays well formed: in every state that booting, creating processes and the
  system calls of any process can reach, directories and handles refer to existing files of the
  right class, the modes of files agree with their classes, every device node has its device,
  \<^verbatim>\<open>/dev/tty\<close> is in place, and every process has an absolute working directory, descriptors
  that refer to open handles, a consistent queue of terminated children and an existing parent.
\<close>
theorem reachable_kernel_ok:
  assumes "image_ok flash" and "fi_st_mode flash AND Mode_Format = Mode_Directory" and "fi_st_ino flash = 2"
    and "reachable_kernel flash k"
  shows "kernel_ok k"
  by (rule reachable_ok_lemma[OF assms])

lemma Process_new_next:
  "Process_new k name = Inr (q, k') \<Longrightarrow> length (ke_processes k') = Suc (length (ke_processes k)) \<and>
     q = length (ke_processes k) \<and> pr_m_next_handle_id (ke_processes k' ! q) = 3 \<and>
     pr_m_terminated_children (ke_processes k' ! q) = CircularQueue_new 8 \<and>
     (\<forall>p<q. ke_processes k' ! p = ke_processes k ! p) \<and> ke_m_next_process_id k' = ke_m_next_process_id k + 1"
  by (auto simp: Process_new_def Process_add_file_handle_def i32_increment_def Let_def outcome_simps nth_append split: if_splits)

lemma reachable_example:
  "\<exists>k. reachable_kernel example_image k \<and> length (ke_processes k) = 1 \<and> pr_m_next_handle_id (ke_processes k ! 0) = 3 \<and>
     pr_m_terminated_children (ke_processes k ! 0) = CircularQueue_new 8 \<and> ke_m_next_process_id k = 1"
proof -
  obtain fs where fs: "boot_files (FS_new (UART_new 0 []) []) example_image = Inr fs"
    "kernel_ok \<lparr>ke_fs = fs, ke_processes = [], ke_m_next_process_id = 0\<rparr>"
    using boot_kernel_ok[OF example_image_ok, of "UART_new 0 []" "[]" 0] by blast
  let ?k = "\<lparr>ke_fs = fs, ke_processes = [], ke_m_next_process_id = 0\<rparr>"
  obtain q k' where n: "Process_new ?k ''Shell'' = Inr (q, k')"
    using Process_new_succeeds[OF fs(2), of "''Shell''"] by auto
  have "length (ke_processes k') = 1 \<and> pr_m_next_handle_id (ke_processes k' ! 0) = 3 \<and>
     pr_m_terminated_children (ke_processes k' ! 0) = CircularQueue_new 8 \<and> ke_m_next_process_id k' = 1"
    using Process_new_next[OF n] by auto
  then show ?thesis using reachable_kernel.create[OF reachable_kernel.boot[OF fs(1)] n] by blast
qed

lemma reachable_kernel_ok_witness:
  "\<exists>k. reachable_kernel example_image k \<and> length (ke_processes k) = 1 \<and> kernel_ok k"
  using reachable_example reachable_kernel_ok[OF example_image_ok] by blast


subsection \<open>What opening a path does\<close>

text \<open>The components that a terminated path names for a process.\<close>

definition resolved :: "Process \<Rightarrow> string \<Rightarrow> string list" where
  "resolved pr s =
     (if hd s = CHR ''/'' then split_slash (tl s)
      else pa_m_components (pr_m_working_directory pr) @ split_slash s)"

lemma resolve_path:
  assumes pr: "process_ok n nh pr" and s: "CHR 0x00 \<notin> set s" "s \<noteq> []" "length s < 2 ^ 32"
  shows "\<exists>path. Path_of_cstring (s @ [CHR 0x00]) = Inr path \<and>
    absolute_path pr path = Inr \<lparr>pa_m_is_absolute = True, pa_m_components = resolved pr s\<rparr>"
proof -
  let ?v = "Span_of (s @ [CHR 0x00]) (of_nat (length s)) :: char Span"
  have v: "span_ok ?v" "view ?v = s" using s(3) by (simp_all add: span_ok_def Span_of_def view_def unat_of_nat)
  have "Path_of_cstring (s @ [CHR 0x00]) = Path_new ?v"
    using strlen_terminated[OF s(1), of "[]"] by (simp add: Path_of_cstring_def)
  also have "\<dots> = Inr \<lparr>pa_m_is_absolute = (hd s = CHR ''/''),
      pa_m_components = split_slash (if hd s = CHR ''/'' then tl s else s)\<rparr>"
    using Path_new_eq[OF v(1)] v(2) s(2) by (cases s) simp_all
  finally have p: "Path_of_cstring (s @ [CHR 0x00]) = \<dots>" .
  have "pa_m_is_absolute (pr_m_working_directory pr)" using pr by (simp add: process_ok_def)
  then have "absolute_path pr \<lparr>pa_m_is_absolute = (hd s = CHR ''/''),
      pa_m_components = split_slash (if hd s = CHR ''/'' then tl s else s)\<rparr> =
      Inr \<lparr>pa_m_is_absolute = True, pa_m_components = resolved pr s\<rparr>"
    by (cases "pr_m_working_directory pr") (simp add: absolute_path_def resolved_def Path_append_def)
  with p show ?thesis by blast
qed

lemma open_handle_succeeds:
  assumes ok: "kernel_ok k" and f: "f < length (fs_files (ke_fs k))" and p: "p < length (ke_processes k)"
    and m: "pr_m_next_handle_id (ke_processes k ! p) < 2 ^ 31 - 1"
  shows "\<exists>k'. open_handle k p f = Inr (pr_m_next_handle_id (ke_processes k ! p), k')"
proof -
  obtain D where D: "files_ok (ke_fs k) D" using ok by (auto simp: kernel_ok_def)
  obtain fs where c: "VirtualFile_create_handle 1 (ke_fs k) f = Inr (length (fs_handles (ke_fs k)), fs)"
    using create_handle_ok[OF D f] by blast
  have a: "process_at k p = Inr (ke_processes k ! p)" using p by (simp add: process_at_def)
  show ?thesis using c a add_file_handle_succeeds[OF process_at_ok(1)[OF ok a] m, of "length (fs_handles (ke_fs k))"]
    by (auto simp: open_handle_def)
qed

text \<open>A file that \<^verbatim>\<open>O_TRUNC\<close> can be applied to, and the specification of opening.\<close>

definition open_crashes :: "FS \<Rightarrow> nat \<Rightarrow> u32 \<Rightarrow> bool" where
  "open_crashes fs f flags \<longleftrightarrow>
     (let mode = vf_m_mode (fs_files fs ! f) AND Mode_Format in
      flags AND O_TRUNC \<noteq> 0 \<and> flags AND O_DIRECTORY = 0 \<and> mode \<noteq> Mode_Directory \<and>
      (mode \<noteq> Mode_Regular \<or> class_tag (vf_class (fs_files fs ! f)) \<noteq> 0))"

lemma sys_open_existing_crash:
  assumes ok: "kernel_ok k" and f: "f < length (fs_files (ke_fs k))" and p: "p < length (ke_processes k)"
    and m: "pr_m_next_handle_id (ke_processes k ! p) < 2 ^ 31 - 1"
  shows "(\<exists>c. sys_open_existing k p f flags = Inl c) \<longleftrightarrow> open_crashes (ke_fs k) f flags"
proof -
  let ?fs = "ke_fs k" and ?mode = "vf_m_mode (fs_files (ke_fs k) ! f) AND Mode_Format"
  obtain D where D: "files_ok ?fs D" "booted ?fs" using ok by (auto simp: kernel_ok_def)
  obtain k1 where o1: "open_handle k p f = Inr (pr_m_next_handle_id (ke_processes k ! p), k1)"
    using open_handle_succeeds[OF assms] by blast
  have t: "(\<exists>c. bindE (VirtualFile_truncate ?fs f) (\<lambda>fs. open_handle (k\<lparr>ke_fs := fs\<rparr>) p f) = Inl c) \<longleftrightarrow>
      class_tag (vf_class (fs_files ?fs ! f)) \<noteq> 0"
  proof (cases "class_tag (vf_class (fs_files ?fs ! f)) = 0")
    case True
    then obtain fs where T: "VirtualFile_truncate ?fs f = Inr fs" "files_ok fs D" "grows ?fs fs"
      using truncate_ok[OF D(1) f] by auto
    note ok1 = kernel_files[OF ok T(2,3) booted_same[OF D(2) T(3) truncate_entries[OF T(1)]]]
    show ?thesis using open_handle_succeeds[OF ok1, of f p] f p m T(1) grows_length[OF T(3) f] True by auto
  next
    case False
    then show ?thesis using truncate_ok[OF D(1) f] by simp
  qed
  show ?thesis
  proof (cases "flags AND O_DIRECTORY = 0 \<and> flags AND O_TRUNC \<noteq> 0 \<and> ?mode = Mode_Regular")
    case True
    then show ?thesis using t f by (simp add: sys_open_existing_def file_at_ok open_crashes_def Let_def)
  next
    case False
    then show ?thesis using o1 f
      by (auto simp: sys_open_existing_def file_at_ok open_crashes_def Let_def checkE_def)
  qed
qed


lemma sys_open_create_no_crash:
  assumes ok: "kernel_ok k" and a: "pa_m_is_absolute path"
    and e: "FileSystem_try_lookup (ke_fs k) path = Inr (Result_from_error ENOENT)"
    and p: "p < length (ke_processes k)" and m: "pr_m_next_handle_id (ke_processes k ! p) < 2 ^ 31 - 1"
  shows "sys_open_create k p path \<noteq> Inl c"
proof (cases "walk (ke_fs k) (butlast (pa_m_components path)) (fs_m_root (ke_fs k))")
  case None
  then show ?thesis using sys_open_create_steps[OF ok a e, of p] by simp
next
  case (Some d)
  then obtain fs where h: "sys_open_create k p path = open_handle (k\<lparr>ke_fs := fs\<rparr>) p (length (fs_files (ke_fs k)))"
    "kernel_ok (k\<lparr>ke_fs := fs\<rparr>)" "length (fs_files fs) = Suc (length (fs_files (ke_fs k)))"
    using sys_open_create_steps[OF ok a e, of p] by auto
  then show ?thesis using open_handle_succeeds[OF h(2), of "length (fs_files (ke_fs k))" p] p m by auto
qed

text \<open>
  C32. When opening a path stops the kernel: in a reachable state, with a free descriptor number
  and a terminated path, \<^verbatim>\<open>sys$open\<close> crashes exactly if the path is empty, or if it names an
  existing file that is neither a directory nor a regular file in memory (a device node, a file of
  the flash image) and the flags ask to truncate it.  Every other lookup failure, creation and
  opening returns to the caller.
\<close>
theorem sys_open_crashes_iff:
  assumes ok: "kernel_ok k" and p: "p < length (ke_processes k)"
    and m: "pr_m_next_handle_id (ke_processes k ! p) < 2 ^ 31 - 1"
    and s: "CHR 0x00 \<notin> set s" "length s < 2 ^ 32"
  shows "(\<exists>c. sys_open k p (s @ [CHR 0x00]) flags = Inl c) \<longleftrightarrow>
    s = [] \<or> (\<exists>f. walk (ke_fs k) (resolved (ke_processes k ! p) s) (fs_m_root (ke_fs k)) = Some f \<and>
      open_crashes (ke_fs k) f flags)"
proof (cases "s = []")
  case True
  have "span_ok (Span_of [CHR 0x00] 0)" "view (Span_of [CHR 0x00] 0) = []" by (simp_all add: span_ok_def Span_of_def view_def)
  then have "Path_of_cstring [CHR 0x00] = Inl (VERIFY ''path.size() >= 1'')"
    using Path_new_eq[of "Span_of [CHR 0x00] 0"] strlen_terminated[of "[]" "[]"] by (simp add: Path_of_cstring_def)
  then show ?thesis using True p by (simp add: sys_open_def process_at_def)
next
  case False
  let ?fs = "ke_fs k" and ?pr = "ke_processes k ! p"
  have at: "process_at k p = Inr ?pr" using p by (simp add: process_at_def)
  define path where "path = \<lparr>pa_m_is_absolute = True, pa_m_components = resolved ?pr s\<rparr>"
  obtain path0 where path: "Path_of_cstring (s @ [CHR 0x00]) = Inr path0" "absolute_path ?pr path0 = Inr path"
    using resolve_path[OF process_at_ok(1)[OF ok at] s(1) False s(2)] by (auto simp: path_def)
  obtain D where D: "files_ok ?fs D" "fs_m_root ?fs < length (fs_files ?fs)"
    using ok by (auto simp: kernel_ok_def booted_def)
  have abs: "pa_m_is_absolute path" by (simp add: path_def)
  obtain fo where fo: "FileSystem_try_lookup ?fs path = Inr fo"
    using try_lookup_walk[OF D, of "resolved ?pr s"]
    by (auto simp: FileSystem_try_lookup_def path_def split: option.splits)
  note opn = sys_open_def[of k p "s @ [CHR 0x00]" flags]
  from kernel_lookup[OF ok abs fo] show ?thesis
  proof (elim disjE exE conjE)
    fix g assume g: "fo = Result_from_value g" "g < length (fs_files ?fs)"
      "walk ?fs (pa_m_components path) (fs_m_root ?fs) = Some g"
    then show ?thesis using sys_open_existing_crash[OF ok g(2) p m] at path fo False
      by (simp add: opn path_def)
  next
    assume "fo = Result_from_error ENOTDIR" "walk ?fs (pa_m_components path) (fs_m_root ?fs) = None"
    then show ?thesis using at path fo False by (simp add: opn path_def ENOTDIR_def ENOENT_def)
  next
    assume f: "fo = Result_from_error ENOENT" "walk ?fs (pa_m_components path) (fs_m_root ?fs) = None"
    then have "sys_open_create k p path \<noteq> Inl c" for c
      using sys_open_create_no_crash[OF ok abs _ p m] fo by simp
    then show ?thesis using at path fo False f by (simp add: opn path_def)
  qed
qed


lemma example_kernel:
  obtains k where "kernel_ok k" and "0 < length (ke_processes k)"
    and "pr_m_next_handle_id (ke_processes k ! 0) < 2 ^ 31 - 1"
proof -
  obtain k where k: "reachable_kernel example_image k" "length (ke_processes k) = 1"
    "pr_m_next_handle_id (ke_processes k ! 0) = 3" using reachable_example by blast
  have "kernel_ok k" by (rule reachable_ok_lemma[OF example_image_ok k(1)])
  moreover have "0 < length (ke_processes k)" "pr_m_next_handle_id (ke_processes k ! 0) < 2 ^ 31 - 1" using k by simp_all
  ultimately show ?thesis by (rule that)
qed

lemma tty_truncate_crashes:
  assumes "kernel_ok k"
  shows "\<exists>f. walk (ke_fs k) (resolved pr ''/dev/tty'') (fs_m_root (ke_fs k)) = Some f \<and> open_crashes (ke_fs k) f O_TRUNC"
proof -
  obtain dev tty where t: "entry (ke_fs k) (fs_m_root (ke_fs k)) ''dev'' = Some dev"
    "entry (ke_fs k) dev ''tty'' = Some tty" "tty_ok (ke_fs k) tty"
    using assms by (auto simp: kernel_ok_def booted_def)
  have "resolved pr ''/dev/tty'' = [''dev'', ''tty'']" by (simp add: resolved_def split_slash.simps)
  moreover have "open_crashes (ke_fs k) tty O_TRUNC"
    using t(3) by (simp add: open_crashes_def tty_ok_def O_TRUNC_def O_DIRECTORY_def)
  ultimately show ?thesis using t(1,2) by simp
qed

lemma sys_open_crashes_iff_witness:
  "\<exists>k c. kernel_ok k \<and> sys_open k 0 (''/dev/tty'' @ [CHR 0x00]) O_TRUNC = Inl c"
proof -
  obtain k where k: "kernel_ok k" "0 < length (ke_processes k)"
    "pr_m_next_handle_id (ke_processes k ! 0) < 2 ^ 31 - 1" by (rule example_kernel)
  then show ?thesis
    using sys_open_crashes_iff[OF k, of "''/dev/tty''" O_TRUNC] tty_truncate_crashes[OF k(1), of "ke_processes k ! 0"] by auto
qed


subsection \<open>Terminated children\<close>

definition children :: "Kernel \<Rightarrow> nat \<Rightarrow> TerminatedProcess list" where
  "children k p = CircularQueue_items (pr_m_terminated_children (ke_processes k ! p))"

lemma exit_and_wait_cases:
  fixes status :: int
  assumes ok: "kernel_ok k" and p: "p < length (ke_processes k)" and q: "pr_m_parent (ke_processes k ! p) = Some q"
  defines "t \<equiv> \<lparr>tp_m_process_id = pr_m_process_id (ke_processes k ! p), tp_m_status = status\<rparr>"
  shows "length (children k q) \<le> 8"
    and "length (children k q) = 8 \<Longrightarrow> \<exists>c. sys_exit k p status = Inl c"
    and "length (children k q) < 8 \<Longrightarrow> \<exists>k'. sys_exit k p status = Inr (- 1, k') \<and>
      (\<forall>r. children k' r = (if r = q then children k q @ [t] else children k r))"
    and "children k q = [] \<Longrightarrow> sys_wait_poll k q = Inr (None, k)"
    and "children k q = c # cs \<Longrightarrow> \<exists>k'. sys_wait_poll k q = Inr (Some (tp_m_process_id c, tp_m_status c), k') \<and>
      (\<forall>r. children k' r = (if r = q then cs else children k r))"
proof -
  let ?pr = "ke_processes k ! p" and ?q = "ke_processes k ! q" and ?Q = "pr_m_terminated_children (ke_processes k ! q)"
  have at: "process_at k p = Inr ?pr" using p by (simp add: process_at_def)
  have ql: "q < length (ke_processes k)" using process_at_ok(1)[OF ok at] q by (simp add: process_ok_def)
  then have atq: "process_at k q = Inr ?q" by (simp add: process_at_def)
  have Q: "CircularQueue_inv ?Q" "length (cq_m_data ?Q) = 8"
    using process_at_ok(1)[OF ok atq] by (auto simp: process_ok_def queue_ok_def)
  have put: "children (put_process k q (?q\<lparr>pr_m_terminated_children := Q'\<rparr>)) r =
      (if r = q then CircularQueue_items Q' else children k r)" for Q' r
    using ql by (simp add: children_def put_process_def)
  have size: "CircularQueue_size Q' > 0 \<longleftrightarrow> CircularQueue_items Q' \<noteq> []" for Q' :: "TerminatedProcess CircularQueue"
    by (auto simp: CircularQueue_size_def CircularQueue_items_def word_greater_zero_iff unat_gt_0)
  show "length (children k q) \<le> 8" using cq.bounded[OF Q(1)] Q(2) by (simp add: children_def)
  show "\<exists>c. sys_exit k p status = Inl c" if "length (children k q) = 8"
    using cq.enq_full[OF Q(1), of t] Q(2) that at atq q by (auto simp: sys_exit_def children_def t_def)
  show "\<exists>k'. sys_exit k p status = Inr (- 1, k') \<and>
      (\<forall>r. children k' r = (if r = q then children k q @ [t] else children k r))" if l: "length (children k q) < 8"
  proof -
    obtain Q' where e: "CircularQueue_enqueue t ?Q = Inr (t, Q')" "CircularQueue_items Q' = CircularQueue_items ?Q @ [t]"
      using cq.enq_room[OF Q(1), of t] Q(2) l by (auto simp: children_def)
    show ?thesis using e at atq q size[of Q'] put[of Q'] by (auto simp: sys_exit_def t_def children_def[of k q])
  qed
  show "sys_wait_poll k q = Inr (None, k)" if "children k q = []"
    using that atq size[of ?Q] by (simp add: sys_wait_poll_def children_def)
  show "\<exists>k'. sys_wait_poll k q = Inr (Some (tp_m_process_id c, tp_m_status c), k') \<and>
      (\<forall>r. children k' r = (if r = q then cs else children k r))" if l: "children k q = c # cs"
  proof -
    obtain Q' where d: "CircularQueue_dequeue ?Q = Inr (c, Q')" "CircularQueue_items Q' = cs"
      using cq.deq_some[OF Q(1)] l by (auto simp: children_def)
    show ?thesis using d atq l size[of ?Q] put[of Q'] by (auto simp: sys_wait_poll_def children_def[of k q])
  qed
qed


text \<open>
  C34. Exiting and waiting hand over statuses in order: when a process with a parent exits, its
  identifier and status are appended to the parent's terminated children if fewer than eight are
  waiting there, and the kernel stops if eight are; waiting takes the oldest, and goes round again
  if there is none.  No other process's children change.
\<close>
theorem exit_and_wait_fifo:
  fixes status :: int
  assumes "kernel_ok k" and "p < length (ke_processes k)" and "pr_m_parent (ke_processes k ! p) = Some q"
  shows "(if length (children k q) < 8
      then \<exists>k'. sys_exit k p status = Inr (- 1, k') \<and>
        (\<forall>r. children k' r = (if r = q
           then children k q @ [\<lparr>tp_m_process_id = pr_m_process_id (ke_processes k ! p), tp_m_status = status\<rparr>]
           else children k r))
      else length (children k q) = 8 \<and> (\<exists>c. sys_exit k p status = Inl c)) \<and>
    (case children k q of
       [] \<Rightarrow> sys_wait_poll k q = Inr (None, k)
     | c # cs \<Rightarrow> \<exists>k'. sys_wait_poll k q = Inr (Some (tp_m_process_id c, tp_m_status c), k') \<and>
        (\<forall>r. children k' r = (if r = q then cs else children k r)))"
  using exit_and_wait_cases[OF assms] by (cases "length (children k q) < 8") (auto split: list.splits)

lemma family_example:
  obtains k where "kernel_ok k" and "1 < length (ke_processes k)" and "pr_m_parent (ke_processes k ! 1) = Some 0"
    and "children k 0 = []"
proof -
  obtain k where k: "reachable_kernel example_image k" "length (ke_processes k) = 1"
    "pr_m_terminated_children (ke_processes k ! 0) = CircularQueue_new 8" "ke_m_next_process_id k = 1"
    using reachable_example by blast
  have ok: "kernel_ok k" by (rule reachable_ok_lemma[OF example_image_ok k(1)])
  obtain q k1 where n: "Process_new k ''Editor'' = Inr (q, k1)"
    using Process_new_succeeds[OF ok, of "''Editor''"] k(4) by auto
  note N = Process_new_next[OF n] and O = Process_new_ok[OF ok n]
  let ?pr = "(ke_processes k1 ! 1)\<lparr>pr_m_parent := Some 0\<rparr>"
  have "process_at k1 1 = Inr (ke_processes k1 ! 1)" using N k(2) by (simp add: process_at_def)
  then have "process_ok (length (ke_processes k1)) (length (fs_handles (ke_fs k1))) (ke_processes k1 ! 1)"
    using process_at_ok(1) O by blast
  then have "process_ok (length (ke_processes k1)) (length (fs_handles (ke_fs k1))) ?pr"
    using N k(2) by (simp add: process_ok_def handles_ok_def)
  with O have "kernel_ok (put_process k1 1 ?pr)" using kernel_put by blast
  moreover have "children (put_process k1 1 ?pr) 0 = []"
    using N k(2,3) by (simp add: children_def put_process_def CircularQueue_new_inv(2))
  ultimately show ?thesis using that[of "put_process k1 1 ?pr"] N k(2) by (simp add: put_process_def)
qed

lemma exit_and_wait_fifo_witness:
  "\<exists>k k'. kernel_ok k \<and> sys_exit k 1 42 = Inr (- 1, k') \<and>
     children k' 0 = [\<lparr>tp_m_process_id = pr_m_process_id (ke_processes k ! 1), tp_m_status = 42\<rparr>]"
proof -
  obtain k where k: "kernel_ok k" "1 < length (ke_processes k)" "pr_m_parent (ke_processes k ! 1) = Some 0"
    "children k 0 = []" by (rule family_example)
  then show ?thesis using exit_and_wait_fifo[OF k(1-3), of 42] by auto
qed

end
