(* ===== verification/Processes_Roundtrip.thy ===== *)
theory Processes_Roundtrip
  imports Processes_Correct
begin

section \<open>What is written to a new file can be read back\<close>

lemma walk_mono:
  assumes "files_ok fs D"
    and "\<And>g c v. g < length (fs_files fs) \<Longrightarrow> entry fs g c = Some v \<Longrightarrow> entry fs' g c = Some v"
  shows "f < length (fs_files fs) \<Longrightarrow> walk fs cs f = Some d \<Longrightarrow> walk fs' cs f = Some d"
proof (induction cs arbitrary: f)
  case (Cons c cs)
  then obtain h where h: "entry fs f c = Some h" "walk fs cs h = Some d" by (auto split: option.splits)
  then obtain e where "VirtualDirectory_entries (fs_files fs ! f) = Some e"
    by (auto simp: entry_def split: option.splits)
  then have "h < length (fs_files fs)" using entry_get(2)[OF assms(1) Cons.prems(1)] h(1) by blast
  then show ?case using Cons.IH[OF _ h(2)] assms(2)[OF Cons.prems(1) h(1)] by simp
qed simp

lemma walk_cong: "entry fs' = entry fs \<Longrightarrow> walk fs' cs f = walk fs cs f"
  by (induction cs arbitrary: f) (auto split: option.splits)

text \<open>Opening a regular file in memory.\<close>

lemma open_memory_file:
  assumes ok: "kernel_ok k" and p: "p < length (ke_processes k)"
    and f: "f < length (fs_files (ke_fs k))" "vf_class (fs_files (ke_fs k) ! f) = MemoryFile d"
      "vf_m_mode (fs_files (ke_fs k) ! f) = Mode_Regular"
    and m: "pr_m_next_handle_id (ke_processes k ! p) < 2 ^ 31 - 1"
  obtains k' where "open_handle k p f = Inr (pr_m_next_handle_id (ke_processes k ! p), k')" and "kernel_ok k'"
    and "ke_fs k' = (ke_fs k)\<lparr>fs_handles := fs_handles (ke_fs k) @ [MemoryFileHandle f 0]\<rparr>"
    and "length (ke_processes k') = length (ke_processes k)"
    and "Process_get_file_handle (ke_processes k' ! p) (pr_m_next_handle_id (ke_processes k ! p)) =
      Inr (length (fs_handles (ke_fs k)))"
    and "pr_m_next_handle_id (ke_processes k' ! p) = pr_m_next_handle_id (ke_processes k ! p) + 1"
    and "pr_m_working_directory (ke_processes k' ! p) = pr_m_working_directory (ke_processes k ! p)"
proof -
  let ?fs = "ke_fs k" and ?pr = "ke_processes k ! p" and ?h = "length (fs_handles (ke_fs k))"
  let ?fs' = "?fs\<lparr>fs_handles := fs_handles ?fs @ [MemoryFileHandle f 0]\<rparr>"
  have c: "VirtualFile_create_handle 1 ?fs f = Inr (?h, ?fs')"
    using f by (subst VirtualFile_create_handle.simps) (simp add: file_at_ok create_handle_impl_def new_handle_def)
  obtain k' where o1: "open_handle k p f = Inr (pr_m_next_handle_id ?pr, k')"
    using open_handle_succeeds[OF ok f(1) p m] by blast
  note ok' = open_handle_ok[OF ok f(1) o1]
  obtain pr' where a: "Process_add_file_handle ?pr ?h = Inr (pr_m_next_handle_id ?pr, pr')"
    "k' = put_process (k\<lparr>ke_fs := ?fs'\<rparr>) p pr'"
    using o1 c p by (auto simp: open_handle_def process_at_def outcome_simps)
  have "process_at k p = Inr ?pr" using p by (simp add: process_at_def)
  then have "process_ok (length (ke_processes k)) (Suc ?h) ?pr"
    using process_at_ok(1)[OF ok] process_mono[of "length (ke_processes k)" ?h ?pr "length (ke_processes k)" "Suc ?h"] by simp
  note A = add_file_handle_ok[OF this _ a(1)]
  show ?thesis
    by (rule that[OF o1]) (use ok' a(2) p A in \<open>simp_all add: put_process_def Process_get_file_handle_def\<close>)
qed

text \<open>Reading from the start of a file in memory into a buffer that is large enough.\<close>

lemma read_memory_file:
  assumes h: "fs_handles fs ! h = MemoryFileHandle f 0" and f: "f < length (fs_files fs)" "vf_class (fs_files fs ! f) = MemoryFile d"
    and d: "length d < 2 ^ 32" and b: "span_ok buffer" "length d \<le> unat (sp_m_size buffer)"
  shows "\<exists>fs'. VirtualFileHandle_read fs h buffer =
    Inr (Result_from_value (of_nat (length d)), fs', buffer\<lparr>sp_m_data := d @ drop (length d) (sp_m_data buffer)\<rparr>)"
proof -
  have n: "unat (of_nat (length d) :: u32) = length d" using d by (simp add: unat_of_nat)
  have "min (of_nat (length d)) (sp_m_size buffer) = of_nat (length d)"
    using b(2) n by (simp add: min_def word_le_nat_alt)
  then have "FileHandle_read (fs_files fs ! f) 0 buffer = Inr (Result_from_value (of_nat (length d)), of_nat (length d),
      buffer\<lparr>sp_m_data := d @ drop (length d) (sp_m_data buffer)\<rparr>)"
    using f(2) b n by (simp add: FileHandle_read_def file_bytes_def Span_slice_def Span_of_def Span_size_def
        Span_copy_trimmed_to_def memcpy_list_def span_ok_def)
  then show ?thesis using h f(1) by (simp add: VirtualFileHandle_read_def file_at_ok)
qed


text \<open>Appending the first data to an empty file through its only descriptor.\<close>

lemma write_memory_file:
  assumes h: "fs_handles fs ! h = MemoryFileHandle f 0" and f: "f < length (fs_files fs)" "vf_class (fs_files fs ! f) = MemoryFile []"
  obtains fs' where "VirtualFileHandle_write fs h bytes = Inr (Result_from_value (Span_size bytes), fs')"
    and "vf_class (fs_files fs' ! f) = MemoryFile (view bytes)" and "length (fs_files fs') = length (fs_files fs)"
    and "length (fs_handles fs') = length (fs_handles fs)" and "fs_m_root fs' = fs_m_root fs"
    and "vf_m_mode (fs_files fs' ! f) = vf_m_mode (fs_files fs ! f)"
proof -
  let ?v = "(fs_files fs ! f)\<lparr>vf_class := MemoryFile (view bytes),
      vf_m_size := map_option (\<lambda>n. n + Span_size bytes) (vf_m_size (fs_files fs ! f))\<rparr>"
  let ?fs' = "put_handle (put_file fs f ?v) h (MemoryFileHandle f (Span_size bytes))"
  have "VirtualFileHandle_write fs h bytes = Inr (Result_from_value (Span_size bytes), ?fs')"
    using h f by (simp add: VirtualFileHandle_write_def MemoryFile_append_def file_at_ok)
  then show ?thesis by (rule that) (use f in \<open>simp_all add: put_handle_def put_file_def\<close>)
qed

lemma absent_lookup:
  assumes ok: "files_ok fs D" and f: "f < length (fs_files fs)" and w: "walk fs (butlast cs) f = Some d" and cs: "cs \<noteq> []"
    and t: "class_tag (vf_class (fs_files fs ! d)) \<in> {2, 3}" and e: "entry fs d (last cs) = None"
  shows "try_lookup_loop fs cs f = Inr (Result_from_error ENOENT)"
proof -
  have d: "d < length (fs_files fs)" using try_lookup_walk[OF ok f, of "butlast cs"] w by simp
  obtain en where en: "VirtualDirectory_entries (fs_files fs ! d) = Some en"
    using t entries_tag[of "fs_files fs ! d"] by auto
  have "try_lookup_loop fs (butlast cs @ [last cs]) f = try_lookup_loop fs [last cs] d"
    by (rule try_lookup_append[OF w ok f])
  also have "\<dots> = Inr (Result_from_error ENOENT)" using entry_get(1)[OF ok d en, of "last cs"] e en d by (simp add: file_at_ok)
  finally show ?thesis using cs by simp
qed

lemma found_lookup:
  "files_ok fs D \<Longrightarrow> f < length (fs_files fs) \<Longrightarrow> walk fs cs f = Some g \<Longrightarrow> try_lookup_loop fs cs f = Inr (Result_from_value g)"
  using try_lookup_walk[of fs D f cs] by simp

lemma flag_simps: "O_CREAT AND O_CREAT \<noteq> 0" "(0 :: u32) AND x = 0"
  by (simp_all add: O_CREAT_def)

text \<open>The first call creates the file; afterwards its path leads to it.\<close>

lemma sys_open_creates:
  assumes ok: "kernel_ok k" and p: "p < length (ke_processes k)"
    and m: "pr_m_next_handle_id (ke_processes k ! p) < 2 ^ 31 - 1"
    and s: "CHR 0x00 \<notin> set s" "s \<noteq> []" "length s < 2 ^ 32"
  defines "cs \<equiv> resolved (ke_processes k ! p) s" and "f \<equiv> length (fs_files (ke_fs k))"
  assumes cs: "cs \<noteq> []" and w: "walk (ke_fs k) (butlast cs) (fs_m_root (ke_fs k)) = Some d"
    and t: "class_tag (vf_class (fs_files (ke_fs k) ! d)) \<in> {2, 3}" and e: "entry (ke_fs k) d (last cs) = None"
  obtains k' where "sys_open k p (s @ [CHR 0x00]) O_CREAT = Inr (pr_m_next_handle_id (ke_processes k ! p), k')"
    and "kernel_ok k'" and "f < length (fs_files (ke_fs k'))" and "vf_class (fs_files (ke_fs k') ! f) = MemoryFile []"
    and "vf_m_mode (fs_files (ke_fs k') ! f) = Mode_Regular"
    and "walk (ke_fs k') cs (fs_m_root (ke_fs k')) = Some f" and "length (ke_processes k') = length (ke_processes k)"
    and "\<exists>h. Process_get_file_handle (ke_processes k' ! p) (pr_m_next_handle_id (ke_processes k ! p)) = Inr h \<and>
       h < length (fs_handles (ke_fs k')) \<and> fs_handles (ke_fs k') ! h = MemoryFileHandle f 0"
    and "pr_m_next_handle_id (ke_processes k' ! p) = pr_m_next_handle_id (ke_processes k ! p) + 1"
    and "pr_m_working_directory (ke_processes k' ! p) = pr_m_working_directory (ke_processes k ! p)"
proof -
  let ?fs = "ke_fs k" and ?pr = "ke_processes k ! p"
  define path where "path = \<lparr>pa_m_is_absolute = True, pa_m_components = cs\<rparr>"
  obtain D where D: "files_ok ?fs D" "fs_m_root ?fs < length (fs_files ?fs)" using ok by (auto simp: kernel_ok_def booted_def)
  have at: "process_at k p = Inr ?pr" using p by (simp add: process_at_def)
  obtain path0 where P: "Path_of_cstring (s @ [CHR 0x00]) = Inr path0" "absolute_path ?pr path0 = Inr path"
    using resolve_path[OF process_at_ok(1)[OF ok at] s] by (auto simp: path_def cs_def)
  have l: "FileSystem_try_lookup ?fs path = Inr (Result_from_error ENOENT)"
    using absent_lookup[OF D w cs t e] by (simp add: FileSystem_try_lookup_def path_def)
  have abs: "pa_m_is_absolute path" "pa_m_components path = cs" by (simp_all add: path_def)
  have create: "sys_open k p (s @ [CHR 0x00]) O_CREAT = sys_open_create k p path"
    using at P l flag_simps(1) by (simp add: sys_open_def)
  obtain fs where C: "sys_open_create k p path = open_handle (k\<lparr>ke_fs := fs\<rparr>) p f" "kernel_ok (k\<lparr>ke_fs := fs\<rparr>)"
    "grows ?fs fs" "length (fs_files fs) = Suc f"
    "\<And>g c. g < f \<Longrightarrow> entry fs g c = (if g = d \<and> c = last cs then Some f else entry ?fs g c)"
    "vf_class (fs_files fs ! f) = MemoryFile []" "vf_m_mode (fs_files fs ! f) = Mode_Regular" "d < f"
    using sys_open_create_steps[OF ok abs(1) l, of p] w unfolding abs(2) f_def by auto
  have keep: "entry fs g c = Some v" if "g < length (fs_files ?fs)" "entry ?fs g c = Some v" for g c v
    using C(5)[of g c] that e by (auto simp: f_def)
  have "walk fs (butlast cs) (fs_m_root ?fs) = Some d" by (rule walk_mono[OF D(1) keep D(2) w])
  then have "walk fs (butlast cs @ [last cs]) (fs_m_root ?fs) = Some f"
    using C(5)[OF C(8)] by (simp only: walk_append option.case walk.simps) simp
  then have w': "walk fs cs (fs_m_root fs) = Some f" using cs C(3) by (simp add: grows_def)
  let ?k = "k\<lparr>ke_fs := fs\<rparr>"
  have p': "p < length (ke_processes ?k)" "f < length (fs_files (ke_fs ?k))"
    "vf_class (fs_files (ke_fs ?k) ! f) = MemoryFile []" "vf_m_mode (fs_files (ke_fs ?k) ! f) = Mode_Regular"
    "pr_m_next_handle_id (ke_processes ?k ! p) < 2 ^ 31 - 1" using p C m by simp_all
  show ?thesis
  proof (rule open_memory_file[OF C(2) p'])
    fix k'
    assume o1: "open_handle ?k p f = Inr (pr_m_next_handle_id (ke_processes ?k ! p), k')" "kernel_ok k'"
      "ke_fs k' = (ke_fs ?k)\<lparr>fs_handles := fs_handles (ke_fs ?k) @ [MemoryFileHandle f 0]\<rparr>"
      "length (ke_processes k') = length (ke_processes ?k)"
      "Process_get_file_handle (ke_processes k' ! p) (pr_m_next_handle_id (ke_processes ?k ! p)) =
        Inr (length (fs_handles (ke_fs ?k)))"
      "pr_m_next_handle_id (ke_processes k' ! p) = pr_m_next_handle_id (ke_processes ?k ! p) + 1"
      "pr_m_working_directory (ke_processes k' ! p) = pr_m_working_directory (ke_processes ?k ! p)"
    have "entry (ke_fs k') = entry fs" using o1(3) by (intro ext) (simp add: entry_def)
    then have "walk (ke_fs k') cs (fs_m_root (ke_fs k')) = Some f"
      using w' o1(3) walk_cong[of fs "ke_fs k'"] by simp
    then show ?thesis using o1 create C(1,4,6,7) by (intro that[of k']) simp_all
  qed
qed


text \<open>
  C33. What a program writes to a new file can be read back: if a path names nothing but its parent
  directory exists, then opening it with \<^verbatim>\<open>O_CREAT\<close>, writing data to the descriptor, opening
  the path again and reading into a buffer that is large enough all succeed; the two descriptors
  are the next two numbers, writing and reading report the number of bytes, and the buffer starts
  with exactly the bytes written, its other bytes unchanged.
\<close>
theorem create_write_read:
  assumes ok: "kernel_ok k" and p: "p < length (ke_processes k)"
    and m: "pr_m_next_handle_id (ke_processes k ! p) = n" "n < 2 ^ 31 - 2"
    and s: "CHR 0x00 \<notin> set s" "s \<noteq> []" "length s < 2 ^ 32" and cs: "resolved (ke_processes k ! p) s = cs" "cs \<noteq> []"
    and w: "walk (ke_fs k) (butlast cs) (fs_m_root (ke_fs k)) = Some d"
    and d: "class_tag (vf_class (fs_files (ke_fs k) ! d)) \<in> {2, 3}" "entry (ke_fs k) d (last cs) = None"
    and data: "span_ok data" "span_ok buffer" "sp_m_size data \<le> sp_m_size buffer"
  shows "\<exists>k1 k2 k3 k4.
    sys_open k p (s @ [CHR 0x00]) O_CREAT = Inr (n, k1) \<and>
    sys_write k1 p n data = Inr (sint (sp_m_size data), k2) \<and>
    sys_open k2 p (s @ [CHR 0x00]) 0 = Inr (n + 1, k3) \<and>
    sys_read k3 p (n + 1) buffer = Inr (sint (sp_m_size data), k4,
      buffer\<lparr>sp_m_data := view data @ drop (length (view data)) (sp_m_data buffer)\<rparr>)"
proof -
  let ?f = "length (fs_files (ke_fs k))" and ?pr = "ke_processes k ! p"
  have n: "pr_m_next_handle_id ?pr < 2 ^ 31 - 1" using m by simp
  obtain k1 where 1: "sys_open k p (s @ [CHR 0x00]) O_CREAT = Inr (n, k1)" "kernel_ok k1" "?f < length (fs_files (ke_fs k1))"
    "vf_class (fs_files (ke_fs k1) ! ?f) = MemoryFile []" "vf_m_mode (fs_files (ke_fs k1) ! ?f) = Mode_Regular"
    "walk (ke_fs k1) cs (fs_m_root (ke_fs k1)) = Some ?f" "length (ke_processes k1) = length (ke_processes k)"
    "\<exists>h. Process_get_file_handle (ke_processes k1 ! p) n = Inr h \<and>
       h < length (fs_handles (ke_fs k1)) \<and> fs_handles (ke_fs k1) ! h = MemoryFileHandle ?f 0"
    "pr_m_next_handle_id (ke_processes k1 ! p) = n + 1"
    "pr_m_working_directory (ke_processes k1 ! p) = pr_m_working_directory ?pr"
    using cs w d m(1) by (auto intro: sys_open_creates[OF ok p n s, unfolded cs(1)])
  obtain h where h: "Process_get_file_handle (ke_processes k1 ! p) n = Inr h" "h < length (fs_handles (ke_fs k1))"
    "fs_handles (ke_fs k1) ! h = MemoryFileHandle ?f 0" using 1(8) by blast
  obtain fs2 where W: "VirtualFileHandle_write (ke_fs k1) h data = Inr (Result_from_value (Span_size data), fs2)"
    "vf_class (fs_files fs2 ! ?f) = MemoryFile (view data)" "length (fs_files fs2) = length (fs_files (ke_fs k1))"
    "length (fs_handles fs2) = length (fs_handles (ke_fs k1))" "fs_m_root fs2 = fs_m_root (ke_fs k1)"
    "vf_m_mode (fs_files fs2 ! ?f) = vf_m_mode (fs_files (ke_fs k1) ! ?f)"
    by (rule write_memory_file[OF h(3) 1(3,4)])
  let ?k2 = "k1\<lparr>ke_fs := fs2\<rparr>"
  have 2: "sys_write k1 p n data = Inr (sint (sp_m_size data), ?k2)"
    using h(1) W(1) p 1(7) by (simp add: sys_write_def process_at_def result_i32_def Span_size_def)
  have ok2: "kernel_ok ?k2" using sys_write_ok[OF 1(2) 2] by blast
  obtain D1 where D1: "files_ok (ke_fs k1) D1" "fs_m_root (ke_fs k1) < length (fs_files (ke_fs k1))"
    using 1(2) by (auto simp: kernel_ok_def booted_def)
  obtain D2 where D2: "files_ok fs2 D2" using ok2 by (auto simp: kernel_ok_def)
  have "walk fs2 cs (fs_m_root (ke_fs k1)) = Some ?f"
    by (rule walk_mono[OF D1(1) _ D1(2) 1(6)]) (simp add: same_entries_entry[OF write_entries[OF W(1)]])
  then have l2: "FileSystem_try_lookup fs2 \<lparr>pa_m_is_absolute = True, pa_m_components = cs\<rparr> = Inr (Result_from_value ?f)"
    using found_lookup[OF D2] D1(2) W(3,5) by (simp add: FileSystem_try_lookup_def)
  have at2: "process_at ?k2 p = Inr (ke_processes k1 ! p)" using p 1(7) by (simp add: process_at_def)
  have r2: "resolved (ke_processes k1 ! p) s = cs" using 1(10) by (simp add: resolved_def cs(1)[symmetric])
  obtain path0 where P: "Path_of_cstring (s @ [CHR 0x00]) = Inr path0"
    "absolute_path (ke_processes k1 ! p) path0 = Inr \<lparr>pa_m_is_absolute = True, pa_m_components = cs\<rparr>"
    using resolve_path[OF process_at_ok(1)[OF ok2 at2] s] r2 by auto
  have f2: "?f < length (fs_files (ke_fs ?k2))" using W(3) 1(3) by simp
  have open2: "sys_open ?k2 p (s @ [CHR 0x00]) 0 = open_handle ?k2 p ?f"
    using at2 P l2 f2 flag_simps(2) by (simp add: sys_open_def sys_open_existing_def file_at_ok)
  have q2: "p < length (ke_processes ?k2)" "vf_class (fs_files (ke_fs ?k2) ! ?f) = MemoryFile (view data)"
    "vf_m_mode (fs_files (ke_fs ?k2) ! ?f) = Mode_Regular" "pr_m_next_handle_id (ke_processes ?k2 ! p) < 2 ^ 31 - 1"
    using p W 1(5,7,9) m(2) by simp_all
  obtain k3 where 3: "open_handle ?k2 p ?f = Inr (n + 1, k3)" "length (ke_processes k3) = length (ke_processes k)"
    "ke_fs k3 = fs2\<lparr>fs_handles := fs_handles fs2 @ [MemoryFileHandle ?f 0]\<rparr>"
    "Process_get_file_handle (ke_processes k3 ! p) (n + 1) = Inr (length (fs_handles fs2))"
    using 1(7,9) by (auto intro: open_memory_file[OF ok2 q2(1) f2 q2(2-4)])
  let ?out = "buffer\<lparr>sp_m_data := view data @ drop (length (view data)) (sp_m_data buffer)\<rparr>"
  have lv: "length (view data) = unat (sp_m_size data)" "(of_nat (length (view data)) :: u32) = sp_m_size data"
    using length_view[OF data(1)] by simp_all
  have size: "length (view data) < 2 ^ 32" "length (view data) \<le> unat (sp_m_size buffer)"
    using lv data(3) by (simp_all add: word_le_nat_alt)
  have h3: "fs_handles (ke_fs k3) ! length (fs_handles fs2) = MemoryFileHandle ?f 0"
    "?f < length (fs_files (ke_fs k3))" "vf_class (fs_files (ke_fs k3) ! ?f) = MemoryFile (view data)"
    using 3(3) f2 W(2) by (simp_all add: nth_append)
  obtain fs4 where "VirtualFileHandle_read (ke_fs k3) (length (fs_handles fs2)) buffer =
      Inr (Result_from_value (sp_m_size data), fs4, ?out)"
    using read_memory_file[OF h3 size(1) data(2) size(2)] lv(2) by auto
  then have 4: "sys_read k3 p (n + 1) buffer = Inr (sint (sp_m_size data), k3\<lparr>ke_fs := fs4\<rparr>, ?out)"
    using p 3(2,4) by (simp add: sys_read_def process_at_def result_i32_def)
  show ?thesis using 1(1) 2 open2 3(1) 4 by auto
qed


subsection \<open>An example\<close>

definition empty_image :: FileInfo where "empty_image = FileInfo 2 Mode_Directory [] []"

definition booted_shell :: "Kernel outcome" where
  "booted_shell =
     bindE (boot_files (FS_new (UART_new 0 []) []) empty_image) (\<lambda>fs.
     bindE (Process_new \<lparr>ke_fs = fs, ke_processes = [], ke_m_next_process_id = 0\<rparr> ''Shell'') (\<lambda>(q, k). Inr k))"

lemma booted_shell_facts:
  "case booted_shell of
     Inr k \<Rightarrow> entry (ke_fs k) (fs_m_root (ke_fs k)) ''notes.txt'' = None \<and> length (ke_processes k) = 1 \<and>
       pr_m_next_handle_id (ke_processes k ! 0) = 3
   | Inl _ \<Rightarrow> False"
  by code_simp

lemma shell_example:
  obtains k where "booted_shell = Inr k" and "kernel_ok k" and "entry (ke_fs k) (fs_m_root (ke_fs k)) ''notes.txt'' = None"
    and "length (ke_processes k) = 1" and "pr_m_next_handle_id (ke_processes k ! 0) = 3"
proof -
  obtain k where k: "booted_shell = Inr k" "entry (ke_fs k) (fs_m_root (ke_fs k)) ''notes.txt'' = None"
    "length (ke_processes k) = 1" "pr_m_next_handle_id (ke_processes k ! 0) = 3"
    using booted_shell_facts by (auto split: sum.splits)
  have img: "image_ok empty_image" "fi_st_mode empty_image AND Mode_Format = Mode_Directory" "fi_st_ino empty_image = 2"
    by (simp_all add: empty_image_def)
  have "reachable_kernel empty_image k"
    using k(1) reachable_kernel.boot[of "UART_new 0 []" "[]" empty_image]
    by (auto simp: booted_shell_def outcome_simps intro: reachable_kernel.create)
  then show ?thesis using that k reachable_ok_lemma[OF img] by blast
qed

lemma create_write_read_witness:
  "\<exists>k k1 k2 k3 k4. booted_shell = Inr k \<and>
    sys_open k 0 (''/notes.txt'' @ [CHR 0x00]) O_CREAT = Inr (3, k1) \<and>
    sys_write k1 0 3 (Span_of [0x68, 0x69] 2) = Inr (2, k2) \<and>
    sys_open k2 0 (''/notes.txt'' @ [CHR 0x00]) 0 = Inr (4, k3) \<and>
    sys_read k3 0 4 (Span_of [0, 0, 0] 3) = Inr (2, k4, Span_of [0x68, 0x69, 0] 3)"
proof -
  obtain k where k: "booted_shell = Inr k" "kernel_ok k" "entry (ke_fs k) (fs_m_root (ke_fs k)) ''notes.txt'' = None"
    "length (ke_processes k) = 1" "pr_m_next_handle_id (ke_processes k ! 0) = 3" by (rule shell_example)
  have p: "0 < length (ke_processes k)" using k(4) by simp
  have cs: "resolved (ke_processes k ! 0) ''/notes.txt'' = [''notes.txt'']" by (simp add: resolved_def split_slash.simps)
  have t: "class_tag (vf_class (fs_files (ke_fs k) ! fs_m_root (ke_fs k))) \<in> {2, 3}"
    using k(2) by (auto simp: kernel_ok_def booted_def)
  have "span_ok (Span_of [0x68, 0x69 :: u8] 2)" "span_ok (Span_of [0, 0, 0 :: u8] 3)"
    by (simp_all add: span_ok_def Span_of_def)
  note R = create_write_read[OF k(2) p k(5) _ _ _ _ cs _ _ t _ this]
  show ?thesis by (rule exI[of _ k]) (use R k(1,3) in \<open>simp add: Span_of_def view_def\<close>)
qed

end
