(* ===== verification/Memory_Allocator.thy ===== *)
theory Memory_Allocator
  imports Interfaces
begin

section \<open>Std/MemoryAllocator.cpp: the first-fit heap allocator\<close>

text \<open>
  The allocator keeps its free list inside the memory it manages: a block starts with a \<^verbatim>\<open>Node\<close>
  header (\<^verbatim>\<open>m_size\<close> at offset 0, \<^verbatim>\<open>m_next\<close> at offset 4) and its data begins 8 bytes later.
  Memory is a function from word-aligned addresses to 32-bit words, so writing a header through
  one pointer is seen through every other.  The null pointer is 0.  The tracing arguments
  (\<^verbatim>\<open>debug_override\<close>, \<^verbatim>\<open>address\<close>) only select debug output and are left out.

  The second half relates that memory to a list of blocks that tile the heap, shows what each
  operation does to the tiling, and lifts it to every sequence of allocations and releases.
\<close>

subsection \<open>State and operations\<close>

type_synonym memory = "uptr \<Rightarrow> u32"

record MemoryAllocator =
  ma_m_heap_data :: uptr
  ma_m_heap_size :: usize
  ma_m_freelist :: uptr
  ma_memory :: memory

definition sizeof_Node :: usize where
  "sizeof_Node = 8"

definition Node_m_size :: "memory \<Rightarrow> uptr \<Rightarrow> usize" where
  "Node_m_size m n = m n"

definition Node_m_next :: "memory \<Rightarrow> uptr \<Rightarrow> uptr" where
  "Node_m_next m n = m (n + 4)"

definition Node_m_data :: "uptr \<Rightarrow> uptr" where
  "Node_m_data n = n + sizeof_Node"

definition set_Node_m_size :: "uptr \<Rightarrow> usize \<Rightarrow> memory \<Rightarrow> memory" where
  "set_Node_m_size n v m = m(n := v)"

definition set_Node_m_next :: "uptr \<Rightarrow> uptr \<Rightarrow> memory \<Rightarrow> memory" where
  "set_Node_m_next n v m = m(n + 4 := v)"

definition round_to_word :: "usize \<Rightarrow> usize" where
  "round_to_word sz = (if sz mod 4 \<noteq> 0 then sz + 4 - sz mod 4 else sz)"

definition MemoryAllocator_new :: "uptr \<Rightarrow> usize \<Rightarrow> memory \<Rightarrow> MemoryAllocator" where
  "MemoryAllocator_new heap_data heap_size m =
     \<lparr>ma_m_heap_data = heap_data, ma_m_heap_size = heap_size, ma_m_freelist = heap_data,
      ma_memory = set_Node_m_next heap_data 0
                    (set_Node_m_size heap_data (heap_size - sizeof_Node) m)\<rparr>"

text \<open>
  The walk over the free list.  Its fuel is the heap size in bytes: each node takes 8 of them,
  so a walk that visits more nodes than that is in a cycle.
\<close>

definition MemoryAllocator_split ::
  "MemoryAllocator \<Rightarrow> uptr \<Rightarrow> uptr \<Rightarrow> usize \<Rightarrow> (uptr \<times> MemoryAllocator) outcome" where
  "MemoryAllocator_split s previous entry sz =
     (let m = ma_memory s;
          next = Node_m_data entry + round_to_word sz;
          m = set_Node_m_next next (Node_m_next m entry) m;
          m = set_Node_m_size next (Node_m_size m entry - round_to_word sz - sizeof_Node) m;
          s = (if previous \<noteq> 0
               then s\<lparr>ma_memory := set_Node_m_next previous next m\<rparr>
               else s\<lparr>ma_m_freelist := next, ma_memory := m\<rparr>);
          m = ma_memory s;
          m = set_Node_m_next entry 0 m;
          m = set_Node_m_size entry (round_to_word sz) m
      in checkE (Node_m_data entry mod 4 = 0) (VERIFY ''usize(entry->m_data) % 4 == 0'')
           (Inr (Node_m_data entry, s\<lparr>ma_memory := m\<rparr>)))"

fun MemoryAllocator_allocate_loop ::
  "nat \<Rightarrow> MemoryAllocator \<Rightarrow> uptr \<Rightarrow> uptr \<Rightarrow> usize \<Rightarrow> (uptr \<times> MemoryAllocator) outcome" where
  "MemoryAllocator_allocate_loop fuel s previous entry sz =
     (if entry = 0 then Inl VERIFY_NOT_REACHED
      else if fuel = 0 then Inl DIVERGES
      else if Node_m_size (ma_memory s) entry \<ge> sz + sizeof_Node
      then MemoryAllocator_split s previous entry sz
      else MemoryAllocator_allocate_loop (fuel - 1) s entry (Node_m_next (ma_memory s) entry) sz)"

declare MemoryAllocator_allocate_loop.simps [simp del]

definition MemoryAllocator_allocate ::
  "MemoryAllocator \<Rightarrow> usize \<Rightarrow> (uptr \<times> MemoryAllocator) outcome" where
  "MemoryAllocator_allocate s sz =
     MemoryAllocator_allocate_loop (unat (ma_m_heap_size s)) s 0 (ma_m_freelist s) sz"

text \<open>The body of the loop of \<^verbatim>\<open>deallocate\<close> once an entry behind the released block is found.\<close>

definition MemoryAllocator_insert ::
  "MemoryAllocator \<Rightarrow> uptr \<Rightarrow> uptr \<Rightarrow> uptr \<Rightarrow> MemoryAllocator" where
  "MemoryAllocator_insert s previous entry target =
     (let m = ma_memory s in
      if previous \<noteq> 0 \<and> Node_m_data previous + Node_m_size m previous = target
      then
        let m = set_Node_m_size previous
                  (Node_m_size m previous + (sizeof_Node + Node_m_size m target)) m
        in if Node_m_data previous + Node_m_size m previous = entry
           then s\<lparr>ma_memory :=
                    set_Node_m_next previous (Node_m_next m entry)
                      (set_Node_m_size previous
                         (Node_m_size m previous + (sizeof_Node + Node_m_size m entry)) m)\<rparr>
           else s\<lparr>ma_memory := m\<rparr>
      else
        let m = (if Node_m_data target + Node_m_size m target = entry
                 then set_Node_m_next target (Node_m_next m entry)
                        (set_Node_m_size target
                           (Node_m_size m target + (sizeof_Node + Node_m_size m entry)) m)
                 else set_Node_m_next target entry m)
        in if previous \<noteq> 0
           then s\<lparr>ma_memory := set_Node_m_next previous target m\<rparr>
           else s\<lparr>ma_m_freelist := target, ma_memory := m\<rparr>)"

fun MemoryAllocator_deallocate_loop ::
  "nat \<Rightarrow> MemoryAllocator \<Rightarrow> uptr \<Rightarrow> uptr \<Rightarrow> uptr \<Rightarrow> MemoryAllocator outcome" where
  "MemoryAllocator_deallocate_loop fuel s previous entry target =
     (if entry = 0 then Inr (s\<lparr>ma_m_freelist := target\<rparr>)
      else if fuel = 0 then Inl DIVERGES
      else if entry > target then Inr (MemoryAllocator_insert s previous entry target)
      else MemoryAllocator_deallocate_loop (fuel - 1) s entry
             (Node_m_next (ma_memory s) entry) target)"

declare MemoryAllocator_deallocate_loop.simps [simp del]

definition MemoryAllocator_deallocate ::
  "MemoryAllocator \<Rightarrow> uptr \<Rightarrow> MemoryAllocator outcome" where
  "MemoryAllocator_deallocate s pointer =
     (if pointer = 0 then Inr s
      else MemoryAllocator_deallocate_loop (unat (ma_m_heap_size s)) s 0 (ma_m_freelist s)
             (pointer - sizeof_Node))"

text \<open>\<^verbatim>\<open>memcpy\<close> between word-aligned ranges of whole words.\<close>

fun memcpy_words :: "nat \<Rightarrow> uptr \<Rightarrow> uptr \<Rightarrow> memory \<Rightarrow> memory" where
  "memcpy_words 0 destination source m = m"
| "memcpy_words (Suc n) destination source m =
     memcpy_words n (destination + 4) (source + 4) (m(destination := m source))"

definition MemoryAllocator_reallocate ::
  "MemoryAllocator \<Rightarrow> uptr \<Rightarrow> usize \<Rightarrow> (uptr \<times> MemoryAllocator) outcome" where
  "MemoryAllocator_reallocate s pointer sz =
     (let entry = pointer - sizeof_Node
      in if sz < Node_m_size (ma_memory s) entry then Inr (pointer, s)
         else bindE (MemoryAllocator_allocate s sz) (\<lambda>(new_pointer, s).
              let s = s\<lparr>ma_memory :=
                          memcpy_words (unat (Node_m_size (ma_memory s) entry) div 4)
                            new_pointer pointer (ma_memory s)\<rparr>
              in bindE (MemoryAllocator_deallocate s pointer) (\<lambda>s. Inr (new_pointer, s))))"

record Statistics =
  st_m_largest_continous_block :: usize
  st_m_avaliable_memory :: usize

fun MemoryAllocator_statistics_loop ::
  "nat \<Rightarrow> memory \<Rightarrow> uptr \<Rightarrow> Statistics \<Rightarrow> Statistics outcome" where
  "MemoryAllocator_statistics_loop fuel m entry stats =
     (if entry = 0 then Inr stats
      else if fuel = 0 then Inl DIVERGES
      else let stats = stats\<lparr>st_m_avaliable_memory :=
                               st_m_avaliable_memory stats + Node_m_size m entry\<rparr>;
               stats = (if Node_m_size m entry > st_m_largest_continous_block stats
                        then stats\<lparr>st_m_largest_continous_block := Node_m_size m entry\<rparr>
                        else stats)
           in MemoryAllocator_statistics_loop (fuel - 1) m (Node_m_next m entry) stats)"

declare MemoryAllocator_statistics_loop.simps [simp del]

definition MemoryAllocator_statistics :: "MemoryAllocator \<Rightarrow> Statistics outcome" where
  "MemoryAllocator_statistics s =
     MemoryAllocator_statistics_loop (unat (ma_m_heap_size s)) (ma_memory s) (ma_m_freelist s)
       \<lparr>st_m_largest_continous_block = 0, st_m_avaliable_memory = 0\<rparr>"

lemmas Node_defs = Node_m_size_def Node_m_next_def Node_m_data_def set_Node_m_size_def
  set_Node_m_next_def sizeof_Node_def

subsection \<open>Linked lists in memory\<close>

type_synonym block = "uptr \<times> usize \<times> bool"

abbreviation "b_addr b \<equiv> fst b"
abbreviation "b_size b \<equiv> fst (snd b)"
abbreviation "b_used b \<equiv> snd (snd b)"

text \<open>The nodes from pointer \<open>p\<close> up to, and not including, pointer \<open>q\<close>.\<close>

fun lseg :: "memory \<Rightarrow> uptr \<Rightarrow> uptr list \<Rightarrow> uptr \<Rightarrow> bool" where
  "lseg m p [] q = (p = q)"
| "lseg m p (a # as) q = (p = a \<and> a \<noteq> 0 \<and> lseg m (Node_m_next m a) as q)"

lemma lseg_append: "lseg m p (as @ bs) q \<longleftrightarrow> (\<exists>r. lseg m p as r \<and> lseg m r bs q)"
  by (induction as arbitrary: p) auto

lemma lseg_last: "lseg m p (as @ [a]) q \<longleftrightarrow> lseg m p as a \<and> a \<noteq> 0 \<and> Node_m_next m a = q"
  by (auto simp: lseg_append)

lemma lseg_cong:
  "(\<And>a. a \<in> set as \<Longrightarrow> Node_m_next m' a = Node_m_next m a) \<Longrightarrow> lseg m' p as q = lseg m p as q"
  by (induction as arbitrary: p) auto

lemma lseg_null: "lseg m 0 as q \<Longrightarrow> as = []"
  by (cases as) auto

lemma allocate_loop_find:
  assumes "lseg (ma_memory s) p (as @ a # bs) 0"
    and "\<And>x. x \<in> set as \<Longrightarrow> \<not> Node_m_size (ma_memory s) x \<ge> sz + sizeof_Node"
    and "Node_m_size (ma_memory s) a \<ge> sz + sizeof_Node"
    and "length as < fuel"
  shows "MemoryAllocator_allocate_loop fuel s previous p sz
           = MemoryAllocator_split s (last (previous # as)) a sz"
  using assms
proof (induction as arbitrary: p previous fuel)
  case Nil
  then show ?case by (subst MemoryAllocator_allocate_loop.simps) auto
next
  case (Cons x as)
  have "MemoryAllocator_allocate_loop fuel s previous p sz
      = MemoryAllocator_allocate_loop (fuel - 1) s x (Node_m_next (ma_memory s) x) sz"
    using Cons.prems by (subst MemoryAllocator_allocate_loop.simps) auto
  then show ?case
    using Cons.prems Cons.IH[of "Node_m_next (ma_memory s) x" "fuel - 1" x] by auto
qed

lemma allocate_loop_exhausted:
  assumes "lseg (ma_memory s) p as 0"
    and "\<And>x. x \<in> set as \<Longrightarrow> \<not> Node_m_size (ma_memory s) x \<ge> sz + sizeof_Node"
    and "length as \<le> fuel"
  shows "MemoryAllocator_allocate_loop fuel s previous p sz = Inl VERIFY_NOT_REACHED"
  using assms
proof (induction as arbitrary: p previous fuel)
  case Nil
  then show ?case by (subst MemoryAllocator_allocate_loop.simps) simp
next
  case (Cons x as)
  then show ?case by (subst MemoryAllocator_allocate_loop.simps) auto
qed

lemma deallocate_loop_find:
  assumes "lseg (ma_memory s) p (as @ e # bs) 0"
    and "\<And>x. x \<in> set as \<Longrightarrow> \<not> x > target"
    and "e > target" and "length as < fuel"
  shows "MemoryAllocator_deallocate_loop fuel s previous p target
           = Inr (MemoryAllocator_insert s (last (previous # as)) e target)"
  using assms
proof (induction as arbitrary: p previous fuel)
  case Nil
  then show ?case by (subst MemoryAllocator_deallocate_loop.simps) auto
next
  case (Cons x as)
  have "MemoryAllocator_deallocate_loop fuel s previous p target
      = MemoryAllocator_deallocate_loop (fuel - 1) s x (Node_m_next (ma_memory s) x) target"
    using Cons.prems by (subst MemoryAllocator_deallocate_loop.simps) auto
  then show ?case
    using Cons.prems Cons.IH[of "Node_m_next (ma_memory s) x" "fuel - 1" x] by auto
qed

subsection \<open>Blocks that tile the heap\<close>

fun tiles :: "nat \<Rightarrow> block list \<Rightarrow> nat \<Rightarrow> bool" where
  "tiles start [] end = (start = end)"
| "tiles start (b # bs) end =
     (unat (b_addr b) = start \<and> 4 dvd unat (b_size b) \<and>
      tiles (start + 8 + unat (b_size b)) bs end)"

definition free_blocks :: "block list \<Rightarrow> uptr list" where
  "free_blocks bs = map b_addr (filter (\<lambda>b. \<not> b_used b) bs)"

text \<open>No two neighbouring blocks are both free: released blocks have been merged.\<close>

fun coalesced :: "block list \<Rightarrow> bool" where
  "coalesced (b # c # bs) = ((b_used b \<or> b_used c) \<and> coalesced (c # bs))"
| "coalesced _ = True"

definition heap_links :: "MemoryAllocator \<Rightarrow> block list \<Rightarrow> bool" where
  "heap_links s bs \<longleftrightarrow>
     tiles (unat (ma_m_heap_data s)) bs (unat (ma_m_heap_data s) + unat (ma_m_heap_size s)) \<and>
     unat (ma_m_heap_data s) + unat (ma_m_heap_size s) < 2 ^ 32 \<and>
     ma_m_heap_data s \<noteq> 0 \<and> 4 dvd unat (ma_m_heap_data s) \<and>
     (\<forall>b \<in> set bs. Node_m_size (ma_memory s) (b_addr b) = b_size b) \<and>
     lseg (ma_memory s) (ma_m_freelist s) (free_blocks bs) 0"

definition heap_inv :: "MemoryAllocator \<Rightarrow> block list \<Rightarrow> bool" where
  "heap_inv s bs \<longleftrightarrow> heap_links s bs \<and> bs \<noteq> [] \<and> \<not> b_used (last bs) \<and> coalesced bs"

lemma tiles_append: "tiles st (bs @ cs) en \<longleftrightarrow> (\<exists>mid. tiles st bs mid \<and> tiles mid cs en)"
  by (induction bs arbitrary: st) auto

lemma tiles_le: "tiles st bs en \<Longrightarrow> st + 8 * length bs \<le> en"
  by (induction bs arbitrary: st) fastforce+

lemma tiles_bounds:
  "tiles st bs en \<Longrightarrow> b \<in> set bs \<Longrightarrow>
   st \<le> unat (b_addr b) \<and> unat (b_addr b) + 8 + unat (b_size b) \<le> en"
proof (induction bs arbitrary: st)
  case (Cons c bs)
  then show ?case using tiles_le[of _ bs en] by fastforce
qed simp

lemma tiles_aligned:
  "tiles st bs en \<Longrightarrow> 4 dvd st \<Longrightarrow> b \<in> set bs \<Longrightarrow> 4 dvd unat (b_addr b) \<and> 4 dvd unat (b_size b)"
proof (induction bs arbitrary: st)
  case (Cons c bs)
  then show ?case by (auto intro!: dvd_add)
qed simp

lemma free_blocks_simps [simp]:
  "free_blocks [] = []"
  "free_blocks (b # bs) = (if b_used b then free_blocks bs else b_addr b # free_blocks bs)"
  "free_blocks (bs @ cs) = free_blocks bs @ free_blocks cs"
  by (simp_all add: free_blocks_def)

lemma free_blocks_addr: "a \<in> set (free_blocks bs) \<Longrightarrow> \<exists>b \<in> set bs. b_addr b = a \<and> \<not> b_used b"
  by (auto simp: free_blocks_def)

lemma coalesced_append:
  "coalesced (bs @ c # cs) \<longleftrightarrow>
     coalesced bs \<and> coalesced (c # cs) \<and> (bs = [] \<or> b_used (last bs) \<or> b_used c)"
  by (induction bs rule: coalesced.induct) auto

lemma coalesced_Cons:
  "coalesced (b # bs) \<longleftrightarrow> coalesced bs \<and> (bs = [] \<or> b_used b \<or> b_used (hd bs))"
  by (cases bs) auto

lemma tiles_sep:
  assumes "tiles st (xs @ b # ys) en"
  shows "c \<in> set xs \<Longrightarrow> unat (b_addr c) + 8 + unat (b_size c) \<le> unat (b_addr b)"
    and "c \<in> set ys \<Longrightarrow> unat (b_addr b) + 8 + unat (b_size b) \<le> unat (b_addr c)"
proof -
  from assms obtain mid where xs: "tiles st xs mid" and b: "unat (b_addr b) = mid"
    and ys: "tiles (mid + 8 + unat (b_size b)) ys en"
    by (auto simp: tiles_append)
  show "c \<in> set xs \<Longrightarrow> unat (b_addr c) + 8 + unat (b_size c) \<le> unat (b_addr b)"
    using tiles_bounds[OF xs, of c] b by simp
  show "c \<in> set ys \<Longrightarrow> unat (b_addr b) + 8 + unat (b_size b) \<le> unat (b_addr c)"
    using tiles_bounds[OF ys, of c] b by simp
qed

text \<open>Headers eight bytes apart do not share a word.\<close>

lemma headers_apart:
  assumes "unat (a :: u32) + 8 \<le> unat b" and "unat b + 8 \<le> 2 ^ 32"
  shows "a \<noteq> b" "b \<noteq> a" "a + 4 \<noteq> b" "b \<noteq> a + 4" "b + 4 \<noteq> a" "a \<noteq> b + 4" "a + 4 \<noteq> b + 4"
proof -
  have "unat (a + 4) = unat a + 4" and "unat (b + 4) = unat b + 4"
    using assms by (simp_all add: unat_add_small)
  with assms show "a \<noteq> b" "b \<noteq> a" "a + 4 \<noteq> b" "b \<noteq> a + 4" "b + 4 \<noteq> a" "a \<noteq> b + 4" "a + 4 \<noteq> b + 4"
    by auto
qed

lemma header_words_differ [simp]: "(a :: u32) + 4 \<noteq> a" "a \<noteq> (a :: u32) + 4"
  by simp_all

lemma lseg_retarget:
  assumes "lseg m p as q"
    and "\<And>x. x \<in> set (butlast as) \<Longrightarrow> Node_m_next m' x = Node_m_next m x"
    and "as \<noteq> [] \<Longrightarrow> Node_m_next m' (last as) = q'"
  shows "lseg m' (if as = [] then q' else p) as q'"
proof (cases as rule: rev_cases)
  case (snoc bs b)
  then have "lseg m p bs b" and "b \<noteq> 0" using assms(1) by (auto simp: lseg_last)
  moreover have "lseg m' p bs b = lseg m p bs b"
    using assms(2) snoc by (intro lseg_cong) simp
  ultimately show ?thesis using snoc assms(3) by (simp add: lseg_last)
qed (use assms in auto)

lemma unat_four: "unat (4 :: u32) = 4"
  by simp

lemma round_to_word_bounds:
  assumes "unat sz + 8 \<le> unat (n :: u32)" and "4 dvd unat n"
  shows "unat sz \<le> unat (round_to_word sz)" "unat (round_to_word sz) < unat sz + 4"
    "4 dvd unat (round_to_word sz)" "unat (round_to_word sz) + 8 \<le> unat n"
proof -
  have small: "unat sz + 4 < 2 ^ 32" using assms(1) unat_bound32[of n] by (simp del: unat_bound32)
  have "unat (sz + 4 - sz mod 4) = unat sz + 4 - unat sz mod 4"
    using small by (simp add: unat_sub_small unat_add_small unat_mod_distrib)
  moreover have "(sz mod 4 \<noteq> 0) = (unat sz mod 4 \<noteq> 0)"
    by (metis unat_eq_zero unat_mod_distrib unat_four)
  ultimately have r: "unat (round_to_word sz)
      = (if unat sz mod 4 \<noteq> 0 then unat sz + 4 - unat sz mod 4 else unat sz)"
    by (simp add: round_to_word_def)
  define d where "d = unat sz div 4"
  define m where "m = unat sz mod 4"
  have e: "unat sz = 4 * d + m" "m < 4" by (simp_all add: d_def m_def)
  have r': "unat (round_to_word sz) = (if m \<noteq> 0 then unat sz + 4 - m else unat sz)"
    using r by (simp add: m_def)
  show lo: "unat sz \<le> unat (round_to_word sz)" and hi: "unat (round_to_word sz) < unat sz + 4"
    using r' e by auto
  have "unat (round_to_word sz) = (if m \<noteq> 0 then Suc d else d) * 4" using r' e by auto
  then obtain k where k: "unat (round_to_word sz) = k * 4" by blast
  then show "4 dvd unat (round_to_word sz)" by simp
  obtain l where l: "unat n = l * 4" using assms(2) by (metis dvd_def mult.commute)
  show "unat (round_to_word sz) + 8 \<le> unat n" using hi assms(1) unfolding k l by presburger
qed

subsection \<open>What allocation does to the tiling\<close>

text \<open>The data bytes of the used blocks, which neither operation may touch.\<close>

definition payload :: "block list \<Rightarrow> uptr set" where
  "payload bs = {x. \<exists>b \<in> set bs. b_used b \<and>
     unat (b_addr b) + 8 \<le> unat x \<and> unat x < unat (b_addr b) + 8 + unat (b_size b)}"

lemma heap_linksD:
  assumes "heap_links s bs"
  shows "tiles (unat (ma_m_heap_data s)) bs (unat (ma_m_heap_data s) + unat (ma_m_heap_size s))"
    and "unat (ma_m_heap_data s) + unat (ma_m_heap_size s) < 2 ^ 32"
    and "ma_m_heap_data s \<noteq> 0" and "4 dvd unat (ma_m_heap_data s)"
    and "b \<in> set bs \<Longrightarrow> ma_memory s (b_addr b) = b_size b"
    and "lseg (ma_memory s) (ma_m_freelist s) (free_blocks bs) 0"
  using assms by (simp_all add: heap_links_def Node_defs)

lemma heap_invD:
  assumes "heap_inv s bs"
  shows "heap_links s bs" and "bs \<noteq> []" and "\<not> b_used (last bs)" and "coalesced bs"
  using assms by (simp_all add: heap_inv_def)

lemma block_bounds:
  assumes "heap_links s bs" and "b \<in> set bs"
  shows "unat (b_addr b) + 8 + unat (b_size b) < 2 ^ 32" and "b_addr b \<noteq> 0"
    and "4 dvd unat (b_addr b)" and "4 dvd unat (b_size b)"
proof -
  note D = heap_linksD[OF assms(1)]
  note t = tiles_bounds[OF D(1) assms(2)]
  show "unat (b_addr b) + 8 + unat (b_size b) < 2 ^ 32" using t D(2) by simp
  have "0 < unat (ma_m_heap_data s)" using D(3) by (simp add: unat_gt_0)
  then have "0 < unat (b_addr b)" using t by linarith
  then show "b_addr b \<noteq> 0" by (simp add: unat_gt_0)
  show "4 dvd unat (b_addr b)" "4 dvd unat (b_size b)"
    using tiles_aligned[OF D(1,4) assms(2)] by simp_all
qed

text \<open>Every block other than a given one keeps its header away from that block's two words.\<close>

lemma block_apart:
  assumes "heap_links s (xs @ b # ys)" and "c \<in> set xs \<union> set ys"
  shows "b_addr c \<noteq> b_addr b" "b_addr c \<noteq> b_addr b + 4" "b_addr c + 4 \<noteq> b_addr b"
    "b_addr c + 4 \<noteq> b_addr b + 4"
proof -
  note D = heap_linksD[OF assms(1)]
  have bb: "unat (b_addr b) + 8 \<le> 2 ^ 32"
    using block_bounds(1)[OF assms(1), of b] by simp
  have cc: "unat (b_addr c) + 8 \<le> 2 ^ 32"
    using block_bounds(1)[OF assms(1), of c] assms(2) by auto
  have "unat (b_addr c) + 8 \<le> unat (b_addr b) \<or> unat (b_addr b) + 8 \<le> unat (b_addr c)"
    using tiles_sep[OF D(1), of c] assms(2) by auto
  then show "b_addr c \<noteq> b_addr b" "b_addr c \<noteq> b_addr b + 4" "b_addr c + 4 \<noteq> b_addr b"
    "b_addr c + 4 \<noteq> b_addr b + 4"
    using headers_apart[OF _ bb, of "b_addr c"] headers_apart[OF _ cc, of "b_addr b"] by auto
qed

lemma last_free_previous:
  assumes "heap_links s (xs @ ys)" and "free_blocks xs \<noteq> []"
  shows "\<exists>c \<in> set xs. b_addr c = last (0 # free_blocks xs) \<and> \<not> b_used c"
    and "last (0 # free_blocks xs) \<noteq> 0"
proof -
  have "last (free_blocks xs) \<in> set (free_blocks xs)" using assms(2) by simp
  then show c: "\<exists>c \<in> set xs. b_addr c = last (0 # free_blocks xs) \<and> \<not> b_used c"
    using assms(2) free_blocks_addr by fastforce
  then obtain c where "c \<in> set xs" and "b_addr c = last (0 # free_blocks xs)" by blast
  with block_bounds(2)[OF assms(1), of c] show "last (0 # free_blocks xs) \<noteq> 0" by simp
qed

text \<open>
  Changing the word that leads to a block: the \<^verbatim>\<open>m_next\<close> of the free block before it or the head
  of the list.  Both operations end with such a step.
\<close>

definition relink :: "uptr \<Rightarrow> uptr \<Rightarrow> MemoryAllocator \<Rightarrow> MemoryAllocator" where
  "relink previous v s =
     (if previous \<noteq> 0 then s\<lparr>ma_memory := set_Node_m_next previous v (ma_memory s)\<rparr>
      else s\<lparr>ma_m_freelist := v\<rparr>)"

lemma relink_simps [simp]:
  "ma_m_heap_data (relink p v s) = ma_m_heap_data s"
  "ma_m_heap_size (relink p v s) = ma_m_heap_size s"
  "ma_m_freelist (relink p v s) = (if p = 0 then v else ma_m_freelist s)"
  "ma_memory (relink p v s) = (if p = 0 then ma_memory s else (ma_memory s)(p + 4 := v))"
  by (simp_all add: relink_def set_Node_m_next_def)

lemma split_eq:
  "Node_m_data entry mod 4 = 0 \<Longrightarrow>
   MemoryAllocator_split s previous entry sz =
     (let r = round_to_word sz; next = entry + 8 + r; m = ma_memory s;
          s1 = relink previous next
                 (s\<lparr>ma_memory := (m(next + 4 := m (entry + 4)))
                      (next := (m(next + 4 := m (entry + 4))) entry - r - 8)\<rparr>)
      in Inr (entry + 8, s1\<lparr>ma_memory := (ma_memory s1)(entry + 4 := 0, entry := r)\<rparr>))"
  by (simp add: MemoryAllocator_split_def Let_def Node_defs relink_def)

lemma payload_outside:
  assumes "heap_links s (xs @ b # ys)" and "x \<in> payload (xs @ ys)"
  shows "unat x < unat (b_addr b) \<or> unat (b_addr b) + 8 + unat (b_size b) \<le> unat x"
proof -
  obtain c where c: "c \<in> set xs \<union> set ys" "unat (b_addr c) + 8 \<le> unat x"
    "unat x < unat (b_addr c) + 8 + unat (b_size c)"
    using assms(2) by (auto simp: payload_def)
  show ?thesis using tiles_sep[OF heap_linksD(1)[OF assms(1)], of c] c by auto
qed

lemma payload_header:
  assumes inv: "heap_links s bs" and x: "x \<in> payload bs" and b: "b \<in> set bs"
  shows "x \<noteq> b_addr b" and "x \<noteq> b_addr b + 4"
proof -
  obtain xs ys where bs: "bs = xs @ b # ys" using b by (auto simp: in_set_conv_decomp)
  have b4: "unat (b_addr b + 4) = unat (b_addr b) + 4"
    using block_bounds(1)[OF inv b] by (simp add: unat_add_small)
  have "x \<in> payload (xs @ ys) \<or> unat (b_addr b) + 8 \<le> unat x"
    using x by (auto simp: payload_def bs)
  then have "unat x < unat (b_addr b) \<or> unat (b_addr b) + 8 \<le> unat x"
    using payload_outside inv bs by fastforce
  with b4 show "x \<noteq> b_addr b" and "x \<noteq> b_addr b + 4" by auto
qed

lemma header_not_next:
  assumes "heap_links s bs" and "c \<in> set bs" and "d \<in> set bs"
  shows "b_addr c \<noteq> b_addr d + 4"
proof -
  obtain xs ys where bs: "bs = xs @ d # ys" using assms(3) by (auto simp: in_set_conv_decomp)
  then have "c = d \<or> c \<in> set xs \<union> set ys" using assms(2) by auto
  then show ?thesis using block_apart(2) assms(1) bs by fastforce
qed

text \<open>The address of a block identifies it.\<close>

lemma tiles_distinct: "tiles st bs en \<Longrightarrow> en < 2 ^ 32 \<Longrightarrow> distinct (map b_addr bs)"
proof (induction bs arbitrary: st)
  case (Cons b bs)
  then show ?case using tiles_bounds by fastforce
qed simp

lemma free_blocks_distinct:
  "heap_links s bs \<Longrightarrow> distinct (free_blocks bs)"
  using tiles_distinct[OF heap_linksD(1,2)] by (force simp: free_blocks_def distinct_map intro: inj_on_subset)

text \<open>
  How the free list reacts to a memory in which only the headers inside one block and the
  \<^verbatim>\<open>m_next\<close> of its free predecessor have changed.
\<close>

lemma lseg_relinked:
  assumes inv: "heap_links s (xs @ b # ys)"
    and same: "\<And>c. c \<in> set xs \<union> set ys \<Longrightarrow> b_addr c \<noteq> last (0 # free_blocks xs) \<Longrightarrow>
                 m' (b_addr c + 4) = ma_memory s (b_addr c + 4)"
    and prev: "free_blocks xs \<noteq> [] \<Longrightarrow> m' (last (0 # free_blocks xs) + 4) = target"
    and here: "lseg m' target as r" and there: "lseg (ma_memory s) r (free_blocks ys) 0"
  shows "lseg m' (if free_blocks xs = [] then target else ma_m_freelist s)
           (free_blocks xs @ as @ free_blocks ys) 0"
proof -
  note D = heap_linksD[OF inv]
  have dist: "distinct (free_blocks xs @ free_blocks (b # ys))"
    using free_blocks_distinct[OF inv] by simp
  obtain q where q: "lseg (ma_memory s) (ma_m_freelist s) (free_blocks xs) q"
    using D(6) by (auto simp: lseg_append)
  have front: "lseg m' (if free_blocks xs = [] then target else ma_m_freelist s) (free_blocks xs) target"
  proof (rule lseg_retarget[OF q])
    fix x assume x: "x \<in> set (butlast (free_blocks xs))"
    then obtain us v where fx: "free_blocks xs = us @ [v]" and "x \<in> set us"
      by (cases "free_blocks xs" rule: rev_cases) auto
    then have "x \<noteq> last (0 # free_blocks xs)" using dist by auto
    moreover obtain c where "c \<in> set xs" and "b_addr c = x"
      using in_set_butlastD[OF x] free_blocks_addr by blast
    ultimately show "Node_m_next m' x = Node_m_next (ma_memory s) x"
      using same[of c] by (simp add: Node_defs)
  qed (use prev in \<open>auto simp: Node_defs\<close>)
  have behind: "lseg m' r (free_blocks ys) 0 = lseg (ma_memory s) r (free_blocks ys) 0"
  proof (rule lseg_cong)
    fix x assume x: "x \<in> set (free_blocks ys)"
    then obtain c where c: "c \<in> set ys" "b_addr c = x" using free_blocks_addr by blast
    have "last (0 # free_blocks xs) \<noteq> x"
    proof (cases "free_blocks xs = []")
      case True
      then show ?thesis using c block_bounds(2)[OF inv, of c] by simp
    next
      case False
      then have "last (0 # free_blocks xs) \<in> set (free_blocks xs)" by simp
      moreover have "x \<notin> set (free_blocks xs)" using dist x by (auto split: if_splits)
      ultimately show ?thesis by metis
    qed
    then show "Node_m_next m' x = Node_m_next (ma_memory s) x"
      using same[of c] c by (auto simp: Node_defs)
  qed
  from front here behind there show ?thesis by (auto simp: lseg_append)
qed

lemma split_correct:
  assumes inv: "heap_inv s (xs @ (a, n, False) # ys)" and fits: "unat sz + 8 \<le> unat n"
  defines "r \<equiv> round_to_word sz"
  defines "bs' \<equiv> xs @ (a, r, True) # (a + 8 + r, n - r - 8, False) # ys"
  shows "\<exists>s'. MemoryAllocator_split s (last (0 # free_blocks xs)) a sz = Inr (a + 8, s') \<and>
     heap_inv s' bs' \<and> ma_m_heap_data s' = ma_m_heap_data s \<and>
     ma_m_heap_size s' = ma_m_heap_size s \<and>
     (\<forall>x \<in> payload (xs @ ys). ma_memory s' x = ma_memory s x)"
proof -
  let ?m = "ma_memory s" and ?prev = "last (0 # free_blocks xs)" and ?next = "a + 8 + r"
  note I = heap_invD[OF inv] and links = heap_invD(1)[OF inv]
  note D = heap_linksD[OF links]
  note B = block_bounds[OF links, of "(a, n, False)", simplified]
  note R = round_to_word_bounds[OF fits B(4), folded r_def]
  have a8: "unat (a + 8) = unat a + 8" using B(1) by (simp add: unat_add_small)
  have next': "unat ?next = unat a + 8 + unat r"
    using a8 B(1) R(4) by (simp add: unat_add_small)
  have rest: "unat (n - r - 8) = unat n - unat r - 8"
    using R(4) by (simp add: unat_sub_small)
  have aligned: "Node_m_data a mod 4 = 0"
  proof -
    have "unat (a + 8) mod 4 = 0" using a8 B(3) by (auto elim!: dvdE)
    then have "unat ((a + 8) mod 4) = 0" by (simp add: unat_mod_distrib)
    then show ?thesis by (simp add: Node_defs unat_eq_zero)
  qed
  obtain m0 where m0: "m0 = (?m(?next + 4 := ?m (a + 4)))(?next := (?m(?next + 4 := ?m (a + 4))) a - r - 8)"
    by simp
  define s1 where "s1 = relink ?prev ?next (s\<lparr>ma_memory := m0\<rparr>)"
  define s' where "s' = s1\<lparr>ma_memory := (ma_memory s1)(a + 4 := 0, a := r)\<rparr>"
  have eq: "MemoryAllocator_split s ?prev a sz = Inr (a + 8, s')"
    unfolding split_eq[OF aligned] s'_def s1_def m0 r_def Let_def ..
  have prev: "?prev = 0 \<longleftrightarrow> free_blocks xs = []"
    using last_free_previous(2)[OF links] by auto
  define m' where "m' = (if ?prev = 0 then m0 else m0(?prev + 4 := ?next))(a + 4 := 0, a := r)"
  have s': "ma_memory s' = m'" "ma_m_freelist s' = (if ?prev = 0 then ?next else ma_m_freelist s)"
    "ma_m_heap_data s' = ma_m_heap_data s" "ma_m_heap_size s' = ma_m_heap_size s"
    by (simp_all add: s'_def s1_def m'_def)
  have nextA: "?next \<noteq> a" "?next + 4 \<noteq> a" "?next \<noteq> a + 4" "?next + 4 \<noteq> a + 4"
    using headers_apart[of a ?next] next' B(1) R(4) by auto
  have otherN: "b_addr c \<noteq> ?next" "b_addr c \<noteq> ?next + 4" "b_addr c + 4 \<noteq> ?next"
    "b_addr c + 4 \<noteq> ?next + 4" if "c \<in> set xs \<union> set ys" for c
  proof -
    have "unat (b_addr c) + 8 \<le> unat ?next \<or> unat ?next + 8 \<le> unat (b_addr c)"
      using tiles_sep[OF D(1), of c] that next' R(4) by auto
    moreover have "unat (b_addr c) + 8 \<le> 2 ^ 32" "unat ?next + 8 \<le> 2 ^ 32"
      using block_bounds(1)[OF links, of c] that next' R(4) B(1) by auto
    ultimately show "b_addr c \<noteq> ?next" "b_addr c \<noteq> ?next + 4" "b_addr c + 4 \<noteq> ?next"
      "b_addr c + 4 \<noteq> ?next + 4"
      using headers_apart[of "b_addr c" ?next] headers_apart[of ?next "b_addr c"] by auto
  qed
  have apart: "b_addr c \<noteq> a" "b_addr c \<noteq> a + 4" "b_addr c + 4 \<noteq> a" "b_addr c + 4 \<noteq> a + 4"
    if "c \<in> set xs \<union> set ys" for c
    using block_apart[OF links that] by simp_all
  have prevB: "\<exists>d \<in> set xs. b_addr d = ?prev" if "?prev \<noteq> 0"
    using last_free_previous(1)[OF links] that by auto
  have prevN: "?prev + 4 \<noteq> ?next" "?prev + 4 \<noteq> ?next + 4" "?prev + 4 \<noteq> a" "?prev + 4 \<noteq> a + 4"
    "\<And>c. c \<in> set xs \<union> set ys \<Longrightarrow> b_addr c \<noteq> ?prev + 4" if nz: "?prev \<noteq> 0"
  proof -
    obtain d where d: "d \<in> set xs" "b_addr d = ?prev" using prevB[OF nz] by blast
    show "?prev + 4 \<noteq> ?next" "?prev + 4 \<noteq> ?next + 4" "?prev + 4 \<noteq> a" "?prev + 4 \<noteq> a + 4"
      using otherN[of d] apart[of d] d by simp_all
    fix c assume "c \<in> set xs \<union> set ys"
    then show "b_addr c \<noteq> ?prev + 4" using header_not_next[OF links, of c d] d by auto
  qed
  have size': "m' (b_addr c) = ?m (b_addr c)" if "c \<in> set xs \<union> set ys" for c
    using otherN[OF that] apart[OF that] prevN(5)[OF _ that] by (auto simp: m'_def m0)
  have next'': "m' (b_addr c + 4) = ?m (b_addr c + 4)"
    if "c \<in> set xs \<union> set ys" "b_addr c \<noteq> ?prev" for c
    using otherN[OF that(1)] apart[OF that(1)] that(2) by (auto simp: m'_def m0)
  have here: "m' a = r" "m' (a + 4) = 0" "m' ?next = n - r - 8" "m' (?next + 4) = ?m (a + 4)"
    using nextA prevN D(5)[of "(a, n, False)"] by (auto simp: m'_def m0 Node_defs)
  have tl: "lseg ?m (?m (a + 4)) (free_blocks ys) 0"
    using D(6) by (auto simp: lseg_append Node_defs)
  have "lseg m' (if free_blocks xs = [] then ?next else ma_m_freelist s)
          (free_blocks xs @ [?next] @ free_blocks ys) 0"
  proof (rule lseg_relinked[OF links next''])
    show "m' (?prev + 4) = ?next" if "free_blocks xs \<noteq> []"
      using prevN that prev by (simp add: m'_def)
    have "?next \<noteq> 0" using next' by (metis B(2) add_gr_0 fst_conv unat_gt_0)
    then show "lseg m' ?next [?next] (?m (a + 4))"
      using here by (simp add: Node_defs)
  qed (use tl in auto)
  then have list: "lseg (ma_memory s') (ma_m_freelist s') (free_blocks bs') 0"
    using prev by (simp add: s' bs'_def)
  have tiles': "tiles (unat (ma_m_heap_data s)) bs' (unat (ma_m_heap_data s) + unat (ma_m_heap_size s))"
  proof -
    have "4 dvd unat n - unat r - 8" using B(4) R(3) by (auto intro!: dvd_diff_nat)
    moreover have "unat ?next + 8 + unat (n - r - 8) = unat a + 8 + unat n"
      using next' rest R(4) by simp
    ultimately show ?thesis using D(1) R next' rest by (auto simp: bs'_def tiles_append ac_simps)
  qed
  have "coalesced bs'" and "\<not> b_used (last bs')"
    using I(3,4) unfolding bs'_def by (auto simp: coalesced_append coalesced_Cons split: if_splits)
  then have "heap_inv s' bs'"
    using D tiles' list size' here by (auto simp: heap_inv_def heap_links_def s' bs'_def Node_defs)
  moreover have "m' x = ?m x" if x: "x \<in> payload (xs @ ys)" for x
  proof -
    have "x \<in> payload (xs @ (a, n, False) # ys)" using x by (auto simp: payload_def)
    note hdr = payload_header[OF links this]
    have "unat x < unat a \<or> unat a + 8 + unat n \<le> unat x"
      using payload_outside[OF links x] by simp
    moreover have "unat (?next + 4) = unat ?next + 4"
      using next' B(1) R(4) by (simp add: unat_add_small)
    ultimately have "x \<noteq> ?next" "x \<noteq> ?next + 4" using next' R(4) by auto
    moreover have "x \<noteq> ?prev + 4" if "?prev \<noteq> 0"
      using prevB[OF that] hdr(2) by (metis UnI1 set_append)
    ultimately show ?thesis
      using hdr[of "(a, n, False)"] by (auto simp: m'_def m0)
  qed
  ultimately show ?thesis using eq s' by auto
qed

subsection \<open>What releasing does to the tiling\<close>

lemma heap_links_cong:
  assumes "heap_links s bs"
    and "ma_m_heap_data t = ma_m_heap_data s" "ma_m_heap_size t = ma_m_heap_size s"
    and "ma_m_freelist t = ma_m_freelist s"
    and "\<And>b. b \<in> set bs \<Longrightarrow> ma_memory t (b_addr b) = ma_memory s (b_addr b)"
    and "\<And>b. b \<in> set bs \<Longrightarrow> ma_memory t (b_addr b + 4) = ma_memory s (b_addr b + 4)"
  shows "heap_links t bs"
proof -
  have "lseg (ma_memory t) (ma_m_freelist s) (free_blocks bs) 0
      = lseg (ma_memory s) (ma_m_freelist s) (free_blocks bs) 0"
  proof (rule lseg_cong)
    fix x assume "x \<in> set (free_blocks bs)"
    then obtain b where "b \<in> set bs" and "b_addr b = x" using free_blocks_addr by blast
    then show "Node_m_next (ma_memory t) x = Node_m_next (ma_memory s) x"
      using assms(6)[of b] by (simp add: Node_defs)
  qed
  then show ?thesis using assms by (simp add: heap_links_def Node_defs)
qed

text \<open>First half of a release: the block joins the free list between its free neighbours.\<close>

lemma mark_free:
  assumes links: "heap_links s (xs @ (a, n, True) # ys)"
  defines "next \<equiv> hd (free_blocks ys @ [0])"
  shows "heap_links
     (relink (last (0 # free_blocks xs)) a (s\<lparr>ma_memory := (ma_memory s)(a + 4 := next)\<rparr>))
     (xs @ (a, n, False) # ys)"
proof -
  let ?prev = "last (0 # free_blocks xs)" and ?m = "ma_memory s"
  define t where "t = relink ?prev a (s\<lparr>ma_memory := ?m(a + 4 := next)\<rparr>)"
  define m' where "m' = (if ?prev = 0 then ?m(a + 4 := next) else (?m(a + 4 := next))(?prev + 4 := a))"
  have t: "ma_memory t = m'" "ma_m_freelist t = (if ?prev = 0 then a else ma_m_freelist s)"
    "ma_m_heap_data t = ma_m_heap_data s" "ma_m_heap_size t = ma_m_heap_size s"
    by (auto simp: t_def m'_def)
  note D = heap_linksD[OF links]
  have prev: "?prev = 0 \<longleftrightarrow> free_blocks xs = []"
    using last_free_previous(2)[OF links] by auto
  have prevB: "\<exists>d \<in> set xs. b_addr d = ?prev" if "?prev \<noteq> 0"
    using last_free_previous(1)[OF links] that by auto
  have a: "a \<noteq> 0" using block_bounds(2)[OF links, of "(a, n, True)"] by simp
  have sizes: "m' (b_addr c) = ?m (b_addr c)" if "c \<in> set (xs @ (a, n, True) # ys)" for c
    using header_not_next[OF links that, of "(a, n, True)"] header_not_next[OF links that] prevB
    by (fastforce simp: m'_def)
  have links': "m' (b_addr c + 4) = ?m (b_addr c + 4)"
    if "c \<in> set xs \<union> set ys" "b_addr c \<noteq> ?prev" for c
    using block_apart[OF links that(1)] that(2) by (auto simp: m'_def)
  have "?prev + 4 \<noteq> a + 4" if "?prev \<noteq> 0"
    using prevB[OF that] block_apart(4)[OF links] by fastforce
  then have na: "m' (a + 4) = next" by (auto simp: m'_def)
  have tl: "lseg ?m next (free_blocks ys) 0"
  proof -
    obtain q where q: "lseg ?m q (free_blocks ys) 0" using D(6) by (auto simp: lseg_append)
    then have "q = next" by (cases "free_blocks ys") (auto simp: next_def)
    with q show ?thesis by simp
  qed
  have "lseg m' (if free_blocks xs = [] then a else ma_m_freelist s)
          (free_blocks xs @ [a] @ free_blocks ys) 0"
    by (rule lseg_relinked[OF links links' _ _ tl]) (use prev na a in \<open>auto simp: m'_def Node_defs\<close>)
  then have "lseg m' (ma_m_freelist t) (free_blocks (xs @ (a, n, False) # ys)) 0"
    using prev by (simp add: t)
  moreover have "\<forall>b \<in> set (xs @ (a, n, False) # ys). m' (b_addr b) = b_size b"
    using sizes D(5) by force
  ultimately show ?thesis
    using D unfolding t_def[symmetric] by (simp add: heap_links_def t tiles_append Node_defs)
qed

text \<open>Second half: a free block swallows the free block right behind it.\<close>

definition merge_headers :: "uptr \<Rightarrow> uptr \<Rightarrow> memory \<Rightarrow> memory" where
  "merge_headers p q m = m(p := m p + (8 + m q), p + 4 := m (q + 4))"

lemma merge_correct:
  assumes links: "heap_links s (xs @ (p, j, False) # (q, k, False) # ys)"
  shows "heap_links (s\<lparr>ma_memory := merge_headers p q (ma_memory s)\<rparr>) (xs @ (p, j + 8 + k, False) # ys)"
proof -
  let ?m = "ma_memory s"
  define m' where "m' = merge_headers p q ?m"
  note D = heap_linksD[OF links]
  have sz: "?m p = j" "?m q = k" using D(5)[of "(p, j, False)"] D(5)[of "(q, k, False)"] by simp_all
  have adj: "unat q = unat p + 8 + unat j" using D(1) by (auto simp: tiles_append)
  have len: "unat (j + 8 + k) = unat j + 8 + unat k"
    using block_bounds(1)[OF links, of "(q, k, False)"] adj by (simp add: unat_add_small)
  have hdr: "m' (b_addr c) = ?m (b_addr c)" "m' (b_addr c + 4) = ?m (b_addr c + 4)"
    if "c \<in> set xs \<union> set ys" for c
    using block_apart[OF links, of c] that by (auto simp: m'_def merge_headers_def)
  have here: "m' p = j + 8 + k" "m' (p + 4) = ?m (q + 4)"
    unfolding m'_def merge_headers_def
    by (simp_all only: fun_upd_apply header_words_differ if_False if_True simp_thms sz ac_simps)
  obtain r where "lseg ?m (ma_m_freelist s) (free_blocks xs) p" and "p \<noteq> 0"
    and tl: "lseg ?m (?m (q + 4)) (free_blocks ys) 0"
    using D(6) by (auto simp: lseg_append Node_defs)
  moreover have "lseg m' u (free_blocks zs) v = lseg ?m u (free_blocks zs) v"
    if "set zs \<subseteq> set xs \<union> set ys" for u zs v
    using that hdr free_blocks_addr by (intro lseg_cong) (fastforce simp: Node_defs)
  ultimately have "lseg m' (ma_m_freelist s) (free_blocks (xs @ (p, j + 8 + k, False) # ys)) 0"
    using here by (auto simp: lseg_append Node_defs)
  moreover have "\<forall>b \<in> set (xs @ (p, j + 8 + k, False) # ys). m' (b_addr b) = b_size b"
    using hdr here D(5) by auto
  moreover have "4 dvd unat j" "4 dvd unat k"
    using block_bounds(4)[OF links, of "(p, j, False)"] block_bounds(4)[OF links, of "(q, k, False)"] by simp_all
  ultimately show ?thesis
    using D len adj unfolding m'_def[symmetric]
    by (auto simp: heap_links_def tiles_append Node_defs ac_simps)
qed

text \<open>The tiling after a release: the block takes in the free blocks that touch it.\<close>

definition absorb :: "block \<Rightarrow> block list \<Rightarrow> block list" where
  "absorb b ys =
     (case ys of
        [] \<Rightarrow> [b]
      | c # cs \<Rightarrow> if b_used c then b # ys else (b_addr b, b_size b + 8 + b_size c, b_used b) # cs)"

definition release_block :: "block list \<Rightarrow> uptr \<Rightarrow> usize \<Rightarrow> block list \<Rightarrow> block list" where
  "release_block xs a n ys =
     (if xs = [] \<or> b_used (last xs) then xs @ absorb (a, n, False) ys
      else butlast xs @ absorb (b_addr (last xs), b_size (last xs) + 8 + n, False) ys)"

lemma absorb_shape:
  assumes "coalesced ys" and "ys = [] \<or> \<not> b_used (last ys)" and "\<not> b_used b"
  shows "absorb b ys \<noteq> []" "\<not> b_used (hd (absorb b ys))" "coalesced (absorb b ys)"
    "\<not> b_used (last (absorb b ys))"
  using assms by (auto simp: absorb_def coalesced_Cons split: list.splits if_splits)

lemma coalesced_append2:
  "coalesced (bs @ cs) \<longleftrightarrow>
     coalesced bs \<and> coalesced cs \<and> (bs = [] \<or> cs = [] \<or> b_used (last bs) \<or> b_used (hd cs))"
  by (cases cs) (auto simp: coalesced_append)

lemma release_block_coalesced:
  assumes "coalesced (xs @ (a, n, True) # ys)" and "\<not> b_used (last (xs @ (a, n, True) # ys))"
  shows "release_block xs a n ys \<noteq> []" "coalesced (release_block xs a n ys)"
    "\<not> b_used (last (release_block xs a n ys))"
proof -
  have ys: "coalesced ys" "ys = [] \<or> \<not> b_used (last ys)" and xs: "coalesced xs"
    using assms by (auto simp: coalesced_append coalesced_Cons split: if_splits)
  have front: "coalesced (butlast xs)" "butlast xs = [] \<or> b_used (last (butlast xs))"
    if "xs \<noteq> []" "\<not> b_used (last xs)"
    using xs that by (cases xs rule: rev_cases; auto simp: coalesced_append)+
  note A = absorb_shape[OF ys, of "(a, n, False)", simplified]
    absorb_shape[OF ys, of "(b_addr (last xs), b_size (last xs) + 8 + n, False)", simplified]
  show "release_block xs a n ys \<noteq> []" "coalesced (release_block xs a n ys)"
    "\<not> b_used (last (release_block xs a n ys))"
    using A xs front by (auto simp: release_block_def coalesced_append2)
qed

lemma first_free_split:
  assumes "free_blocks ys \<noteq> []"
  obtains ms k zs where "ys = ms @ (hd (free_blocks ys), k, False) # zs" "\<forall>b \<in> set ms. b_used b"
  using assms
proof (induction ys arbitrary: thesis)
  case (Cons b ys)
  show ?case
  proof (cases "b_used b")
    case True
    then obtain ms k zs where "ys = ms @ (hd (free_blocks ys), k, False) # zs" "\<forall>b \<in> set ms. b_used b"
      using Cons.IH Cons.prems(2) by auto
    then show ?thesis using Cons.prems(1)[of "b # ms" k zs] True by simp
  next
    case False
    then show ?thesis using Cons.prems(1)[of "[]" "b_size b" ys] by (cases b) simp
  qed
qed simp

lemma last_free_split:
  assumes "free_blocks xs \<noteq> []"
  obtains ws j us where "xs = ws @ (last (free_blocks xs), j, False) # us" "\<forall>b \<in> set us. b_used b"
  using assms
proof (induction xs arbitrary: thesis rule: rev_induct)
  case (snoc b xs)
  show ?case
  proof (cases "b_used b")
    case True
    then obtain ws j us where "xs = ws @ (last (free_blocks xs), j, False) # us" "\<forall>b \<in> set us. b_used b"
      using snoc.IH snoc.prems(2) by auto
    then show ?thesis using snoc.prems(1)[of ws j "us @ [b]"] True by simp
  next
    case False
    then show ?thesis using snoc.prems(1)[of xs "b_size b" "[]"] by (cases b) simp
  qed
qed simp

lemma adjacent_iff:
  assumes "heap_links s (us @ b # ms @ c # zs)"
  shows "b_addr b + 8 + b_size b = b_addr c \<longleftrightarrow> ms = []"
proof -
  have "unat (b_addr b + 8 + b_size b) = unat (b_addr b) + 8 + unat (b_size b)"
    using block_bounds(1)[OF assms, of b] by (simp add: unat_add_small)
  moreover have "tiles (unat (b_addr b) + 8 + unat (b_size b)) ms (unat (b_addr c))"
    using heap_linksD(1)[OF assms] by (auto simp: tiles_append)
  ultimately show ?thesis
    using tiles_le[of "unat (b_addr b) + 8 + unat (b_size b)" ms "unat (b_addr c)"]
    by (cases ms) (auto simp: word_unat_eq_iff)
qed

lemma insert_frame:
  "x \<noteq> target \<Longrightarrow> x \<noteq> target + 4 \<Longrightarrow> (previous \<noteq> 0 \<Longrightarrow> x \<noteq> previous \<and> x \<noteq> previous + 4) \<Longrightarrow>
   ma_memory (MemoryAllocator_insert s previous entry target) x = ma_memory s x"
  by (cases "previous = 0") (simp_all add: MemoryAllocator_insert_def Let_def Node_defs)

lemma insert_keeps_heap [simp]:
  "ma_m_heap_data (MemoryAllocator_insert s previous entry target) = ma_m_heap_data s"
  "ma_m_heap_size (MemoryAllocator_insert s previous entry target) = ma_m_heap_size s"
  by (simp_all add: MemoryAllocator_insert_def Let_def)

lemma absorb_free: "ys = (e, k, False) # zs \<Longrightarrow> absorb (a, n, u) ys = (a, n + 8 + k, u) # zs"
  by (simp add: absorb_def)

lemma absorb_used:
  "ys = ms @ zs \<Longrightarrow> ms \<noteq> [] \<Longrightarrow> \<forall>b \<in> set ms. b_used b \<Longrightarrow> absorb b ys = b # ys"
  by (cases ms) (auto simp: absorb_def)

text \<open>Merging into the predecessor first and linking in between leave the same live words.\<close>

lemma merge_words:
  "p \<noteq> p4 \<Longrightarrow> p \<noteq> a \<Longrightarrow> p \<noteq> a4 \<Longrightarrow> p4 \<noteq> a \<Longrightarrow> p4 \<noteq> a4 \<Longrightarrow> a \<noteq> a4 \<Longrightarrow> x \<noteq> a4 \<Longrightarrow> m p4 = e \<Longrightarrow>
   ((m(a4 := e, p4 := a))(p := (m(a4 := e, p4 := a)) p + (8 + (m(a4 := e, p4 := a)) a),
      p4 := (m(a4 := e, p4 := a)) a4)) x = (m(p := m p + (8 + m a))) x" for m :: memory
  by simp

lemma insert_left_merge:
  assumes "previous \<noteq> 0" and "previous + 8 + ma_memory s previous = target"
  defines "m \<equiv> (ma_memory s)(previous := ma_memory s previous + (8 + ma_memory s target))"
  shows "MemoryAllocator_insert s previous entry target =
     s\<lparr>ma_memory := (if previous + 8 + m previous = entry then merge_headers previous entry m else m)\<rparr>"
  using assms by (simp add: MemoryAllocator_insert_def Let_def Node_defs merge_headers_def)

lemma insert_beside_used:
  assumes links: "heap_links s (xs @ (a, n, True) # ys)" and left: "xs = [] \<or> b_used (last xs)"
    and behind: "free_blocks ys \<noteq> []"
    and p: "p = last (0 # free_blocks xs)" and e: "e = hd (free_blocks ys)"
  shows "heap_links (MemoryAllocator_insert s p e a)
     (xs @ absorb (a, n, False) ys)"
proof -
  let ?m = "ma_memory s"
  define t where "t = relink p a (s\<lparr>ma_memory := ?m(a + 4 := e)\<rparr>)"
  have t: "heap_links t (xs @ (a, n, False) # ys)"
    using mark_free[OF links] behind by (simp add: t_def p e)
  obtain ms k zs where ys: "ys = ms @ (e, k, False) # zs" and ms: "\<forall>b \<in> set ms. b_used b"
    using first_free_split[OF behind] e by blast
  have right: "a + 8 + ?m a = e \<longleftrightarrow> ms = []"
  proof -
    have "?m a = n" using heap_linksD(5)[OF links, of "(a, n, True)"] by simp
    then show ?thesis
      using adjacent_iff[OF links[unfolded ys]] by (simp del: word_eq_numeral_iff_iszero)
  qed
  have notleft: "p + 8 + ?m p \<noteq> a" if "p \<noteq> 0"
  proof -
    have ne: "free_blocks xs \<noteq> []" using that p by auto
    then have "p = last (free_blocks xs)" by (simp add: p)
    with last_free_split[OF ne] obtain ws j us where xs: "xs = ws @ (p, j, False) # us"
      by metis
    then have "us \<noteq> []" using left by (auto split: if_splits)
    moreover have "(p, j, False) \<in> set (xs @ (a, n, True) # ys)"
      unfolding xs by simp
    then have "?m p = j" using heap_linksD(5)[OF links] by fastforce
    moreover have "heap_links s (ws @ (p, j, False) # us @ (a, n, True) # ys)"
      using links unfolding xs by simp
    from adjacent_iff[OF this] have "p + 8 + j = a \<longleftrightarrow> us = []" by simp
    ultimately show ?thesis by simp
  qed
  show ?thesis
  proof (cases "ms = []")
    case True
    have ek: "(e, k, False) \<in> set ys" using ys True by simp
    have ea: "e \<noteq> a" "e \<noteq> a + 4" "e + 4 \<noteq> a + 4" "e + 4 \<noteq> a"
      using block_apart[OF links, of "(e, k, False)"] ek by simp_all
    have pa: "p + 4 \<noteq> a" "p + 4 \<noteq> a + 4" "p + 4 \<noteq> e" "p + 4 \<noteq> e + 4" if nz: "p \<noteq> 0"
    proof -
      obtain d where d: "d \<in> set xs" "b_addr d = p"
        using last_free_previous(1)[OF links] nz p by (cases "free_blocks xs = []") auto
      show "p + 4 \<noteq> a" "p + 4 \<noteq> a + 4" using block_apart[OF links, of d] d by simp_all
      show "p + 4 \<noteq> e" using header_not_next[OF links, of "(e, k, False)" d] d ek by auto
      have "heap_links s ((xs @ [(a, n, True)]) @ (e, k, False) # zs)"
        using links ys True by simp
      from block_apart(4)[OF this, of d] d show "p + 4 \<noteq> e + 4" by simp
    qed
    have "heap_links (t\<lparr>ma_memory := merge_headers a e (ma_memory t)\<rparr>) (xs @ (a, n + 8 + k, False) # zs)"
      using merge_correct[of t xs a n e k zs] t ys True by simp
    moreover have "ma_memory (MemoryAllocator_insert s p e a) = merge_headers a e (ma_memory t)"
    proof (rule ext)
      fix x
      show "ma_memory (MemoryAllocator_insert s p e a) x = merge_headers a e (ma_memory t) x"
        using notleft right True pa ea
        by (cases "p = 0")
          (simp_all add: MemoryAllocator_insert_def Let_def Node_defs merge_headers_def t_def)
    qed
    moreover have "ma_m_freelist (MemoryAllocator_insert s p e a) = ma_m_freelist t"
      using notleft by (auto simp: MemoryAllocator_insert_def Let_def Node_defs t_def)
    moreover have "absorb (a, n, False) ys = (a, n + 8 + k, False) # zs"
      using ys True by (intro absorb_free) simp
    moreover have "ma_m_heap_data t = ma_m_heap_data s" "ma_m_heap_size t = ma_m_heap_size s"
      by (simp_all add: t_def)
    ultimately show ?thesis by (simp add: heap_links_def)
  next
    case False
    then have "absorb (a, n, False) ys = (a, n, False) # ys"
      using ms ys by (intro absorb_used) auto
    moreover have "MemoryAllocator_insert s p e a = t"
      using notleft right False
      by (auto simp: MemoryAllocator_insert_def Let_def Node_defs t_def relink_def)
    ultimately show ?thesis using t by simp
  qed
qed

lemma insert_beside_free:
  assumes links: "heap_links s (ws @ (p, j, False) # (a, n, True) # ys)"
    and behind: "free_blocks ys \<noteq> []" and e: "e = hd (free_blocks ys)"
  shows "heap_links (MemoryAllocator_insert s p e a) (ws @ absorb (p, j + 8 + n, False) ys)"
proof -
  let ?m = "ma_memory s"
  define t where "t = relink p a (s\<lparr>ma_memory := ?m(a + 4 := e)\<rparr>)"
  define u where "u = t\<lparr>ma_memory := merge_headers p a (ma_memory t)\<rparr>"
  define m1 where "m1 = ?m(p := ?m p + (8 + ?m a))"
  have p0: "p \<noteq> 0" using block_bounds(2)[OF links, of "(p, j, False)"] by simp
  have "heap_links t (ws @ (p, j, False) # (a, n, False) # ys)"
    using mark_free[of s "ws @ [(p, j, False)]" a n ys] links behind e by (simp add: t_def)
  then have u: "heap_links u (ws @ (p, j + 8 + n, False) # ys)"
    using merge_correct u_def by blast
  have m: "?m p = j" "?m a = n"
    using heap_linksD(5)[OF links, of "(p, j, False)"] heap_linksD(5)[OF links, of "(a, n, True)"]
    by simp_all
  have left: "p + 8 + ?m p = a"
    using adjacent_iff[of s ws "(p, j, False)" "[]" "(a, n, True)" ys] links m by simp
  have apart: "b_addr c \<noteq> a" "b_addr c \<noteq> a + 4" "b_addr c + 4 \<noteq> a" "b_addr c + 4 \<noteq> a + 4"
    if "c \<in> set (ws @ (p, j + 8 + n, False) # ys)" for c
    using that block_apart[of s "ws @ [(p, j, False)]" "(a, n, True)" ys c] links
      block_apart[of s "ws @ [(p, j, False)]" "(a, n, True)" ys "(p, j, False)"] by auto
  have pa: "p \<noteq> a" "p \<noteq> a + 4" "p + 4 \<noteq> a" "p + 4 \<noteq> a + 4"
    using apart[of "(p, j + 8 + n, False)"] by simp_all
  have pe: "?m (p + 4) = e"
    using heap_linksD(6)[OF links]
    by (cases "free_blocks ys") (use behind e in \<open>auto simp: lseg_append Node_defs\<close>)
  have mem: "ma_memory u x = m1 x" if "x \<noteq> a + 4" for x
  proof -
    have "ma_memory u = merge_headers p a (?m(a + 4 := e, p + 4 := a))"
      using p0 by (simp add: u_def t_def)
    then show ?thesis unfolding merge_headers_def m1_def
      by (simp only:) (rule merge_words; use pa pe that in simp)
  qed
  have u': "ma_m_heap_data u = ma_m_heap_data s" "ma_m_heap_size u = ma_m_heap_size s"
    "ma_m_freelist u = ma_m_freelist s"
    using p0 by (simp_all add: u_def t_def)
  have links1: "heap_links (s\<lparr>ma_memory := m1\<rparr>) (ws @ (p, j + 8 + n, False) # ys)"
    by (rule heap_links_cong[OF u]) (use apart mem u' in simp_all)
  obtain ms k zs where ys: "ys = ms @ (e, k, False) # zs" and ms: "\<forall>b \<in> set ms. b_used b"
    using first_free_split[OF behind] e by blast
  have m1p: "m1 p = j + 8 + n" by (simp add: m1_def m)
  have right: "p + 8 + m1 p = e \<longleftrightarrow> ms = []"
    using adjacent_iff[of u ws "(p, j + 8 + n, False)" ms "(e, k, False)" zs] u ys m1p by simp
  note ins = insert_left_merge[OF p0 left, of e, folded m1_def]
  show ?thesis
  proof (cases "ms = []")
    case True
    then have "absorb (p, j + 8 + n, False) ys = (p, j + 8 + n + 8 + k, False) # zs"
      using ys by (intro absorb_free) simp
    then show ?thesis
      using ins right True ys merge_correct[OF links1[unfolded ys True append_Nil]] by simp
  next
    case False
    then have "absorb (p, j + 8 + n, False) ys = (p, j + 8 + n, False) # ys"
      using ms ys by (intro absorb_used) auto
    then show ?thesis using ins right False links1 by simp
  qed
qed

lemma free_before: "heap_links s (xs @ b # ys) \<Longrightarrow> x \<in> set (free_blocks xs) \<Longrightarrow> x < b_addr b"
  using tiles_sep(1)[OF heap_linksD(1)] free_blocks_addr by (fastforce simp: word_less_nat_alt)

lemma free_behind: "heap_links s (xs @ b # ys) \<Longrightarrow> x \<in> set (free_blocks ys) \<Longrightarrow> b_addr b < x"
  using tiles_sep(2)[OF heap_linksD(1)] free_blocks_addr by (fastforce simp: word_less_nat_alt)

lemma fuel_enough: "heap_links s bs \<Longrightarrow> 8 * length (free_blocks bs) \<le> unat (ma_m_heap_size s)"
proof -
  assume "heap_links s bs"
  then have "8 * length bs \<le> unat (ma_m_heap_size s)"
    using tiles_le[OF heap_linksD(1)] by simp
  moreover have "length (free_blocks bs) \<le> length bs"
    by (simp add: free_blocks_def)
  ultimately show ?thesis by linarith
qed

text \<open>
  Releasing a used block: the walk stops at the first free block behind it (there is one, since
  the last block is free), so the fall-through that overwrites the head of the list is not reached.
\<close>

lemma deallocate_correct:
  assumes inv: "heap_inv s (xs @ (a, n, True) # ys)"
  shows "\<exists>s'. MemoryAllocator_deallocate s (a + 8) = Inr s' \<and>
     heap_inv s' (release_block xs a n ys) \<and> ma_m_heap_data s' = ma_m_heap_data s \<and>
     ma_m_heap_size s' = ma_m_heap_size s \<and>
     (\<forall>x \<in> payload (xs @ ys). ma_memory s' x = ma_memory s x)"
proof -
  note I = heap_invD[OF inv] and links = heap_invD(1)[OF inv]
  note B = block_bounds[OF links, of "(a, n, True)", simplified]
  have ys: "ys \<noteq> []" "\<not> b_used (last ys)" using I(3) by (auto split: if_splits)
  then have behind: "free_blocks ys \<noteq> []" by (cases ys rule: rev_cases) auto
  then obtain e es where e: "free_blocks ys = e # es" by (cases "free_blocks ys") auto
  let ?p = "last (0 # free_blocks xs)"
  define s' where "s' = MemoryAllocator_insert s ?p e a"
  have "unat (a + 8) = unat a + 8" using B(1) by (simp add: unat_add_small)
  then have "0 < unat (a + 8)" by simp
  then have "a + 8 \<noteq> 0" unfolding unat_gt_0 .
  moreover have "MemoryAllocator_deallocate_loop (unat (ma_m_heap_size s)) s 0 (ma_m_freelist s) a = Inr s'"
    unfolding s'_def
  proof (rule deallocate_loop_find)
    show "lseg (ma_memory s) (ma_m_freelist s) (free_blocks xs @ e # es) 0"
      using heap_linksD(6)[OF links] e by simp
    show "\<not> x > a" if "x \<in> set (free_blocks xs)" for x
      using free_before[OF links that] by simp
    show "e > a" using free_behind[OF links, of e] e by simp
    show "length (free_blocks xs) < unat (ma_m_heap_size s)"
      using fuel_enough[OF links] e by simp
  qed
  ultimately have eq: "MemoryAllocator_deallocate s (a + 8) = Inr s'"
    by (simp add: MemoryAllocator_deallocate_def Node_defs)
  have "heap_links s' (release_block xs a n ys)"
  proof (cases "xs = [] \<or> b_used (last xs)")
    case True
    then show ?thesis using insert_beside_used[OF links True behind refl] e
      by (simp add: release_block_def s'_def)
  next
    case False
    then obtain ws p j where xs: "xs = ws @ [(p, j, False)]"
      by (cases xs rule: rev_cases) auto
    have "heap_links s (ws @ (p, j, False) # (a, n, True) # ys)"
      using links unfolding xs by simp
    from insert_beside_free[OF this behind, of e] e
    have "heap_links (MemoryAllocator_insert s p e a) (ws @ absorb (p, j + 8 + n, False) ys)"
      by simp
    moreover have "?p = p" unfolding xs by simp
    moreover have "release_block xs a n ys = ws @ absorb (p, j + 8 + n, False) ys"
      unfolding xs by (simp add: release_block_def)
    ultimately show ?thesis unfolding s'_def by (simp only:)
  qed
  then have "heap_inv s' (release_block xs a n ys)"
    using release_block_coalesced[OF I(4,3)] by (simp add: heap_inv_def)
  moreover have "ma_memory s' x = ma_memory s x" if x: "x \<in> payload (xs @ ys)" for x
  proof -
    have x': "x \<in> payload (xs @ (a, n, True) # ys)" using x by (auto simp: payload_def)
    have "x \<noteq> ?p \<and> x \<noteq> ?p + 4" if nz: "?p \<noteq> 0"
    proof -
      obtain d where "d \<in> set xs" "b_addr d = ?p"
        using last_free_previous(1)[OF links] nz by (cases "free_blocks xs = []") auto
      with payload_header[OF links x', of d] show ?thesis by simp
    qed
    then show ?thesis
      unfolding s'_def using payload_header[OF links x', of "(a, n, True)"]
      by (intro insert_frame) simp_all
  qed
  ultimately show ?thesis using eq by (auto simp: s'_def)
qed

subsection \<open>First fit over blocks: what the allocator promises\<close>

fun first_fit :: "usize \<Rightarrow> block list \<Rightarrow> (uptr \<times> block list) option" where
  "first_fit sz [] = None"
| "first_fit sz (b # bs) =
     (if \<not> b_used b \<and> unat sz + 8 \<le> unat (b_size b)
      then (let r = round_to_word sz in
            Some (b_addr b + 8,
                  (b_addr b, r, True) # (b_addr b + 8 + r, b_size b - r - 8, False) # bs))
      else map_option (\<lambda>(p, bs'). (p, b # bs')) (first_fit sz bs))"

definition release_at :: "uptr \<Rightarrow> block list \<Rightarrow> block list option" where
  "release_at a bs =
     (case dropWhile (\<lambda>b. b_addr b \<noteq> a) bs of
        [] \<Rightarrow> None
      | b # ys \<Rightarrow> if b_used b
                  then Some (release_block (takeWhile (\<lambda>b. b_addr b \<noteq> a) bs) a (b_size b) ys)
                  else None)"

lemma first_fit_None:
  "first_fit sz bs = None \<longleftrightarrow> (\<forall>b \<in> set bs. \<not> b_used b \<longrightarrow> \<not> unat sz + 8 \<le> unat (b_size b))"
  by (induction bs) (auto simp: Let_def)

lemma first_fit_Some:
  "first_fit sz bs = Some (ptr, bs') \<Longrightarrow>
   \<exists>xs a n ys. bs = xs @ (a, n, False) # ys \<and> unat sz + 8 \<le> unat n \<and> ptr = a + 8 \<and>
     bs' = xs @ (a, round_to_word sz, True) #
             (a + 8 + round_to_word sz, n - round_to_word sz - 8, False) # ys \<and>
     (\<forall>b \<in> set xs. \<not> b_used b \<longrightarrow> \<not> unat sz + 8 \<le> unat (b_size b))"
proof (induction bs arbitrary: bs')
  case (Cons b bs)
  show ?case
  proof (cases "\<not> b_used b \<and> unat sz + 8 \<le> unat (b_size b)")
    case True
    then show ?thesis using Cons.prems
      by (intro exI[of _ "[]"] exI[of _ "b_addr b"] exI[of _ "b_size b"] exI[of _ bs])
        (auto simp: Let_def prod_eq_iff)
  next
    case False
    then obtain bs'' where fit: "first_fit sz bs = Some (ptr, bs'')" and bs': "bs' = b # bs''"
      using Cons.prems by auto
    from Cons.IH[OF fit] obtain xs a n ys where
      "bs = xs @ (a, n, False) # ys" "unat sz + 8 \<le> unat n" "ptr = a + 8"
      "bs'' = xs @ (a, round_to_word sz, True) #
             (a + 8 + round_to_word sz, n - round_to_word sz - 8, False) # ys"
      "\<forall>b \<in> set xs. \<not> b_used b \<longrightarrow> \<not> unat sz + 8 \<le> unat (b_size b)" by blast
    then show ?thesis using False bs'
      by (intro exI[of _ "b # xs"] exI[of _ a] exI[of _ n] exI[of _ ys]) auto
  qed
qed simp

lemma release_at_Some:
  assumes "release_at a bs = Some bs'"
  shows "\<exists>xs n ys. bs = xs @ (a, n, True) # ys \<and> bs' = release_block xs a n ys"
proof -
  let ?P = "\<lambda>b. b_addr b \<noteq> a"
  obtain b ys where d: "dropWhile ?P bs = b # ys" and u: "b_used b"
    and bs': "bs' = release_block (takeWhile ?P bs) a (b_size b) ys"
    using assms by (auto simp: release_at_def split: list.splits if_splits)
  have "b_addr b = a" using d hd_dropWhile[of ?P bs] by simp
  then have "bs = takeWhile ?P bs @ (a, b_size b, True) # ys"
    using d u takeWhile_dropWhile_id[of ?P bs] by (cases b) auto
  with bs' show ?thesis by blast
qed

end
