(* ===== verification/Heap_Runs.thy ===== *)
theory Heap_Runs
  imports Memory_Allocator
begin

section \<open>Sequences of heap requests\<close>

text \<open>
  The allocator's guarantees over whole sequences of calls: it refines a first-fit allocator
  over a list of blocks, keeps the contents of everything that is allocated, and gets back to
  its initial state once everything is released.  The statistics and \<^verbatim>\<open>reallocate\<close> follow.
\<close>

subsection \<open>One request\<close>

lemma allocate_first_fit:
  assumes inv: "heap_inv s bs" and small: "unat sz + 8 < 2 ^ 32"
  shows "case first_fit sz bs of
      None \<Rightarrow> MemoryAllocator_allocate s sz = Inl VERIFY_NOT_REACHED
    | Some (ptr, bs') \<Rightarrow> \<exists>s'. MemoryAllocator_allocate s sz = Inr (ptr, s') \<and> heap_inv s' bs' \<and>
        ma_m_heap_data s' = ma_m_heap_data s \<and> ma_m_heap_size s' = ma_m_heap_size s \<and>
        (\<forall>x \<in> payload bs. ma_memory s' x = ma_memory s x)"
proof -
  note links = heap_invD(1)[OF inv]
  have fits: "Node_m_size (ma_memory s) (b_addr b) \<ge> sz + sizeof_Node
      \<longleftrightarrow> unat sz + 8 \<le> unat (b_size b)" if "b \<in> set bs" for b
    using heap_linksD(5)[OF links that] small
    by (simp add: Node_defs word_le_nat_alt unat_add_small)
  show ?thesis
  proof (cases "first_fit sz bs")
    case None
    have "MemoryAllocator_allocate s sz = Inl VERIFY_NOT_REACHED"
      unfolding MemoryAllocator_allocate_def
    proof (rule allocate_loop_exhausted[OF heap_linksD(6)[OF links]])
      fix x assume "x \<in> set (free_blocks bs)"
      then obtain b where "b \<in> set bs" "b_addr b = x" "\<not> b_used b" using free_blocks_addr by blast
      then show "\<not> Node_m_size (ma_memory s) x \<ge> sz + sizeof_Node"
        using fits None first_fit_None by blast
    qed (use fuel_enough[OF links] in linarith)
    with None show ?thesis by simp
  next
    case (Some r)
    obtain ptr bs' where r: "r = (ptr, bs')" by (cases r)
    from first_fit_Some[OF Some[unfolded r]] obtain xs a n ys where
      bs: "bs = xs @ (a, n, False) # ys" and fit: "unat sz + 8 \<le> unat n" and ptr: "ptr = a + 8"
      and bs': "bs' = xs @ (a, round_to_word sz, True) #
             (a + 8 + round_to_word sz, n - round_to_word sz - 8, False) # ys"
      and before: "\<forall>b \<in> set xs. \<not> b_used b \<longrightarrow> \<not> unat sz + 8 \<le> unat (b_size b)" by blast
    have "MemoryAllocator_allocate s sz = MemoryAllocator_split s (last (0 # free_blocks xs)) a sz"
      unfolding MemoryAllocator_allocate_def
    proof (rule allocate_loop_find)
      show "lseg (ma_memory s) (ma_m_freelist s) (free_blocks xs @ a # free_blocks ys) 0"
        using heap_linksD(6)[OF links] bs by simp
      fix x assume "x \<in> set (free_blocks xs)"
      then obtain b where "b \<in> set xs" "b_addr b = x" "\<not> b_used b" using free_blocks_addr by blast
      then show "\<not> Node_m_size (ma_memory s) x \<ge> sz + sizeof_Node"
        using fits[of b] before bs by auto
    next
      show "Node_m_size (ma_memory s) a \<ge> sz + sizeof_Node"
        using fits[of "(a, n, False)"] fit bs by auto
      show "length (free_blocks xs) < unat (ma_m_heap_size s)"
        using fuel_enough[OF links] bs by simp
    qed
    moreover have "payload bs = payload (xs @ ys)" by (auto simp: bs payload_def)
    ultimately show ?thesis
      using split_correct[OF inv[unfolded bs] fit] Some r ptr bs' by simp
  qed
qed

subsection \<open>Runs\<close>

datatype heap_request = Allocate usize | Release uptr

definition block_step :: "heap_request \<Rightarrow> block list \<Rightarrow> (uptr \<times> block list) option" where
  "block_step r bs =
     (case r of
        Allocate sz \<Rightarrow> first_fit sz bs
      | Release ptr \<Rightarrow> map_option (Pair 0) (release_at (ptr - 8) bs))"

definition heap_step :: "heap_request \<Rightarrow> MemoryAllocator \<Rightarrow> (uptr \<times> MemoryAllocator) outcome" where
  "heap_step r s =
     (case r of
        Allocate sz \<Rightarrow> MemoryAllocator_allocate s sz
      | Release ptr \<Rightarrow> bindE (MemoryAllocator_deallocate s ptr) (\<lambda>s. Inr (0, s)))"

fun run_blocks :: "heap_request list \<Rightarrow> block list \<Rightarrow> (uptr list \<times> block list) option" where
  "run_blocks [] bs = Some ([], bs)"
| "run_blocks (r # rs) bs =
     (case block_step r bs of
        None \<Rightarrow> None
      | Some (p, bs) \<Rightarrow> map_option (\<lambda>(ps, bs). (p # ps, bs)) (run_blocks rs bs))"

fun run_heap :: "heap_request list \<Rightarrow> MemoryAllocator \<Rightarrow> (uptr list \<times> MemoryAllocator) outcome" where
  "run_heap [] s = Inr ([], s)"
| "run_heap (r # rs) s =
     bindE (heap_step r s) (\<lambda>(p, s). bindE (run_heap rs s) (\<lambda>(ps, s). Inr (p # ps, s)))"

fun request_small :: "heap_request \<Rightarrow> bool" where
  "request_small (Allocate sz) = (unat sz + 8 < 2 ^ 32)"
| "request_small (Release ptr) = True"

lemma heap_step_refines:
  assumes inv: "heap_inv s bs" and small: "request_small r"
    and step: "block_step r bs = Some (p, bs')"
  shows "\<exists>s'. heap_step r s = Inr (p, s') \<and> heap_inv s' bs' \<and>
     ma_m_heap_data s' = ma_m_heap_data s \<and> ma_m_heap_size s' = ma_m_heap_size s \<and>
     (\<forall>b \<in> set bs. b_used b \<and> r \<noteq> Release (b_addr b + 8) \<longrightarrow> b \<in> set bs' \<and>
        (\<forall>x. unat (b_addr b) + 8 \<le> unat x \<and> unat x < unat (b_addr b) + 8 + unat (b_size b) \<longrightarrow>
             ma_memory s' x = ma_memory s x))"
proof (cases r)
  case (Allocate sz)
  with step have fit: "first_fit sz bs = Some (p, bs')" by (simp add: block_step_def)
  from first_fit_Some[OF this] have keep: "\<forall>b \<in> set bs. b_used b \<longrightarrow> b \<in> set bs'" by auto
  from allocate_first_fit[OF inv, of sz] fit small Allocate obtain s' where
    "MemoryAllocator_allocate s sz = Inr (p, s')" "heap_inv s' bs'"
    "ma_m_heap_data s' = ma_m_heap_data s" "ma_m_heap_size s' = ma_m_heap_size s"
    "\<forall>x \<in> payload bs. ma_memory s' x = ma_memory s x" by auto
  with keep show ?thesis
    by (intro exI[of _ s']) (fastforce simp: heap_step_def Allocate payload_def)
next
  case (Release ptr)
  with step obtain rel: "release_at (ptr - 8) bs = Some bs'" and p: "p = 0"
    by (auto simp: block_step_def)
  from release_at_Some[OF rel] obtain xs n ys where bs: "bs = xs @ (ptr - 8, n, True) # ys"
    and bs': "bs' = release_block xs (ptr - 8) n ys" by blast
  from deallocate_correct[OF inv[unfolded bs]] obtain s' where s':
    "MemoryAllocator_deallocate s ptr = Inr s'" "heap_inv s' bs'"
    "ma_m_heap_data s' = ma_m_heap_data s" "ma_m_heap_size s' = ma_m_heap_size s"
    and same: "\<forall>x \<in> payload (xs @ ys). ma_memory s' x = ma_memory s x" by (auto simp: bs')
  have other: "b \<in> set xs \<union> set ys" if "b \<in> set bs" "r \<noteq> Release (b_addr b + 8)" for b
    using that by (auto simp: bs Release)
  have keep: "b \<in> set bs'" if "b \<in> set xs \<union> set ys" "b_used b" for b
  proof -
    have "b \<in> set (absorb c ys)" if "b \<in> set ys" for c
      using that \<open>b_used b\<close> by (auto simp: absorb_def split: list.splits)
    moreover have "b \<in> set (butlast xs)" if "b \<in> set xs" "\<not> b_used (last xs)"
      using that \<open>b_used b\<close> by (cases xs rule: rev_cases) auto
    ultimately show ?thesis using that by (auto simp: bs' release_block_def)
  qed
  have frame: "ma_memory s' x = ma_memory s x"
    if "b \<in> set xs \<union> set ys" "b_used b" "unat (b_addr b) + 8 \<le> unat x"
      "unat x < unat (b_addr b) + 8 + unat (b_size b)" for b x
    using same that by (auto simp: payload_def)
  have "b \<in> set bs' \<and> (\<forall>x. unat (b_addr b) + 8 \<le> unat x \<and>
      unat x < unat (b_addr b) + 8 + unat (b_size b) \<longrightarrow> ma_memory s' x = ma_memory s x)"
    if "b \<in> set bs" "b_used b" "r \<noteq> Release (b_addr b + 8)" for b
    using keep frame other that by metis
  with s' p show ?thesis by (auto simp: heap_step_def Release)
qed

lemma run_heap_refines:
  "heap_inv s bs \<Longrightarrow> \<forall>r \<in> set rs. request_small r \<Longrightarrow> run_blocks rs bs = Some (ps, bs') \<Longrightarrow>
   \<exists>s'. run_heap rs s = Inr (ps, s') \<and> heap_inv s' bs' \<and>
     ma_m_heap_data s' = ma_m_heap_data s \<and> ma_m_heap_size s' = ma_m_heap_size s \<and>
     (\<forall>b \<in> set bs. b_used b \<and> Release (b_addr b + 8) \<notin> set rs \<longrightarrow> b \<in> set bs' \<and>
        (\<forall>x. unat (b_addr b) + 8 \<le> unat x \<and> unat x < unat (b_addr b) + 8 + unat (b_size b) \<longrightarrow>
             ma_memory s' x = ma_memory s x))"
proof (induction rs arbitrary: s bs ps)
  case (Cons r rs)
  from Cons.prems(3) obtain p bs1 ps1 where step: "block_step r bs = Some (p, bs1)"
    and run: "run_blocks rs bs1 = Some (ps1, bs')" and ps: "ps = p # ps1"
    by (auto split: option.splits)
  from heap_step_refines[OF Cons.prems(1) _ step] Cons.prems(2) obtain s1 where
    s1: "heap_step r s = Inr (p, s1)" "heap_inv s1 bs1"
    "ma_m_heap_data s1 = ma_m_heap_data s" "ma_m_heap_size s1 = ma_m_heap_size s"
    and f1: "\<And>b x. b \<in> set bs \<Longrightarrow> b_used b \<Longrightarrow> r \<noteq> Release (b_addr b + 8) \<Longrightarrow> b \<in> set bs1"
    "\<And>b x. b \<in> set bs \<Longrightarrow> b_used b \<Longrightarrow> r \<noteq> Release (b_addr b + 8) \<Longrightarrow>
       unat (b_addr b) + 8 \<le> unat x \<Longrightarrow> unat x < unat (b_addr b) + 8 + unat (b_size b) \<Longrightarrow>
       ma_memory s1 x = ma_memory s x" by auto
  from Cons.IH[OF s1(2) _ run] Cons.prems(2) obtain s2 where
    s2: "run_heap rs s1 = Inr (ps1, s2)" "heap_inv s2 bs'"
    "ma_m_heap_data s2 = ma_m_heap_data s1" "ma_m_heap_size s2 = ma_m_heap_size s1"
    and f2: "\<And>b. b \<in> set bs1 \<Longrightarrow> b_used b \<Longrightarrow> Release (b_addr b + 8) \<notin> set rs \<Longrightarrow> b \<in> set bs'"
    "\<And>b x. b \<in> set bs1 \<Longrightarrow> b_used b \<Longrightarrow> Release (b_addr b + 8) \<notin> set rs \<Longrightarrow>
       unat (b_addr b) + 8 \<le> unat x \<Longrightarrow> unat x < unat (b_addr b) + 8 + unat (b_size b) \<Longrightarrow>
       ma_memory s2 x = ma_memory s1 x" by auto
  have "run_heap (r # rs) s = Inr (ps, s2)" using s1(1) s2(1) ps by simp
  moreover have "b \<in> set bs' \<and> (\<forall>x. unat (b_addr b) + 8 \<le> unat x \<and>
      unat x < unat (b_addr b) + 8 + unat (b_size b) \<longrightarrow> ma_memory s2 x = ma_memory s x)"
    if "b \<in> set bs" "b_used b" "Release (b_addr b + 8) \<notin> set (r # rs)" for b
    using f1[of b] f2[of b] that by auto
  ultimately show ?case using s1(3,4) s2 by auto
qed simp

lemma new_heap_inv:
  assumes "heap_data \<noteq> 0" and "4 dvd unat heap_data" and "4 dvd unat heap_size"
    and "8 \<le> unat heap_size" and "unat heap_data + unat heap_size < 2 ^ 32"
  shows "heap_inv (MemoryAllocator_new heap_data heap_size m) [(heap_data, heap_size - 8, False)]"
proof -
  have sz: "unat (heap_size - 8) = unat heap_size - 8" using assms(4) by (simp add: unat_sub_small)
  moreover have "4 dvd unat heap_size - 8" using assms(3) by (intro dvd_diff_nat) auto
  ultimately show ?thesis
    using assms by (simp add: heap_inv_def heap_links_def MemoryAllocator_new_def Node_defs)
qed

subsection \<open>Properties of runs\<close>

text \<open>
  C1. The heap allocator refines first-fit allocation over a list of blocks: every sequence of
  allocations, each of fewer than \<open>2 ^ 32 - 8\<close> bytes, and releases that the list of blocks admits
  (a free block has room for each allocation, only what is allocated is released) succeeds on the
  free list kept inside the heap, hands out the same pointers and ends in a heap that the resulting blocks tile, with
  intact headers, the free list in address order and no two neighbouring free blocks.
\<close>

theorem MemoryAllocator_refines_first_fit:
  assumes "heap_data \<noteq> 0" and "4 dvd unat heap_data" and "4 dvd unat heap_size"
    and "8 \<le> unat heap_size" and "unat heap_data + unat heap_size < 2 ^ 32"
    and "\<forall>r \<in> set rs. request_small r"
    and "run_blocks rs [(heap_data, heap_size - 8, False)] = Some (ps, bs)"
  shows "\<exists>s. run_heap rs (MemoryAllocator_new heap_data heap_size m) = Inr (ps, s) \<and> heap_inv s bs"
  using run_heap_refines[OF new_heap_inv[OF assms(1-5)] assms(6,7)] by blast

lemma example_run:
  "run_blocks [Allocate 16, Allocate 5, Release 0x1008, Allocate 3] [(0x1000, 0xF8, False)]
     = Some ([0x1008, 0x1020, 0, 0x1008],
         [(0x1000, 4, True), (0x100C, 4, False), (0x1018, 8, True), (0x1028, 0xD0, False)])"
  by code_simp

theorem MemoryAllocator_refines_first_fit_witness:
  "\<exists>s. run_heap [Allocate 16, Allocate 5, Release 0x1008, Allocate 3]
         (MemoryAllocator_new 0x1000 0x100 (\<lambda>_. 0)) = Inr ([0x1008, 0x1020, 0, 0x1008], s) \<and>
       heap_inv s [(0x1000, 4, True), (0x100C, 4, False), (0x1018, 8, True), (0x1028, 0xD0, False)]"
  by (rule MemoryAllocator_refines_first_fit) (simp_all add: example_run del: run_blocks.simps)

text \<open>
  C3. What is allocated stays: take any sequence of requests that the block list admits, with each
  allocation of fewer than \<open>2 ^ 32 - 8\<close> bytes (beyond, the size check wraps, as shown below).  A
  block that the sequence does not release is still allocated at its end, and each word of its
  data is what it was.
\<close>

theorem MemoryAllocator_keeps_live_data:
  assumes "heap_inv s bs" and "\<forall>r \<in> set rs. request_small r"
    and "run_blocks rs bs = Some (ps, bs')" and "run_heap rs s = Inr (qs, s')"
    and "(a, n, True) \<in> set bs" and "Release (a + 8) \<notin> set rs"
  shows "(a, n, True) \<in> set bs' \<and>
    (\<forall>x. unat a + 8 \<le> unat x \<and> unat x < unat a + 8 + unat n \<longrightarrow> ma_memory s' x = ma_memory s x)"
  using run_heap_refines[OF assms(1-3)] assms(4-6) by fastforce

lemma example_heap:
  "\<exists>s. MemoryAllocator_allocate (MemoryAllocator_new 0x1000 0x100 (\<lambda>_. 0)) 16 = Inr (0x1008, s) \<and>
       heap_inv s [(0x1000, 16, True), (0x1018, 0xE0, False)]"
proof -
  have new: "heap_inv (MemoryAllocator_new 0x1000 0x100 (\<lambda>_. 0)) [(0x1000, 0xF8, False)]"
    using new_heap_inv[of "0x1000" "0x100" "\<lambda>_. 0"] by simp
  have "first_fit 16 [(0x1000, 0xF8, False)] = Some (0x1008, [(0x1000, 16, True), (0x1018, 0xE0, False)])"
    by code_simp
  with allocate_first_fit[OF new, of 16] show ?thesis by auto
qed

theorem MemoryAllocator_keeps_live_data_witness:
  "\<exists>s s'. heap_inv s [(0x1000, 16, True), (0x1018, 0xE0, False)] \<and>
     run_heap [Allocate 5] s = Inr ([0x1020], s') \<and> ma_memory s' 0x100C = ma_memory s 0x100C"
proof -
  obtain s where s: "heap_inv s [(0x1000, 16, True), (0x1018, 0xE0, False)]"
    using example_heap by blast
  have run: "run_blocks [Allocate 5] [(0x1000, 16, True), (0x1018, 0xE0, False)]
      = Some ([0x1020], [(0x1000, 16, True), (0x1018, 8, True), (0x1028, 0xD0, False)])"
    by code_simp
  have small: "\<forall>r \<in> set [Allocate 5]. request_small r" by simp
  from run_heap_refines[OF s small run] obtain s' where s': "run_heap [Allocate 5] s = Inr ([0x1020], s')"
    by blast
  have "\<forall>x. unat (0x1000 :: u32) + 8 \<le> unat x \<and> unat x < unat (0x1000 :: u32) + 8 + unat (16 :: u32)
      \<longrightarrow> ma_memory s' x = ma_memory s x"
    using MemoryAllocator_keeps_live_data[OF s small run s', of "0x1000" 16] by simp
  then have "ma_memory s' 0x100C = ma_memory s 0x100C" by simp
  with s s' show ?thesis by blast
qed

lemma all_free_single:
  assumes "heap_inv s bs" and "\<forall>b \<in> set bs. \<not> b_used b"
  shows "bs = [(ma_m_heap_data s, ma_m_heap_size s - 8, False)]"
proof -
  note I = heap_invD[OF assms(1)]
  obtain b cs where bs: "bs = b # cs" using I(2) by (cases bs) auto
  have "cs = []" using I(4) assms(2) by (cases cs) (auto simp: bs)
  then have t: "unat (b_addr b) = unat (ma_m_heap_data s)"
    "unat (b_size b) + 8 = unat (ma_m_heap_size s)"
    using heap_linksD(1)[OF I(1)] by (auto simp: bs)
  then have "unat (ma_m_heap_size s - 8) = unat (b_size b)" by (simp add: unat_sub_small)
  then have "b_size b = ma_m_heap_size s - 8" by (simp add: word_unat_eq_iff)
  moreover have "b_addr b = ma_m_heap_data s" using t by (simp add: word_unat_eq_iff)
  ultimately show ?thesis using bs \<open>cs = []\<close> assms(2) by (cases b) simp
qed

text \<open>
  C7. No fragmentation survives: when an admitted sequence of requests, each allocation of fewer than
  \<open>2 ^ 32 - 8\<close> bytes, ends with nothing allocated,
  in whatever order the blocks were released, the heap is one free block of the initial size and
  the free list holds that block alone.
\<close>

theorem MemoryAllocator_release_all_restores:
  assumes "heap_data \<noteq> 0" and "4 dvd unat heap_data" and "4 dvd unat heap_size"
    and "8 \<le> unat heap_size" and "unat heap_data + unat heap_size < 2 ^ 32"
    and "\<forall>r \<in> set rs. request_small r"
    and "run_blocks rs [(heap_data, heap_size - 8, False)] = Some (ps, bs)"
    and "\<forall>b \<in> set bs. \<not> b_used b"
  shows "\<exists>s. run_heap rs (MemoryAllocator_new heap_data heap_size m) = Inr (ps, s) \<and>
    bs = [(heap_data, heap_size - 8, False)] \<and> ma_m_freelist s = heap_data \<and>
    Node_m_size (ma_memory s) heap_data = heap_size - 8 \<and> Node_m_next (ma_memory s) heap_data = 0"
proof -
  from run_heap_refines[OF new_heap_inv[OF assms(1-5), of m] assms(6,7)] obtain s where
    s: "run_heap rs (MemoryAllocator_new heap_data heap_size m) = Inr (ps, s)" "heap_inv s bs"
    "ma_m_heap_data s = heap_data" "ma_m_heap_size s = heap_size"
    by (auto simp: MemoryAllocator_new_def)
  then have bs: "bs = [(heap_data, heap_size - 8, False)]" using all_free_single[OF _ assms(8)] by blast
  with s show ?thesis by (auto simp: heap_inv_def heap_links_def)
qed

lemma example_release_run:
  "run_blocks [Allocate 16, Allocate 5, Allocate 32, Release 0x1008, Release 0x1030, Release 0x1020]
     [(0x1000, 0xF8, False)]
     = Some ([0x1008, 0x1020, 0x1030, 0, 0, 0], [(0x1000, 0xF8, False)])"
  by code_simp

theorem MemoryAllocator_release_all_restores_witness:
  "\<exists>s. run_heap [Allocate 16, Allocate 5, Allocate 32, Release 0x1008, Release 0x1030, Release 0x1020]
       (MemoryAllocator_new 0x1000 0x100 (\<lambda>_. 0)) = Inr ([0x1008, 0x1020, 0x1030, 0, 0, 0], s) \<and>
     [(0x1000 :: u32, 0xF8 :: u32, False)] = [(0x1000, 0x100 - 8, False)] \<and> ma_m_freelist s = 0x1000 \<and>
     Node_m_size (ma_memory s) 0x1000 = 0x100 - 8 \<and> Node_m_next (ma_memory s) 0x1000 = 0"
  by (rule MemoryAllocator_release_all_restores)
    (simp_all add: example_release_run del: run_blocks.simps)

subsection \<open>What a request gets, whatever its size\<close>

lemma wrapped_size: "unat (sz + 8 :: u32) = (unat sz + 8) mod 2 ^ 32"
  by (simp add: unat_word_ariths)

lemma block_data_aligned:
  assumes "heap_links s bs" and "b \<in> set bs"
  shows "Node_m_data (b_addr b) mod 4 = 0"
proof -
  note B = block_bounds[OF assms]
  have "unat (b_addr b + 8) = unat (b_addr b) + 8" using B(1) by (simp add: unat_add_small)
  then have "unat (b_addr b + 8) mod 4 = 0" using B(3) by (auto elim!: dvdE)
  then have "unat ((b_addr b + 8) mod 4) = 0" by (simp add: unat_mod_distrib)
  then show ?thesis by (simp add: Node_defs unat_eq_zero)
qed

text \<open>
  What \<^verbatim>\<open>allocate\<close> tests is \<^verbatim>\<open>size + sizeof(Node)\<close> modulo the word size; the first free block
  that passes this test is split, whatever the request.
\<close>

lemma allocate_takes_first:
  assumes inv: "heap_inv s (xs @ (a, n, False) # ys)"
    and fit: "(unat sz + 8) mod 2 ^ 32 \<le> unat n"
    and before: "\<forall>b \<in> set xs. b_used b \<or> unat (b_size b) < (unat sz + 8) mod 2 ^ 32"
  shows "MemoryAllocator_allocate s sz = MemoryAllocator_split s (last (0 # free_blocks xs)) a sz"
  unfolding MemoryAllocator_allocate_def
proof (rule allocate_loop_find)
  note links = heap_invD(1)[OF inv]
  have test: "Node_m_size (ma_memory s) (b_addr b) \<ge> sz + sizeof_Node \<longleftrightarrow>
      (unat sz + 8) mod 2 ^ 32 \<le> unat (b_size b)" if "b \<in> set (xs @ (a, n, False) # ys)" for b
    using heap_linksD(5)[OF links that] by (simp add: Node_defs word_le_nat_alt wrapped_size)
  show "lseg (ma_memory s) (ma_m_freelist s) (free_blocks xs @ a # free_blocks ys) 0"
    using heap_linksD(6)[OF links] by simp
  show "Node_m_size (ma_memory s) a \<ge> sz + sizeof_Node" using test[of "(a, n, False)"] fit by simp
  show "length (free_blocks xs) < unat (ma_m_heap_size s)" using fuel_enough[OF links] by simp
  fix x assume "x \<in> set (free_blocks xs)"
  then obtain b where "b \<in> set xs" "b_addr b = x" "\<not> b_used b" using free_blocks_addr by blast
  then show "\<not> Node_m_size (ma_memory s) x \<ge> sz + sizeof_Node"
    using test[of b] before by auto
qed

lemma allocate_outcome:
  assumes inv: "heap_inv s bs"
  shows "if \<forall>b \<in> set bs. b_used b \<or> unat (b_size b) < (unat sz + 8) mod 2 ^ 32
    then MemoryAllocator_allocate s sz = Inl VERIFY_NOT_REACHED
    else \<exists>r. MemoryAllocator_allocate s sz = Inr r"
proof -
  note links = heap_invD(1)[OF inv]
  let ?none = "\<lambda>b. b_used b \<or> unat (b_size b) < (unat sz + 8) mod 2 ^ 32"
  show ?thesis
  proof (cases "\<forall>b \<in> set bs. ?none b")
    case True
    have "MemoryAllocator_allocate s sz = Inl VERIFY_NOT_REACHED"
      unfolding MemoryAllocator_allocate_def
    proof (rule allocate_loop_exhausted[OF heap_linksD(6)[OF links]])
      fix x assume "x \<in> set (free_blocks bs)"
      then obtain b where b: "b \<in> set bs" "b_addr b = x" "\<not> b_used b" using free_blocks_addr by blast
      then show "\<not> Node_m_size (ma_memory s) x \<ge> sz + sizeof_Node"
        using heap_linksD(5)[OF links b(1)] True
        by (auto simp: Node_defs word_le_nat_alt wrapped_size)
    qed (use fuel_enough[OF links] in linarith)
    with True show ?thesis by simp
  next
    case False
    then obtain xs b ys where bs: "bs = xs @ b # ys" "\<not> ?none b" "\<forall>c \<in> set xs. ?none c"
      using split_list_first_prop[of bs "\<lambda>b. \<not> ?none b"] by auto
    obtain a n where b: "b = (a, n, False)" using bs(2) by (cases b) auto
    have "Node_m_data a mod 4 = 0"
      using block_data_aligned[OF links, of b] by (simp add: bs(1) b)
    then have "\<exists>r. MemoryAllocator_allocate s sz = Inr r"
      using allocate_takes_first[OF inv[unfolded bs(1) b], of sz] bs(2,3)
      by (simp add: b split_eq Let_def not_less)
    with False show ?thesis by auto
  qed
qed

lemma tiles_meet:
  "tiles st (xs @ b # ys) en \<Longrightarrow> tiles st cs en \<Longrightarrow> \<forall>x \<in> set xs. m (b_addr x) = b_size x \<Longrightarrow>
   \<forall>c \<in> set cs. m (b_addr c) = b_size c \<Longrightarrow> \<exists>c \<in> set cs. b_addr c = b_addr b"
proof (induction xs arbitrary: st cs)
  case Nil
  then have "st + 8 \<le> en" using tiles_le[of st "b # ys" en] by simp
  with Nil show ?case by (cases cs) (auto simp: word_unat_eq_iff)
next
  case (Cons x xs)
  then have "st + 8 \<le> en" using tiles_le[of st "x # xs @ b # ys" en] by simp
  with Cons.prems(2) obtain c ds where cs: "cs = c # ds" by (cases cs) auto
  with Cons.prems have "b_addr c = b_addr x" by (auto simp: word_unat_eq_iff)
  then have "b_size c = b_size x" using Cons.prems(3,4) by (auto simp: cs)
  then show ?case using Cons.IH[of "st + 8 + unat (b_size x)" ds] Cons.prems by (auto simp: cs)
qed

lemma round_to_word_last:
  "round_to_word 0xFFFFFFF8 = 0xFFFFFFF8"
  "round_to_word 0xFFFFFFF9 = 0xFFFFFFFC"
  "round_to_word 0xFFFFFFFA = 0xFFFFFFFC"
  "round_to_word 0xFFFFFFFB = 0xFFFFFFFC"
  "round_to_word 0xFFFFFFFC = 0xFFFFFFFC"
  "round_to_word 0xFFFFFFFD = 0"
  "round_to_word 0xFFFFFFFE = 0"
  "round_to_word 0xFFFFFFFF = 0"
  by code_simp+

lemma round_to_word_wrapped:
  assumes "2 ^ 32 \<le> unat sz + 8"
  shows "round_to_word sz = (if sz = 0xFFFFFFF8 then 0xFFFFFFF8 else if sz \<le> 0xFFFFFFFC then 0xFFFFFFFC else 0)"
proof -
  obtain k where k: "k < 8" "unat sz = 4294967288 + k"
    using assms unat_bound32[of sz] by (intro that[of "unat sz - 4294967288"]) (auto simp del: unat_bound32)
  have "of_nat (unat sz) = sz" by simp
  then have "sz = of_nat (4294967288 + k)" unfolding k(2) ..
  moreover have "k \<in> {0, 1, 2, 3, 4, 5, 6, 7}" using k(1) by auto
  ultimately show ?thesis
    by (auto simp: round_to_word_last)
qed

lemma wrapped_split_corrupts:
  assumes inv: "heap_inv s (xs @ (a, n, False) # ys)"
    and r: "round_to_word sz = 0xFFFFFFF8 \<or> round_to_word sz = 0xFFFFFFFC"
    and split: "MemoryAllocator_split s 0 a sz = Inr (a + 8, s')"
  shows "\<not> heap_inv s' cs"
proof
  assume new: "heap_inv s' cs"
  note links = heap_invD(1)[OF inv] and links' = heap_invD(1)[OF new]
  let ?r = "round_to_word sz"
  have al: "Node_m_data a mod 4 = 0" using block_data_aligned[OF links, of "(a, n, False)"] by simp
  have heap: "ma_m_heap_data s' = ma_m_heap_data s" "ma_m_heap_size s' = ma_m_heap_size s"
    and ma: "ma_memory s' a = ?r"
    and far: "\<And>x. x \<notin> {a, a + 4, a + 8 + ?r, a + 8 + ?r + 4} \<Longrightarrow> ma_memory s' x = ma_memory s x"
    using split by (auto simp: split_eq[OF al] Let_def)
  have near: "{a, a + 4, a + 8 + ?r, a + 8 + ?r + 4} \<subseteq> {a, a + 4, a + 8}"
    using r by (auto simp: add.assoc)
  have a8: "unat a + 8 < 2 ^ 32" using block_bounds(1)[OF links, of "(a, n, False)"] by simp
  have "ma_memory s' (b_addr x) = b_size x" if x: "x \<in> set xs" for x
  proof -
    have "unat (b_addr x) < unat a" using tiles_sep(1)[OF heap_linksD(1)[OF links] x] by simp
    then have "b_addr x \<notin> {a, a + 4, a + 8}" using a8 by (auto simp: unat_add_small)
    then have "b_addr x \<notin> {a, a + 4, a + 8 + ?r, a + 8 + ?r + 4}" using near by blast
    from far[OF this] show ?thesis using heap_linksD(5)[OF links, of x] x by simp
  qed
  then obtain c where c: "c \<in> set cs" "b_addr c = a"
    using tiles_meet[OF heap_linksD(1)[OF links] heap_linksD(1)[OF links', unfolded heap], of "ma_memory s'"]
      heap_linksD(5)[OF links'] by auto
  have "b_size c = ?r" using ma heap_linksD(5)[OF links' c(1)] c(2) by simp
  then show False using r block_bounds(1)[OF links' c(1)] by auto
qed

text \<open>
  C8. Allocation of any size fails exactly when no free block has \<^verbatim>\<open>size + sizeof(Node)\<close> bytes, the
  sum taken modulo \<open>2 ^ 32\<close> as the code computes it, and then it crashes: \<^verbatim>\<open>allocate\<close> never returns
  null and has no other way to fail.
\<close>

theorem MemoryAllocator_allocate_crashes_iff:
  assumes "heap_inv s bs"
  shows "(MemoryAllocator_allocate s sz = Inl VERIFY_NOT_REACHED \<longleftrightarrow>
      (\<forall>b \<in> set bs. b_used b \<or> unat (b_size b) < (unat sz + 8) mod 2 ^ 32)) \<and>
    (\<forall>c. MemoryAllocator_allocate s sz = Inl c \<longrightarrow> c = VERIFY_NOT_REACHED)"
  using allocate_outcome[OF assms, of sz] by (auto split: if_splits)

theorem MemoryAllocator_allocate_crashes_iff_witness:
  "MemoryAllocator_allocate (MemoryAllocator_new 0x1000 0x40 (\<lambda>_. 0)) 0x31 = Inl VERIFY_NOT_REACHED"
proof -
  have "heap_inv (MemoryAllocator_new 0x1000 0x40 (\<lambda>_. 0)) [(0x1000, 0x38, False)]"
    using new_heap_inv[of "0x1000" "0x40" "\<lambda>_. 0"] by simp
  from MemoryAllocator_allocate_crashes_iff[OF this, of "0x31"] show ?thesis by simp
qed

text \<open>
  C9. The size check of \<^verbatim>\<open>allocate\<close> wraps for a request \<open>sz\<close> of at least \<open>2 ^ 32 - 8\<close> bytes: when the
  first free block has the \<open>sz + 8 - 2 ^ 32\<close> bytes (at most seven) that are left of the sum, it is
  handed out.  Its header then claims the rounded request and the free list starts right behind
  that many bytes, modulo the word size: up to \<open>2 ^ 32 - 4\<close> that is inside of the header or of the
  first word handed out and no list of blocks describes the heap any more; beyond, the rounded
  request is zero, the heap stays intact and the caller owns a block without a byte.
\<close>

theorem MemoryAllocator_allocate_wraps:
  assumes "heap_inv s bs" and "2 ^ 32 \<le> unat sz + 8" and "free_blocks bs = a # as"
    and "unat sz + 8 \<le> 2 ^ 32 + unat (Node_m_size (ma_memory s) a)"
  shows "\<exists>s'. MemoryAllocator_allocate s sz = Inr (a + 8, s') \<and>
    Node_m_size (ma_memory s') a = round_to_word sz \<and>
    ma_m_freelist s' = a + 8 + round_to_word sz \<and>
    ((\<exists>cs. heap_inv s' cs) \<longleftrightarrow> 0xFFFFFFFC < sz)"
proof -
  note links = heap_invD(1)[OF assms(1)]
  from assms(3) obtain xs n ys where bs: "bs = xs @ (a, n, False) # ys" and used: "\<forall>b \<in> set xs. b_used b"
    using first_free_split[of bs] by (metis list.distinct(1) list.sel(1))
  have n: "Node_m_size (ma_memory s) a = n" using heap_linksD(5)[OF links, of "(a, n, False)"] bs
    by (simp add: Node_defs)
  have none: "free_blocks xs = []" using used by (simp add: free_blocks_def)
  have "(unat sz + 8) mod 2 ^ 32 = unat sz + 8 - 2 ^ 32"
    using assms(2) unat_bound32[of sz] by (subst mod_if) (simp del: unat_bound32)
  then have fit: "(unat sz + 8) mod 2 ^ 32 \<le> unat n" using assms(4) n by simp
  have alloc: "MemoryAllocator_allocate s sz = MemoryAllocator_split s 0 a sz"
    using allocate_takes_first[OF assms(1)[unfolded bs] fit] used none by simp
  have al: "Node_m_data a mod 4 = 0" using block_data_aligned[OF links, of "(a, n, False)"] bs by simp
  obtain s' where s': "MemoryAllocator_split s 0 a sz = Inr (a + 8, s')" "ma_memory s' a = round_to_word sz"
    "ma_m_freelist s' = a + 8 + round_to_word sz"
    by (simp add: split_eq[OF al] Let_def)
  note R = round_to_word_wrapped[OF assms(2)]
  have "(\<exists>cs. heap_inv s' cs) \<longleftrightarrow> 0xFFFFFFFC < sz"
  proof (cases "0xFFFFFFFC < sz")
    case True
    then have r: "round_to_word sz = round_to_word 0" using R by (auto simp: round_to_word_def)
    then have "MemoryAllocator_split s 0 a 0 = Inr (a + 8, s')" using s'(1) by (simp add: MemoryAllocator_split_def)
    moreover have "8 \<le> unat n"
    proof -
      have "4 dvd unat n" using block_bounds(4)[OF links, of "(a, n, False)"] bs by simp
      moreover have "0xFFFFFFFC < unat sz" using True by (simp add: word_less_nat_alt)
      ultimately show ?thesis using assms(4) n by (auto elim!: dvdE)
    qed
    ultimately show ?thesis
      using split_correct[OF assms(1)[unfolded bs], of 0] none True by auto
  next
    case False
    then have "round_to_word sz = 0xFFFFFFF8 \<or> round_to_word sz = 0xFFFFFFFC" using R by auto
    from wrapped_split_corrupts[OF assms(1)[unfolded bs] this s'(1)] False show ?thesis by blast
  qed
  with alloc s' show ?thesis by (simp add: Node_defs)
qed

theorem MemoryAllocator_allocate_wraps_witness:
  "\<exists>s'. MemoryAllocator_allocate (MemoryAllocator_new 0x1000 0x40 (\<lambda>_. 0)) 0xFFFFFFFC = Inr (0x1008, s') \<and>
    Node_m_size (ma_memory s') 0x1000 = 0xFFFFFFFC \<and> ma_m_freelist s' = 0x1004 \<and>
    (\<forall>cs. \<not> heap_inv s' cs)"
proof -
  have new: "heap_inv (MemoryAllocator_new 0x1000 0x40 (\<lambda>_. 0)) [(0x1000, 0x38, False)]"
    using new_heap_inv[of "0x1000" "0x40" "\<lambda>_. 0"] by simp
  have head: "(0x1000 :: u32) + 8 + 0xFFFFFFFC = 0x1004" by code_simp
  show ?thesis
    using MemoryAllocator_allocate_wraps[OF new, of "0xFFFFFFFC" "0x1000" "[]", unfolded round_to_word_last head]
    by (simp add: MemoryAllocator_new_def Node_defs)
qed

subsection \<open>Statistics and reallocation\<close>

lemma statistics_loop_sums:
  "lseg m p as 0 \<Longrightarrow> length as \<le> fuel \<Longrightarrow>
   MemoryAllocator_statistics_loop fuel m p st = Inr
     (st\<lparr>st_m_avaliable_memory := st_m_avaliable_memory st + sum_list (map m as),
         st_m_largest_continous_block := fold max (map m as) (st_m_largest_continous_block st)\<rparr>)"
proof (induction as arbitrary: p fuel st)
  case Nil
  then show ?case by (subst MemoryAllocator_statistics_loop.simps) simp
next
  case (Cons a as)
  have "(if m a > st_m_largest_continous_block st then m a else st_m_largest_continous_block st)
      = max (m a) (st_m_largest_continous_block st)" by (auto simp: max_def)
  then have upd: "(if m a > st_m_largest_continous_block st
       then st'\<lparr>st_m_largest_continous_block := m a\<rparr> else st')
     = st'\<lparr>st_m_largest_continous_block := max (m a) (st_m_largest_continous_block st)\<rparr>"
    if "st_m_largest_continous_block st' = st_m_largest_continous_block st" for st' :: Statistics
    using that by (auto simp: max_def not_less intro: antisym)
  show ?case
    using Cons.prems Cons.IH[of "Node_m_next m a" "fuel - 1"]
    by (subst MemoryAllocator_statistics_loop.simps) (auto simp: Let_def Node_m_size_def upd add.assoc)
qed

lemma tiles_sum: "tiles st bs en \<Longrightarrow> st + (\<Sum>b\<leftarrow>bs. 8 + unat (b_size b)) = en"
  by (induction bs arbitrary: st) fastforce+

lemma unat_sum_list:
  "(\<Sum>x\<leftarrow>xs. unat (x :: u32)) < 2 ^ 32 \<Longrightarrow> unat (sum_list xs) = (\<Sum>x\<leftarrow>xs. unat x)"
  by (induction xs) (simp_all add: unat_add_small)

lemma unat_fold_max: "unat (fold max xs (x :: u32)) = fold max (map unat xs) (unat x)"
proof (induction xs arbitrary: x)
  case (Cons y xs)
  have "unat (max y x) = max (unat y) (unat x)" by (simp add: max_def word_le_nat_alt)
  with Cons show ?case by simp
qed simp

lemma Max_set_zero: "xs \<noteq> [] \<Longrightarrow> Max (set (0 # xs)) = Max (set (xs :: nat list))"
  by simp

text \<open>
  C10. The statistics are exact: on every heap that the allocator can reach, \<^verbatim>\<open>statistics\<close> reports
  the sum of the free blocks' sizes, which does not overflow, and the size of the largest one.
\<close>

theorem MemoryAllocator_statistics_exact:
  assumes "heap_inv s bs"
  shows "\<exists>st. MemoryAllocator_statistics s = Inr st \<and>
    unat (st_m_avaliable_memory st) = (\<Sum>b\<leftarrow>filter (\<lambda>b. \<not> b_used b) bs. unat (b_size b)) \<and>
    unat (st_m_largest_continous_block st) =
      Max (set (map (\<lambda>b. unat (b_size b)) (filter (\<lambda>b. \<not> b_used b) bs)))"
proof -
  note links = heap_invD(1)[OF assms]
  let ?free = "filter (\<lambda>b. \<not> b_used b) bs"
  have sizes: "map (ma_memory s) (free_blocks bs) = map b_size ?free"
    using heap_linksD(5)[OF links] by (simp add: free_blocks_def)
  have ne: "?free \<noteq> []" using heap_invD(2,3)[OF assms] by (auto simp: filter_empty_conv)
  have "(\<Sum>b\<leftarrow>?free. unat (b_size b)) \<le> (\<Sum>b\<leftarrow>bs. 8 + unat (b_size b))"
    by (induction bs) auto
  then have small: "(\<Sum>b\<leftarrow>?free. unat (b_size b)) < 2 ^ 32"
    using tiles_sum[OF heap_linksD(1)[OF links]] heap_linksD(2)[OF links] by linarith
  have "8 * length (free_blocks bs) \<le> unat (ma_m_heap_size s)" using fuel_enough[OF links] .
  then have "length (free_blocks bs) \<le> unat (ma_m_heap_size s)" by linarith
  from statistics_loop_sums[OF heap_linksD(6)[OF links] this]
  have "MemoryAllocator_statistics s = Inr
     \<lparr>st_m_largest_continous_block = fold max (map b_size ?free) 0,
      st_m_avaliable_memory = sum_list (map b_size ?free)\<rparr>"
    by (simp add: MemoryAllocator_statistics_def sizes)
  moreover have "unat (sum_list (map b_size ?free)) = (\<Sum>b\<leftarrow>?free. unat (b_size b))"
    using unat_sum_list[of "map b_size ?free"] small by (simp add: comp_def)
  moreover have "unat (fold max (map b_size ?free) 0) = Max (set (0 # map (\<lambda>b. unat (b_size b)) ?free))"
    unfolding Max.set_eq_fold by (simp add: unat_fold_max comp_def)
  moreover have "Max (set (0 # map (\<lambda>b. unat (b_size b)) ?free)) = Max (set (map (\<lambda>b. unat (b_size b)) ?free))"
    using ne by (intro Max_set_zero) simp
  ultimately show ?thesis by simp
qed

theorem MemoryAllocator_statistics_exact_witness:
  "\<exists>st. MemoryAllocator_statistics (MemoryAllocator_new 0x1000 0x40 (\<lambda>_. 0)) = Inr st \<and>
    unat (st_m_avaliable_memory st) =
      (\<Sum>b\<leftarrow>filter (\<lambda>b. \<not> b_used b) [(0x1000 :: u32, 0x38 :: u32, False)]. unat (b_size b)) \<and>
    unat (st_m_largest_continous_block st) =
      Max (set (map (\<lambda>b. unat (b_size b)) (filter (\<lambda>b. \<not> b_used b) [(0x1000 :: u32, 0x38 :: u32, False)])))"
proof (rule MemoryAllocator_statistics_exact)
  show "heap_inv (MemoryAllocator_new 0x1000 0x40 (\<lambda>_. 0)) [(0x1000, 0x38, False)]"
    using new_heap_inv[of "0x1000" "0x40" "\<lambda>_. 0"] by simp
qed

lemma word_offset:
  "unat (d :: u32) + 4 * i < 2 ^ 32 \<Longrightarrow> unat (d + 4 * of_nat i) = unat d + 4 * i"
proof -
  assume a: "unat d + 4 * i < 2 ^ 32"
  have "(4 :: u32) * of_nat i = of_nat (4 * i)" by simp
  moreover have "unat (of_nat (4 * i) :: u32) = 4 * i" using a by (intro word_of_nat_unat_eq) auto
  ultimately have "unat ((4 :: u32) * of_nat i) = 4 * i" by simp
  with a show ?thesis by (simp add: unat_add_small)
qed

lemma memcpy_words_other:
  "(\<And>i. i < k \<Longrightarrow> x \<noteq> d + 4 * of_nat i) \<Longrightarrow> memcpy_words k d s m x = m x"
proof (induction k arbitrary: d s m)
  case (Suc k)
  have "x \<noteq> d + 4 + 4 * of_nat i" if "i < k" for i
    using Suc.prems[of "Suc i"] that by (simp add: algebra_simps)
  moreover have "x \<noteq> d" using Suc.prems[of 0] by simp
  ultimately show ?case using Suc.IH[of "d + 4" "s + 4" "m(d := m s)"] by (simp del: fun_upd_apply) simp
qed simp

lemma memcpy_words_copies:
  assumes "\<And>i j. i < k \<Longrightarrow> j < k \<Longrightarrow> d + 4 * of_nat i \<noteq> s + 4 * of_nat j"
    and "unat d + 4 * k < 2 ^ 32" and "i < k"
  shows "memcpy_words k d s m (d + 4 * of_nat i) = m (s + 4 * of_nat i)"
  using assms
proof (induction k arbitrary: d s m i)
  case (Suc k)
  have d4: "unat (d + 4) = unat d + 4" using Suc.prems(2) by (simp add: unat_add_small)
  show ?case
  proof (cases i)
    case 0
    have "memcpy_words k (d + 4) (s + 4) (m(d := m s)) d = (m(d := m s)) d"
    proof (rule memcpy_words_other)
      fix j assume "j < k"
      then have "unat (d + 4 + 4 * of_nat j) = unat d + 4 + 4 * j"
        using Suc.prems(2) d4 by (subst word_offset) simp_all
      then show "d \<noteq> d + 4 + 4 * of_nat j" by force
    qed
    with 0 show ?thesis by simp
  next
    case (Suc i')
    have ne: "d + 4 + 4 * of_nat a \<noteq> s + 4 + 4 * of_nat b" if "a < k" "b < k" for a b
      using Suc.prems(1)[of "Suc a" "Suc b"] that by (simp add: algebra_simps)
    have "d \<noteq> s + 4 * of_nat (Suc i')" using Suc.prems(1)[of 0 "Suc i'"] Suc.prems(3) Suc by simp
    then have "(m(d := m s)) (s + 4 + 4 * of_nat i') = m (s + 4 * of_nat i)"
      using Suc by (simp add: algebra_simps)
    moreover have "memcpy_words k (d + 4) (s + 4) (m(d := m s)) (d + 4 + 4 * of_nat i')
        = (m(d := m s)) (s + 4 + 4 * of_nat i')"
      using Suc.prems(2,3) Suc d4 by (intro Suc.IH ne) auto
    ultimately show ?thesis using Suc by (simp add: algebra_simps)
  qed
qed simp

text \<open>Copying the data of one live block over the data of another disturbs nothing else.\<close>

lemma block_words:
  assumes "heap_links s bs" and "(a, n, u) \<in> set bs" and "i < unat n div 4"
  shows "unat (a + 8 + 4 * of_nat i) = unat a + 8 + 4 * i" and "4 * i < unat n"
proof -
  note A = block_bounds[OF assms(1,2), simplified]
  have "unat (a + 8) = unat a + 8" using A(1) by (simp add: unat_add_small)
  with A(1) assms(3) show "unat (a + 8 + 4 * of_nat i) = unat a + 8 + 4 * i"
    by (subst word_offset) auto
  show "4 * i < unat n" using assms(3) by simp
qed

lemma copy_between_blocks:
  assumes inv: "heap_inv s bs" and src: "(a, n, True) \<in> set bs" and dst: "(c, r, True) \<in> set bs"
    and le: "unat n \<le> unat r" and ne: "a \<noteq> c"
  defines "m \<equiv> memcpy_words (unat n div 4) (c + 8) (a + 8) (ma_memory s)"
  shows "heap_inv (s\<lparr>ma_memory := m\<rparr>) bs"
    and "i < unat n div 4 \<Longrightarrow> m (c + 8 + 4 * of_nat i) = ma_memory s (a + 8 + 4 * of_nat i)"
proof -
  note links = heap_invD(1)[OF inv]
  obtain us vs where bs: "bs = us @ (c, r, True) # vs" using dst by (meson split_list)
  note sep = tiles_sep[OF heap_linksD(1)[OF links, unfolded bs]]
  have "(a, n, True) \<in> set us \<or> (a, n, True) \<in> set vs" using src ne by (auto simp: bs)
  then have apart: "unat a + 8 + unat n \<le> unat c \<or> unat c + 8 + unat r \<le> unat a"
    using sep[of "(a, n, True)"] by auto
  have rng: "i < unat r div 4" if "i < unat n div 4" for i
    using that le div_le_mono less_le_trans by blast
  note D = block_words[OF links dst rng] and S = block_words[OF links src]
  have other: "m x = ma_memory s x" if "unat x < unat c + 8 \<or> unat c + 8 + unat r \<le> unat x" for x
    unfolding m_def
  proof (rule memcpy_words_other)
    fix i assume "i < unat n div 4"
    from D[OF this] that show "x \<noteq> c + 8 + 4 * of_nat i" by auto
  qed
  have headers: "m (b_addr b) = ma_memory s (b_addr b)"
    "m (b_addr b + 4) = ma_memory s (b_addr b + 4)" if b: "b \<in> set bs" for b
  proof -
    have b4: "unat (b_addr b + 4) = unat (b_addr b) + 4"
      using block_bounds(1)[OF links b] by (simp add: unat_add_small)
    have "b = (c, r, True) \<or> b \<in> set us \<or> b \<in> set vs" using b unfolding bs by auto
    then have "unat (b_addr b) + 8 \<le> unat c + 8 \<or> unat c + 8 + unat r \<le> unat (b_addr b)"
      using sep[of b] by auto
    with b4 other show "m (b_addr b) = ma_memory s (b_addr b)"
      "m (b_addr b + 4) = ma_memory s (b_addr b + 4)" by auto
  qed
  show "heap_inv (s\<lparr>ma_memory := m\<rparr>) bs"
    using heap_links_cong[OF links, of "s\<lparr>ma_memory := m\<rparr>"] headers heap_invD(2-4)[OF inv]
    by (simp add: heap_inv_def)
  assume i: "i < unat n div 4"
  show "m (c + 8 + 4 * of_nat i) = ma_memory s (a + 8 + 4 * of_nat i)"
    unfolding m_def
  proof (rule memcpy_words_copies[OF _ _ i])
    fix i j assume ij: "i < unat n div 4" "j < unat n div 4"
    show "c + 8 + 4 * of_nat i \<noteq> a + 8 + 4 * of_nat j"
    proof
      assume "c + 8 + 4 * of_nat i = a + 8 + 4 * of_nat j"
      then have "unat c + 8 + 4 * i = unat a + 8 + 4 * j"
        using D(1)[OF ij(1)] S(1)[OF ij(2)] by metis
      with apart le D(2)[OF ij(1)] S(2)[OF ij(2)] show False by linarith
    qed
  next
    have "unat (c + 8) = unat c + 8"
      using block_bounds(1)[OF links dst] by (simp add: unat_add_small)
    then show "unat (c + 8) + 4 * (unat n div 4) < 2 ^ 32"
      using block_bounds(1)[OF links dst] le by simp
  qed
qed

lemma release_at_split:
  assumes "heap_links s (us @ (a, n, True) # vs)"
  shows "release_at a (us @ (a, n, True) # vs) = Some (release_block us a n vs)"
proof -
  have "\<forall>b \<in> set us. b_addr b \<noteq> a"
    using tiles_distinct[OF heap_linksD(1,2)[OF assms]] by auto
  then show ?thesis by (simp add: release_at_def dropWhile_append takeWhile_append)
qed

text \<open>
  C11. \<^verbatim>\<open>reallocate\<close> preserves contents: growing a live block to a size that fits somewhere returns
  a block that starts with the words of the old one, and the old block is released.
\<close>

theorem MemoryAllocator_reallocate_copies:
  assumes inv: "heap_inv s bs" and live: "(a, n, True) \<in> set bs" and small: "unat sz + 8 < 2 ^ 32"
    and fit: "first_fit sz bs = Some (ptr, bs1)" and grow: "n \<le> sz"
  shows "\<exists>s' bs'. MemoryAllocator_reallocate s (a + 8) sz = Inr (ptr, s') \<and>
    release_at a bs1 = Some bs' \<and> heap_inv s' bs' \<and>
    (\<forall>i < unat n div 4. ma_memory s' (ptr + 4 * of_nat i) = ma_memory s (a + 8 + 4 * of_nat i))"
proof -
  from allocate_first_fit[OF inv small] fit obtain s1 where
    alloc: "MemoryAllocator_allocate s sz = Inr (ptr, s1)" and inv1: "heap_inv s1 bs1"
    and same: "\<forall>x \<in> payload bs. ma_memory s1 x = ma_memory s x" by auto
  note links = heap_invD(1)[OF inv] and links1 = heap_invD(1)[OF inv1]
  from first_fit_Some[OF fit] obtain xs c k ys where bs: "bs = xs @ (c, k, False) # ys"
    and room: "unat sz + 8 \<le> unat k" and ptr: "ptr = c + 8"
    and bs1: "bs1 = xs @ (c, round_to_word sz, True) #
      (c + 8 + round_to_word sz, k - round_to_word sz - 8, False) # ys" by blast
  define r where "r = round_to_word sz"
  have "4 dvd unat k" using block_bounds(4)[OF links, of "(c, k, False)"] by (simp add: bs)
  then have r: "unat n \<le> unat r"
    using round_to_word_bounds(1)[OF room] grow by (simp add: r_def word_le_nat_alt)
  have in1: "(a, n, True) \<in> set bs1" "(c, r, True) \<in> set bs1" using live by (auto simp: bs bs1 r_def)
  have ac: "a \<noteq> c" using tiles_distinct[OF heap_linksD(1,2)[OF links]] live by (force simp: bs)
  define m2 where "m2 = memcpy_words (unat n div 4) (c + 8) (a + 8) (ma_memory s1)"
  note C = copy_between_blocks[OF inv1 in1 r ac, folded m2_def]
  obtain us vs where split: "bs1 = us @ (a, n, True) # vs" using in1(1) by (meson split_list)
  from deallocate_correct[OF C(1)[unfolded split]] obtain s' where
    s': "MemoryAllocator_deallocate (s1\<lparr>ma_memory := m2\<rparr>) (a + 8) = Inr s'"
    "heap_inv s' (release_block us a n vs)"
    and frame: "\<forall>x \<in> payload (us @ vs). ma_memory s' x = m2 x" by auto
  have "ma_memory s' (ptr + 4 * of_nat i) = ma_memory s (a + 8 + 4 * of_nat i)"
    if i: "i < unat n div 4" for i
  proof -
    have "i < unat r div 4" using i r div_le_mono less_le_trans by blast
    note words = block_words[OF links1 in1(2) this] block_words[OF links1 in1(1) i]
    have "(c, r, True) \<in> set us \<union> set vs" using in1(2) ac by (auto simp: split)
    then have "ptr + 4 * of_nat i \<in> payload (us @ vs)"
      using words by (force simp: payload_def ptr)
    moreover have "a + 8 + 4 * of_nat i \<in> payload bs"
      using live words by (force simp: payload_def)
    ultimately show ?thesis using frame same C(2)[OF i] by (simp add: ptr)
  qed
  moreover have "MemoryAllocator_reallocate s (a + 8) sz = Inr (ptr, s')"
  proof -
    have "ma_memory s a = n" "ma_memory s1 a = n"
      using heap_linksD(5)[OF links live] heap_linksD(5)[OF links1 in1(1)] by simp_all
    then show ?thesis using alloc s'(1) leD[OF grow]
      by (simp add: MemoryAllocator_reallocate_def Node_defs Let_def m2_def ptr)
  qed
  ultimately show ?thesis
    using s'(2) release_at_split[OF links1[unfolded split]] unfolding split by blast
qed

theorem MemoryAllocator_reallocate_copies_witness:
  "\<exists>s s' bs'. heap_inv s [(0x1000, 16, True), (0x1018, 0xE0, False)] \<and>
    MemoryAllocator_reallocate s (0x1000 + 8) 32 = Inr (0x1020, s') \<and>
    release_at 0x1000 [(0x1000, 16, True), (0x1018, 32, True), (0x1040, 0xB8, False)] = Some bs' \<and>
    heap_inv s' bs' \<and> ma_memory s' (0x1020 + 4 * of_nat 3) = ma_memory s (0x1000 + 8 + 4 * of_nat 3)"
proof -
  obtain s where s: "heap_inv s [(0x1000, 16, True), (0x1018, 0xE0, False)]"
    using example_heap by blast
  have fit: "first_fit 32 [(0x1000, 16, True), (0x1018, 0xE0, False)]
      = Some (0x1020, [(0x1000, 16, True), (0x1018, 32, True), (0x1040, 0xB8, False)])"
    by code_simp
  have "\<exists>s' bs'. MemoryAllocator_reallocate s (0x1000 + 8) 32 = Inr (0x1020, s') \<and>
    release_at 0x1000 [(0x1000, 16, True), (0x1018, 32, True), (0x1040, 0xB8, False)] = Some bs' \<and>
    heap_inv s' bs' \<and> (\<forall>i < unat (16 :: u32) div 4.
      ma_memory s' (0x1020 + 4 * of_nat i) = ma_memory s (0x1000 + 8 + 4 * of_nat i))"
    by (rule MemoryAllocator_reallocate_copies[OF s _ _ fit]) simp_all
  then obtain s' bs' where r: "MemoryAllocator_reallocate s (0x1000 + 8) 32 = Inr (0x1020, s')"
    "release_at 0x1000 [(0x1000, 16, True), (0x1018, 32, True), (0x1040, 0xB8, False)] = Some bs'"
    "heap_inv s' bs'"
    and words: "\<forall>i < unat (16 :: u32) div 4.
      ma_memory s' (0x1020 + 4 * of_nat i) = ma_memory s (0x1000 + 8 + 4 * of_nat i)" by blast
  have "3 < unat (16 :: u32) div 4" by simp
  with words have "ma_memory s' (0x1020 + 4 * of_nat 3) = ma_memory s (0x1000 + 8 + 4 * of_nat 3)"
    by blast
  with s r show ?thesis by blast
qed

end
