(* ===== verification/Pages.thy ===== *)
theory Pages
  imports Std_Helpers
begin

section \<open>Kernel/PageAllocator\<close>

text \<open>
  The buddy allocator for pages.  A free block is its base address in the list of its pw of
  two, and the word at its base is the address of the next one in that list; \<open>pg_memory\<close> is the
  memory by the address of its words.  Blocks of fewer than four bytes do not hold a word; they
  are outside of what is proved here.  The heap between the linker's symbols is a parameter of the
  constructor.
\<close>

record PageRange =
  rg_m_power :: usize
  rg_m_base :: uptr

record PageAllocator =
  pg_m_blocks :: "uptr list"
  pg_memory :: "uptr \<Rightarrow> uptr"

definition PageRange_size :: "PageRange \<Rightarrow> usize" where
  "PageRange_size r = push_bit (unat (rg_m_power r)) 1"

definition PageAllocator_max_power :: usize where "PageAllocator_max_power = 19"
definition PageAllocator_page_size :: usize where "PageAllocator_page_size = 256"
definition PageAllocator_page_power :: usize where "PageAllocator_page_power = 8"
definition PageAllocator_stack_power :: usize where "PageAllocator_stack_power = 11"

definition PageAllocator_deallocate_locked :: "PageRange \<Rightarrow> PageAllocator \<Rightarrow> PageAllocator outcome" where
  "PageAllocator_deallocate_locked rng pg =
     checkE (rg_m_power rng \<le> PageAllocator_max_power) (ASSERT ''range.m_power <= max_power'')
       (let p = unat (rg_m_power rng); block_ptr = rg_m_base rng
        in Inr (pg\<lparr>pg_memory := (pg_memory pg)(block_ptr := pg_m_blocks pg ! p),
                   pg_m_blocks := (pg_m_blocks pg)[p := block_ptr]\<rparr>))"

function PageAllocator_allocate_locked :: "usize \<Rightarrow> PageAllocator \<Rightarrow> (PageRange option \<times> PageAllocator) outcome" where
  "PageAllocator_allocate_locked pw pg =
     (let sz = push_bit (unat pw) 1
      in checkE (pw \<le> PageAllocator_max_power) (ASSERT ''power <= max_power'')
         (if pg_m_blocks pg ! unat pw \<noteq> 0
          then let base = pg_m_blocks pg ! unat pw
               in Inr (Some \<lparr>rg_m_power = pw, rg_m_base = base\<rparr>,
                       pg\<lparr>pg_m_blocks := (pg_m_blocks pg)[unat pw := pg_memory pg base]\<rparr>)
          else checkE (pw < PageAllocator_max_power) (ASSERT ''power < max_power'')
            (bindE (PageAllocator_allocate_locked (pw + 1) pg) (\<lambda>(block_opt, pg).
             case block_opt of
               None \<Rightarrow> Inr (None, pg)
             | Some block \<Rightarrow>
                 bindE (PageAllocator_deallocate_locked \<lparr>rg_m_power = pw, rg_m_base = rg_m_base block + sz\<rparr> pg) (\<lambda>pg.
                 Inr (Some \<lparr>rg_m_power = pw, rg_m_base = rg_m_base block\<rparr>, pg))))))"
  by pat_completeness auto
termination
proof (relation "measure (\<lambda>(pw, pg). 20 - unat pw)", goal_cases)
  case (2 pw pg sz)
  then have "unat pw < 19" by (auto simp: PageAllocator_max_power_def word_less_nat_alt)
  then show ?case using unat_inc[of pw 19] by simp
qed simp

declare PageAllocator_allocate_locked.simps [simp del]

fun PageAllocator_discover_loop :: "nat \<Rightarrow> uptr \<Rightarrow> uptr \<Rightarrow> PageAllocator \<Rightarrow> PageAllocator outcome" where
  "PageAllocator_discover_loop block_power area_start area_end pg =
     (if block_power < 8 then Inr pg
      else let block_size = push_bit block_power 1;
               block_start = area_start;
               block_end = area_start + block_size
           in if block_end \<le> area_end
              then checkE (block_start mod 256 = 0) (VERIFY ''block_start % (1 << page_power) == 0'')
                (bindE (PageAllocator_deallocate_locked \<lparr>rg_m_power = of_nat block_power, rg_m_base = block_start\<rparr> pg) (\<lambda>pg.
                 PageAllocator_discover_loop (block_power - 1) block_end area_end pg))
              else PageAllocator_discover_loop (block_power - 1) area_start area_end pg)"

declare PageAllocator_discover_loop.simps [simp del]

definition PageAllocator_discover_blocks :: "uptr \<Rightarrow> uptr \<Rightarrow> PageAllocator \<Rightarrow> PageAllocator outcome" where
  "PageAllocator_discover_blocks area_start area_end pg =
     PageAllocator_discover_loop 19 (round_to_alignment area_start PageAllocator_page_size) area_end pg"

definition PageAllocator_new :: "uptr \<Rightarrow> uptr \<Rightarrow> (uptr \<Rightarrow> uptr) \<Rightarrow> PageAllocator outcome" where
  "PageAllocator_new heap_start heap_end memory =
     PageAllocator_discover_blocks heap_start heap_end \<lparr>pg_m_blocks = replicate 20 0, pg_memory = memory\<rparr>"

text \<open>An owned range gives its pages back once, when it is destroyed.\<close>

type_synonym OwnedPageRange = "PageRange option"

definition OwnedPageRange_move :: "OwnedPageRange \<Rightarrow> OwnedPageRange \<times> OwnedPageRange" where
  "OwnedPageRange_move other = (other, None)"

definition PageAllocator_deallocate :: "OwnedPageRange \<Rightarrow> PageAllocator \<Rightarrow> (OwnedPageRange \<times> PageAllocator) outcome" where
  "PageAllocator_deallocate m_range pg =
     (case m_range of
        None \<Rightarrow> Inl (VERIFY ''is_valid()'')
      | Some rng \<Rightarrow> bindE (PageAllocator_deallocate_locked rng pg) (\<lambda>pg. Inr (None, pg)))"

definition OwnedPageRange_destroy :: "OwnedPageRange \<Rightarrow> PageAllocator \<Rightarrow> (OwnedPageRange \<times> PageAllocator) outcome" where
  "OwnedPageRange_destroy m_range pg =
     (if m_range \<noteq> None then PageAllocator_deallocate m_range pg else Inr (m_range, pg))"

subsection \<open>Free blocks as lists\<close>

fun chain :: "(uptr \<Rightarrow> uptr) \<Rightarrow> uptr \<Rightarrow> uptr list \<Rightarrow> bool" where
  "chain memory p [] \<longleftrightarrow> p = 0"
| "chain memory p (b # bs) \<longleftrightarrow> p = b \<and> b \<noteq> 0 \<and> chain memory (memory b) bs"

lemma chain_cong: "(\<And>b. b \<in> set bs \<Longrightarrow> memory b = memory' b) \<Longrightarrow> chain memory p bs = chain memory' p bs"
  by (induction bs arbitrary: p) auto

lemma chain_upd: "a \<notin> set bs \<Longrightarrow> chain (memory(a := v)) p bs = chain memory p bs"
  by (rule chain_cong) auto

type_synonym block = "nat \<times> uptr"

definition block_bytes :: "block \<Rightarrow> nat set" where
  "block_bytes x = {unat (snd x) ..< unat (snd x) + 2 ^ fst x}"

definition free_blocks_of :: "(nat \<Rightarrow> uptr list) \<Rightarrow> block set" where
  "free_blocks_of L = {(p, b). p < 20 \<and> b \<in> set (L p)}"

text \<open>
  The invariant: \<open>L\<close> lists the free blocks by power, \<open>X\<close> are the blocks in use, and together they
  cut up the bytes \<open>U\<close>.
\<close>

definition apart_blocks :: "block set \<Rightarrow> bool" where
  "apart_blocks A \<longleftrightarrow> (\<forall>x\<in>A. \<forall>y\<in>A. x \<noteq> y \<longrightarrow> block_bytes x \<inter> block_bytes y = {})"

definition block_ok :: "block \<Rightarrow> bool" where
  "block_ok x \<longleftrightarrow> fst x < 20 \<and> snd x \<noteq> 0 \<and> unat (snd x) + 2 ^ fst x \<le> 2 ^ 32"

definition page_inv :: "PageAllocator \<Rightarrow> (nat \<Rightarrow> uptr list) \<Rightarrow> block set \<Rightarrow> nat set \<Rightarrow> bool" where
  "page_inv pg L X U \<longleftrightarrow> length (pg_m_blocks pg) = 20 \<and>
     (\<forall>p<20. chain (pg_memory pg) (pg_m_blocks pg ! p) (L p) \<and> distinct (L p)) \<and>
     free_blocks_of L \<inter> X = {} \<and> apart_blocks (free_blocks_of L \<union> X) \<and>
     (\<forall>x\<in>free_blocks_of L \<union> X. block_ok x) \<and> (\<Union>x\<in>free_blocks_of L \<union> X. block_bytes x) = U"

lemma base_in_block: "unat (snd x) \<in> block_bytes x"
  by (simp add: block_bytes_def)

lemma apart_bases: "apart_blocks A \<Longrightarrow> x \<in> A \<Longrightarrow> y \<in> A \<Longrightarrow> x \<noteq> y \<Longrightarrow> snd x \<noteq> snd y"
  using base_in_block[of x] base_in_block[of y] unfolding apart_blocks_def by (metis disjoint_iff)

lemma free_cons: "p < 20 \<Longrightarrow> free_blocks_of (L(p := b # L p)) = insert (p, b) (free_blocks_of L)"
  by (auto simp: free_blocks_of_def split: if_splits)

lemma free_tl:
  assumes "p < 20" and "L p = b # bs" and "distinct (L p)"
  shows "free_blocks_of (L(p := bs)) = free_blocks_of L - {(p, b)}" and "(p, b) \<in> free_blocks_of L"
  using assms by (auto simp: free_blocks_of_def split: if_splits)

subsection \<open>The operations move blocks between the two sets\<close>

lemma deallocate_locked_ok:
  assumes inv: "page_inv pg L X U" and x: "(p, b) \<in> X"
  shows "\<exists>pg'. PageAllocator_deallocate_locked \<lparr>rg_m_power = of_nat p, rg_m_base = b\<rparr> pg = Inr pg' \<and>
    page_inv pg' (L(p := b # L p)) (X - {(p, b)}) U"
proof -
  have ok: "block_ok (p, b)" using inv x by (simp add: page_inv_def)
  then have p: "p < 20" "b \<noteq> 0" by (simp_all add: block_ok_def)
  then have up: "unat (of_nat p :: u32) = p" by (intro word_of_nat_unat_eq) auto
  let ?pg = "pg\<lparr>pg_memory := (pg_memory pg)(b := pg_m_blocks pg ! p), pg_m_blocks := (pg_m_blocks pg)[p := b]\<rparr>"
  have "(of_nat p :: u32) \<le> 19" using p up by (simp add: word_le_nat_alt)
  then have e: "PageAllocator_deallocate_locked \<lparr>rg_m_power = of_nat p, rg_m_base = b\<rparr> pg = Inr ?pg"
    by (simp add: PageAllocator_deallocate_locked_def PageAllocator_max_power_def up)
  have nb: "b \<notin> set (L q)" if "q < 20" for q
  proof
    assume "b \<in> set (L q)"
    then have "(q, b) \<in> free_blocks_of L" using that by (simp add: free_blocks_of_def)
    moreover have "(q, b) \<noteq> (p, b)" using calculation inv x by (auto simp: page_inv_def)
    ultimately show False using inv x apart_bases[of "free_blocks_of L \<union> X" "(q, b)" "(p, b)"]
      by (auto simp: page_inv_def)
  qed
  have c: "chain (pg_memory ?pg) (pg_m_blocks ?pg ! q) ((L(p := b # L p)) q) \<and> distinct ((L(p := b # L p)) q)"
    if "q < 20" for q
    using inv p that nb by (cases "q = p") (auto simp: page_inv_def chain_upd)
  have f: "free_blocks_of (L(p := b # L p)) \<union> (X - {(p, b)}) = free_blocks_of L \<union> X"
    using free_cons[OF p(1)] x by auto
  have "page_inv ?pg (L(p := b # L p)) (X - {(p, b)}) U"
    unfolding page_inv_def f using inv c free_cons[OF p(1), of L b] by (auto simp: page_inv_def)
  with e show ?thesis by blast
qed

lemma take_block_ok:
  assumes inv: "page_inv pg L X U" and p: "p < 20" and L: "L p = b # bs"
  shows "page_inv (pg\<lparr>pg_m_blocks := (pg_m_blocks pg)[p := pg_memory pg b]\<rparr>) (L(p := bs)) (insert (p, b) X) U"
proof -
  have d: "distinct (L p)" and c: "chain (pg_memory pg) (pg_m_blocks pg ! p) (L p)" using inv p by (simp_all add: page_inv_def)
  note t = free_tl[of p L b bs, OF p L d]
  have f: "free_blocks_of (L(p := bs)) \<union> insert (p, b) X = free_blocks_of L \<union> X" using t by auto
  show ?thesis unfolding page_inv_def f using inv t c d L p
    by (auto simp: page_inv_def nth_list_update)
qed

lemma split_bytes:
  assumes "block_ok (Suc p, b)"
  shows "block_ok (p, b)" and "block_ok (p, b + 2 ^ p)" and "unat (b + 2 ^ p) = unat b + 2 ^ p"
    and "block_bytes (Suc p, b) = block_bytes (p, b) \<union> block_bytes (p, b + 2 ^ p)"
    and "block_bytes (p, b) \<inter> block_bytes (p, b + 2 ^ p) = {}"
proof -
  have a: "p < 19" "b \<noteq> 0" "unat b + 2 * 2 ^ p \<le> 2 ^ 32" using assms by (simp_all add: block_ok_def)
  have pp: "unat (2 ^ p :: u32) = 2 ^ p" using a(1) unat_power_two[of p] by (simp add: push_bit_eq_mult)
  have pos: "(0 :: nat) < 2 ^ p" by simp
  have s: "unat b + 2 ^ p < 2 ^ 32" using a(3) pos by linarith
  show u: "unat (b + 2 ^ p) = unat b + 2 ^ p" using unat_add_small[of b "2 ^ p"] pp s by simp
  show "block_ok (p, b)" using a by (simp add: block_ok_def)
  have "b + 2 ^ p \<noteq> 0" using u pos by (metis add_gr_0 less_irrefl unat_0)
  then show "block_ok (p, b + 2 ^ p)" using a u by (simp add: block_ok_def)
  show "block_bytes (Suc p, b) = block_bytes (p, b) \<union> block_bytes (p, b + 2 ^ p)"
    "block_bytes (p, b) \<inter> block_bytes (p, b + 2 ^ p) = {}" by (auto simp: block_bytes_def u)
qed

lemma split_block_ok:
  assumes inv: "page_inv pg L X U" and x: "(Suc p, b) \<in> X"
  shows "page_inv pg L (insert (p, b) (insert (p, b + 2 ^ p) (X - {(Suc p, b)}))) U"
proof -
  let ?x = "(Suc p, b)" let ?y = "(p, b)" let ?z = "(p, b + 2 ^ p)"
  let ?A = "free_blocks_of L \<union> X" let ?B = "free_blocks_of L \<union> insert ?y (insert ?z (X - {?x}))"
  have ok: "block_ok ?x" using inv x by (simp add: page_inv_def)
  note s = split_bytes[OF ok]
  have ap: "apart_blocks ?A" using inv by (simp add: page_inv_def)
  have fx: "?x \<notin> free_blocks_of L" using inv x by (auto simp: page_inv_def)
  have other: "block_bytes w \<inter> block_bytes ?x = {}" if "w \<in> ?A - {?x}" for w
    using ap that x by (auto simp: apart_blocks_def)
  have B: "?B = insert ?y (insert ?z (?A - {?x}))" using fx by auto
  have yz: "?y \<notin> ?A - {?x}" "?z \<notin> ?A - {?x}"
  proof -
    show "?y \<notin> ?A - {?x}" using other[of ?y] s(4) base_in_block[of ?y] by auto
    show "?z \<notin> ?A - {?x}" using other[of ?z] s(4) base_in_block[of ?z] by auto
  qed
  have sub: "block_bytes w \<inter> block_bytes ?y = {}" "block_bytes w \<inter> block_bytes ?z = {}" if "w \<in> ?A - {?x}" for w
    using other[OF that] s(4) by auto
  have apB: "apart_blocks ?B"
    unfolding B apart_blocks_def using ap sub s(5) by (auto simp: apart_blocks_def Int_commute)
  have "free_blocks_of L \<inter> insert ?y (insert ?z (X - {?x})) = {}"
    using yz fx inv by (auto simp: page_inv_def)
  moreover have "\<forall>w\<in>?B. block_ok w" using inv s(1,2) by (auto simp: page_inv_def)
  moreover have "(\<Union>w\<in>?B. block_bytes w) = U"
  proof -
    have "(\<Union>w\<in>?B. block_bytes w) = block_bytes ?x \<union> (\<Union>w\<in>?A - {?x}. block_bytes w)" unfolding B using s(4) by auto
    also have "\<dots> = (\<Union>w\<in>?A. block_bytes w)" using x by auto
    finally show ?thesis using inv by (simp add: page_inv_def)
  qed
  ultimately show ?thesis using inv apB by (simp add: page_inv_def)
qed


lemma chain_null: "chain memory p bs \<Longrightarrow> p = 0 \<longleftrightarrow> bs = []"
  by (cases bs) auto

lemma live_fresh:
  assumes "page_inv pg L X U" and "p < 20" and "b \<in> set (L p)"
  shows "(p, b) \<notin> X"
  using assms by (auto simp: page_inv_def free_blocks_of_def)

lemma live_apart:
  assumes "page_inv pg L X U" and "x \<in> X" and "y \<in> X" and "x \<noteq> y"
  shows "block_bytes x \<inter> block_bytes y = {}"
  using assms unfolding page_inv_def apart_blocks_def by blast

text \<open>Allocation finds a block exactly if a large enough one is free.\<close>

lemma allocate_locked_ok:
  assumes "page_inv pg L X U" and "unat pw < 20"
  shows "if \<exists>q. unat pw \<le> q \<and> q < 20 \<and> L q \<noteq> []
    then \<exists>b pg' L'. PageAllocator_allocate_locked pw pg = Inr (Some \<lparr>rg_m_power = pw, rg_m_base = b\<rparr>, pg') \<and>
      page_inv pg' L' (insert (unat pw, b) X) U \<and> (\<forall>c. (unat pw, b) \<noteq> c \<longrightarrow> c \<in> X \<longrightarrow> block_bytes (unat pw, b) \<inter> block_bytes c = {}) \<and>
      (unat pw, b) \<notin> X
    else PageAllocator_allocate_locked pw pg = Inl (ASSERT ''power < max_power'')"
  using assms
proof (induction pw pg arbitrary: rule: PageAllocator_allocate_locked.induct)
  case (1 pw pg)
  let ?p = "unat pw"
  have le: "pw \<le> PageAllocator_max_power" using 1(3) by (simp add: PageAllocator_max_power_def word_le_nat_alt)
  have ch: "chain (pg_memory pg) (pg_m_blocks pg ! ?p) (L ?p)" using 1(2,3) by (simp add: page_inv_def)
  have apart: "\<forall>c. (?p, b) \<noteq> c \<longrightarrow> c \<in> X \<longrightarrow> block_bytes (?p, b) \<inter> block_bytes c = {}"
    if "page_inv pg' L' (insert (?p, b) X) U" for pg' L' b
    using that by (auto simp: page_inv_def apart_blocks_def)
  show ?case
  proof (cases "L ?p")
    case (Cons b bs)
    let ?pg = "pg\<lparr>pg_m_blocks := (pg_m_blocks pg)[?p := pg_memory pg b]\<rparr>"
    have hd: "pg_m_blocks pg ! ?p = b" "b \<noteq> 0" using ch Cons by simp_all
    have "PageAllocator_allocate_locked pw pg = Inr (Some \<lparr>rg_m_power = pw, rg_m_base = b\<rparr>, ?pg)"
      using hd le by (subst PageAllocator_allocate_locked.simps) (simp add: Let_def)
    moreover note t = take_block_ok[OF 1(2,3) Cons]
    moreover have "(?p, b) \<notin> X" using live_fresh[OF 1(2,3), of b] Cons by simp
    ultimately show ?thesis using apart[OF t] 1(3) Cons by auto
  next
    case Nil
    have null: "pg_m_blocks pg ! ?p = 0" using chain_null[OF ch] Nil by simp
    show ?thesis
    proof (cases "?p = 19")
      case True
      have "q = ?p" if "?p \<le> q" "q < 20" for q using that True by simp
      moreover have "\<not> pw < PageAllocator_max_power" using True by (simp add: PageAllocator_max_power_def word_less_nat_alt)
      then have "PageAllocator_allocate_locked pw pg = Inl (ASSERT ''power < max_power'')"
        using le null by (subst PageAllocator_allocate_locked.simps) (simp add: Let_def)
      ultimately show ?thesis using Nil by auto
    next
      case False
      then have lt: "?p < 19" using 1(3) by simp
      then have wlt: "pw < PageAllocator_max_power" by (simp add: PageAllocator_max_power_def word_less_nat_alt)
      have s: "unat (pw + 1) = Suc ?p" using unat_inc[of pw 19] lt by simp
      have IH: "if \<exists>q. Suc ?p \<le> q \<and> q < 20 \<and> L q \<noteq> []
        then \<exists>b pg' L'. PageAllocator_allocate_locked (pw + 1) pg = Inr (Some \<lparr>rg_m_power = pw + 1, rg_m_base = b\<rparr>, pg') \<and>
          page_inv pg' L' (insert (Suc ?p, b) X) U \<and>
          (\<forall>c. (Suc ?p, b) \<noteq> c \<longrightarrow> c \<in> X \<longrightarrow> block_bytes (Suc ?p, b) \<inter> block_bytes c = {}) \<and> (Suc ?p, b) \<notin> X
        else PageAllocator_allocate_locked (pw + 1) pg = Inl (ASSERT ''power < max_power'')"
        using 1(1)[OF refl le _ wlt] 1(2) null lt unfolding s by simp
      have ex: "(\<exists>q. Suc ?p \<le> q \<and> q < 20 \<and> L q \<noteq> []) \<longleftrightarrow> (\<exists>q. ?p \<le> q \<and> q < 20 \<and> L q \<noteq> [])"
        using Nil by (metis Suc_leD Suc_leI le_neq_implies_less)
      show ?thesis
      proof (cases "\<exists>q. ?p \<le> q \<and> q < 20 \<and> L q \<noteq> []")
        case True
        with IH ex obtain b pg1 L1 where A: "PageAllocator_allocate_locked (pw + 1) pg =
            Inr (Some \<lparr>rg_m_power = pw + 1, rg_m_base = b\<rparr>, pg1)" "page_inv pg1 L1 (insert (Suc ?p, b) X) U"
          "(Suc ?p, b) \<notin> X" by auto
        let ?z = "(?p, b + 2 ^ ?p)" and ?y = "(?p, b)"
        have ok: "block_ok (Suc ?p, b)" using A(2) by (simp add: page_inv_def)
        note sp = split_block_ok[OF A(2) insertI1] and sb = split_bytes[OF ok]
        have yx: "?y \<notin> X" "?z \<notin> X" "?y \<noteq> ?z"
        proof -
          have "block_bytes (Suc ?p, b) \<inter> block_bytes c = {}" if "c \<in> X" for c
            by (rule live_apart[OF A(2)]) (use that A(3) in auto)
          then show "?y \<notin> X" "?z \<notin> X" using sb(4) base_in_block[of ?y] base_in_block[of ?z] by auto
          show "?y \<noteq> ?z" using sb(3) by (metis add.right_neutral add_left_cancel power_not_zero prod.inject zero_neq_numeral)
        qed
        have X2: "insert ?y (insert ?z (insert (Suc ?p, b) X - {(Suc ?p, b)})) = insert ?z (insert ?y X)" using A(3) by auto
        have inv2: "page_inv pg1 L1 (insert ?z (insert ?y X)) U" using sp unfolding X2 .
        have pw: "(of_nat ?p :: u32) = pw" by simp
        obtain pg2 L2 where D: "PageAllocator_deallocate_locked \<lparr>rg_m_power = pw, rg_m_base = b + 2 ^ ?p\<rparr> pg1 = Inr pg2"
          "page_inv pg2 L2 (insert ?z (insert ?y X) - {?z}) U"
          using deallocate_locked_ok[OF inv2 insertI1] unfolding pw by blast
        have X3: "insert ?z (insert ?y X) - {?z} = insert ?y X" using yx by auto
        have inv3: "page_inv pg2 L2 (insert ?y X) U" using D(2) unfolding X3 .
        have "push_bit ?p 1 = (2 ^ ?p :: u32)" by (simp add: push_bit_eq_mult)
        then have "PageAllocator_allocate_locked pw pg = Inr (Some \<lparr>rg_m_power = pw, rg_m_base = b\<rparr>, pg2)"
          using le null wlt A(1) D(1) by (subst PageAllocator_allocate_locked.simps) (simp add: Let_def)
        then show ?thesis using True inv3 apart[OF inv3] yx(1) by auto
      next
        case False
        then have "PageAllocator_allocate_locked (pw + 1) pg = Inl (ASSERT ''power < max_power'')" using IH ex by simp
        then have "PageAllocator_allocate_locked pw pg = Inl (ASSERT ''power < max_power'')"
          using le null wlt by (subst PageAllocator_allocate_locked.simps) (simp add: Let_def)
        then show ?thesis using False by simp
      qed
    qed
  qed
qed


subsection \<open>Discovering the heap\<close>

lemma mod_page: "(w :: u32) mod 256 = 0 \<longleftrightarrow> 256 dvd unat w"
proof -
  have "unat (w mod 256) = unat w mod 256" by (simp add: unat_mod)
  then show ?thesis using unat_eq_zero[of "w mod 256"] by (simp add: dvd_eq_mod_eq_0)
qed

lemma new_block_ok:
  assumes inv: "page_inv pg L X U" and ok: "block_ok x" and d: "block_bytes x \<inter> U = {}"
  shows "page_inv pg L (insert x X) (U \<union> block_bytes x)"
proof -
  let ?A = "free_blocks_of L \<union> X"
  have u: "block_bytes y \<subseteq> U" if "y \<in> ?A" for y using inv that by (auto simp: page_inv_def)
  have n: "x \<notin> ?A" using u[of x] d base_in_block[of x] by auto
  have "apart_blocks (insert x ?A)"
    unfolding apart_blocks_def
  proof (intro ballI impI)
    fix y z assume yz: "y \<in> insert x ?A" "z \<in> insert x ?A" "y \<noteq> z"
    have old: "apart_blocks ?A" using inv by (simp add: page_inv_def)
    show "block_bytes y \<inter> block_bytes z = {}"
      using yz old u[of y] u[of z] d by (cases "y = x"; cases "z = x") (auto simp: apart_blocks_def)
  qed
  then show ?thesis using inv ok n by (auto simp: page_inv_def)
qed

lemma discover_loop_ok:
  assumes "n \<le> 19" and "page_inv pg L {} U" and "U \<subseteq> {..<unat a}" and "a \<noteq> 0" and "a mod 256 = 0"
    and "unat a < 2 ^ 31 + 2 ^ 20" and "unat e < 2 ^ 31"
  shows "\<exists>pg' L' k. PageAllocator_discover_loop n a e pg = Inr pg' \<and> page_inv pg' L' {} (U \<union> {unat a..<unat a + k}) \<and>
    (0 < k \<longrightarrow> unat a + k \<le> unat e) \<and> (unat e < unat a + 2 ^ Suc n \<longrightarrow> unat e < unat a + k + 256)"
  using assms
proof (induction n a e pg arbitrary: L U rule: PageAllocator_discover_loop.induct)
  case (1 n a e pg)
  show ?case
  proof (cases "n < 8")
    case True
    have "(2 :: nat) ^ Suc n \<le> 2 ^ 8" using True by (intro power_increasing) auto
    then show ?thesis using True 1(4) by (subst PageAllocator_discover_loop.simps) (auto intro!: exI[of _ L] exI[of _ 0])
  next
    case False
    have n19: "n - 1 \<le> 19" using 1(3) by simp
    let ?s = "push_bit n 1 :: u32"
    have s: "unat ?s = 2 ^ n" "?s = 2 ^ n" using 1(3) unat_power_two[of n] by (simp_all add: push_bit_eq_mult)
    have small: "(2 :: nat) ^ n \<le> 2 ^ 19" using 1(3) by (intro power_increasing) auto
    then have b: "unat (a + ?s) = unat a + 2 ^ n" using unat_add_small[of a ?s] 1(8) s by simp
    show ?thesis
    proof (cases "a + ?s \<le> e")
      case True
      then have le: "unat a + 2 ^ n \<le> unat e" using b by (simp add: word_le_nat_alt)
      have bs: "block_bytes (n, a) = {unat a..<unat a + 2 ^ n}" by (simp add: block_bytes_def)
      have ok: "block_ok (n, a)" using 1(3,6) le 1(9) by (simp add: block_ok_def)
      have "block_bytes (n, a) \<inter> U = {}" using 1(5) unfolding bs by auto
      note nb = new_block_ok[OF 1(4) ok this]
      obtain pg1 where D: "PageAllocator_deallocate_locked \<lparr>rg_m_power = of_nat n, rg_m_base = a\<rparr> pg = Inr pg1"
        "page_inv pg1 (L(n := a # L n)) {} (U \<union> block_bytes (n, a))"
        using deallocate_locked_ok[OF nb, of n a] by auto
      have m: "(a + ?s) mod 256 = 0"
      proof -
        have "(2 :: nat) ^ 8 dvd 2 ^ n" using False by (intro le_imp_power_dvd) auto
        then have "256 dvd unat a + 2 ^ n" using 1(7) unfolding mod_page by (intro dvd_add) simp_all
        then show ?thesis unfolding mod_page b .
      qed
      have "0 < unat (a + ?s)" unfolding b by simp
      then have a0: "a + ?s \<noteq> 0" using unat_gt_0 by blast
      have U: "U \<union> block_bytes (n, a) \<subseteq> {..<unat (a + ?s)}" using 1(5) b unfolding bs by auto
      have lim: "unat (a + ?s) < 2 ^ 31 + 2 ^ 20" using le b 1(9) by simp
      obtain pg2 L2 k where R: "PageAllocator_discover_loop (n - 1) (a + ?s) e pg1 = Inr pg2"
        "page_inv pg2 L2 {} (U \<union> block_bytes (n, a) \<union> {unat (a + ?s)..<unat (a + ?s) + k})"
        "0 < k \<longrightarrow> unat (a + ?s) + k \<le> unat e"
        "unat e < unat (a + ?s) + 2 ^ Suc (n - 1) \<longrightarrow> unat e < unat (a + ?s) + k + 256"
        using 1(1)[OF False refl refl refl True 1(7) D(1), OF n19 D(2) U a0 m lim 1(9)] by blast
      have n1: "Suc (n - 1) = n" using False by simp
      have "PageAllocator_discover_loop n a e pg = Inr pg2"
        using False True D(1) R(1) 1(7) by (subst PageAllocator_discover_loop.simps) (simp add: Let_def)
      moreover have "U \<union> block_bytes (n, a) \<union> {unat (a + ?s)..<unat (a + ?s) + k} = U \<union> {unat a..<unat a + (2 ^ n + k)}"
        unfolding bs b by auto
      moreover have "unat a + (2 ^ n + k) \<le> unat e" using R(3) le b by (cases "k = 0") auto
      moreover have "unat e < unat a + 2 ^ Suc n \<longrightarrow> unat e < unat a + (2 ^ n + k) + 256"
        using R(4) b unfolding n1 by auto
      ultimately show ?thesis using R(2) by metis
    next
      case no: False
      then have gt: "unat e < unat a + 2 ^ n" using b by (simp add: word_le_nat_alt)
      have n1: "Suc (n - 1) = n" using False by simp
      obtain pg2 L2 k where R: "PageAllocator_discover_loop (n - 1) a e pg = Inr pg2"
        "page_inv pg2 L2 {} (U \<union> {unat a..<unat a + k})" "0 < k \<longrightarrow> unat a + k \<le> unat e"
        "unat e < unat a + 2 ^ Suc (n - 1) \<longrightarrow> unat e < unat a + k + 256"
        using 1(2)[OF False refl refl refl no, OF n19 1(4-9)] by blast
      moreover have "PageAllocator_discover_loop n a e pg = Inr pg2"
        using False no R(1) by (subst PageAllocator_discover_loop.simps) (simp add: Let_def)
      ultimately show ?thesis using gt unfolding n1 by auto
    qed
  qed
qed


lemma PageAllocator_new_ok:
  assumes "heap_start \<noteq> 0" and "unat heap_start < 2 ^ 31" and "unat heap_end < 2 ^ 31"
  shows "\<exists>pg L s k. PageAllocator_new heap_start heap_end memory = Inr pg \<and> page_inv pg L {} {s..<s + k} \<and>
    unat heap_start \<le> s \<and> s < unat heap_start + 256 \<and> 256 dvd s \<and> (0 < k \<longrightarrow> s + k \<le> unat heap_end) \<and>
    (unat heap_end < s + 2 ^ 20 \<longrightarrow> unat heap_end < s + k + 256)"
proof -
  let ?s = "round_to_alignment heap_start PageAllocator_page_size"
  have e: "(256 :: u32) = 2 ^ 8" by simp
  have r: "unat ?s = ((unat heap_start + 255) div 256) * 256"
    using round_to_alignment_eq[of 8 heap_start] assms(2) by (simp add: PageAllocator_page_size_def)
  have b: "unat heap_start \<le> unat ?s" "unat ?s < unat heap_start + 256" "256 dvd unat ?s" unfolding r by auto
  have "0 < unat heap_start" using assms(1) by (simp add: unat_gt_0)
  then have n0: "?s \<noteq> 0" using b(1) by (metis le_zero_eq less_irrefl unat_0)
  have m: "?s mod 256 = 0" unfolding mod_page by (rule b(3))
  have lim: "unat ?s < 2 ^ 31 + 2 ^ 20" using b(2) assms(2) by simp
  let ?pg = "\<lparr>pg_m_blocks = replicate 20 0, pg_memory = memory\<rparr>"
  have inv: "page_inv ?pg (\<lambda>_. []) {} {}" by (simp add: page_inv_def free_blocks_of_def apart_blocks_def)
  have U: "{} \<subseteq> {..<unat ?s}" by simp
  obtain pg' L' k where "PageAllocator_discover_loop 19 ?s heap_end ?pg = Inr pg'" "page_inv pg' L' {} ({} \<union> {unat ?s..<unat ?s + k})"
    "0 < k \<longrightarrow> unat ?s + k \<le> unat heap_end" "unat heap_end < unat ?s + 2 ^ Suc 19 \<longrightarrow> unat heap_end < unat ?s + k + 256"
    using discover_loop_ok[OF order.refl inv U n0 m lim assms(3)] by blast
  then show ?thesis using b by (auto simp: PageAllocator_new_def PageAllocator_discover_blocks_def)
qed

subsection \<open>Runs of a client\<close>

text \<open>
  A client allocates ranges, gives them back, and writes to the words inside the ranges it holds.
\<close>

datatype page_op = AllocPages usize | FreePages nat | WritePages uptr uptr

definition in_range :: "uptr \<Rightarrow> PageRange \<Rightarrow> bool" where
  "in_range a r \<longleftrightarrow> unat (rg_m_base r) \<le> unat a \<and> unat a + 4 \<le> unat (rg_m_base r) + unat (PageRange_size r)"

fun page_step :: "page_op \<Rightarrow> PageAllocator \<times> PageRange list \<Rightarrow> (PageAllocator \<times> PageRange list) outcome" where
  "page_step (AllocPages pw) (pg, live) =
     bindE (PageAllocator_allocate_locked pw pg) (\<lambda>(r, pg).
     Inr (pg, case r of None \<Rightarrow> live | Some r \<Rightarrow> live @ [r]))"
| "page_step (FreePages i) (pg, live) =
     (if i < length live
      then bindE (PageAllocator_deallocate (Some (live ! i)) pg) (\<lambda>(_, pg). Inr (pg, take i live @ drop (Suc i) live))
      else Inr (pg, live))"
| "page_step (WritePages a v) (pg, live) =
     Inr (if \<exists>r\<in>set live. in_range a r then pg\<lparr>pg_memory := (pg_memory pg)(a := v)\<rparr> else pg, live)"

fun run_pages :: "page_op list \<Rightarrow> PageAllocator \<times> PageRange list \<Rightarrow> (PageAllocator \<times> PageRange list) outcome" where
  "run_pages [] st = Inr st"
| "run_pages (op # ops) st = bindE (page_step op st) (run_pages ops)"

definition block_of :: "PageRange \<Rightarrow> block" where
  "block_of r = (unat (rg_m_power r), rg_m_base r)"

definition pages_ok :: "nat set \<Rightarrow> PageAllocator \<times> PageRange list \<Rightarrow> bool" where
  "pages_ok U st \<longleftrightarrow> (\<exists>L. page_inv (fst st) L (block_of ` set (snd st)) U) \<and> distinct (map block_of (snd st))"

fun op_pages_ok :: "page_op \<Rightarrow> bool" where
  "op_pages_ok (AllocPages pw) \<longleftrightarrow> 2 \<le> unat pw \<and> unat pw < 20"
| "op_pages_ok _ \<longleftrightarrow> True"

lemma block_of_eq: "rg_m_power r = of_nat p \<Longrightarrow> p < 20 \<Longrightarrow> block_of r = (p, rg_m_base r)"
  by (simp add: block_of_def word_of_nat_unat_eq)

lemma range_record: "r = \<lparr>rg_m_power = of_nat (fst (block_of r)), rg_m_base = snd (block_of r)\<rparr>"
  by (cases r) (simp add: block_of_def)

lemma remove_nth:
  assumes d: "distinct (map f xs)" and i: "i < length xs"
  shows "f ` set (take i xs @ drop (Suc i) xs) = f ` set xs - {f (xs ! i)}"
    and "distinct (map f (take i xs @ drop (Suc i) xs))"
proof -
  define ys zs where "ys = take i xs" and "zs = drop (Suc i) xs"
  have xs: "xs = ys @ xs ! i # zs" using id_take_nth_drop[OF i] by (simp add: ys_def zs_def)
  have "f ` set xs = insert (f (xs ! i)) (f ` (set ys \<union> set zs))" by (subst xs) simp
  moreover have m: "distinct (map f (ys @ xs ! i # zs))" using d xs by simp
  moreover have "f (xs ! i) \<notin> f ` (set ys \<union> set zs)" using m by auto
  ultimately show "f ` set (take i xs @ drop (Suc i) xs) = f ` set xs - {f (xs ! i)}"
    unfolding ys_def[symmetric] zs_def[symmetric] by simp
  show "distinct (map f (take i xs @ drop (Suc i) xs))"
    using m unfolding ys_def[symmetric] zs_def[symmetric] by auto
qed

lemma page_step_ok:
  assumes ok: "pages_ok U st" and op: "op_pages_ok op"
  shows "(\<exists>st'. page_step op st = Inr st' \<and> pages_ok U st') \<or> page_step op st = Inl (ASSERT ''power < max_power'')"
proof -
  obtain pg live where st: "st = (pg, live)" by (cases st)
  obtain L where inv: "page_inv pg L (block_of ` set live) U" and d: "distinct (map block_of live)"
    using ok by (auto simp: pages_ok_def st)
  show ?thesis
  proof (cases op)
    case (AllocPages pw)
    have pw: "unat pw < 20" using op AllocPages by simp
    show ?thesis
    proof (cases "\<exists>q. unat pw \<le> q \<and> q < 20 \<and> L q \<noteq> []")
      case True
      then obtain b pg' L' where A: "PageAllocator_allocate_locked pw pg = Inr (Some \<lparr>rg_m_power = pw, rg_m_base = b\<rparr>, pg')"
        "page_inv pg' L' (insert (unat pw, b) (block_of ` set live)) U" "(unat pw, b) \<notin> block_of ` set live"
        using allocate_locked_ok[OF inv pw] by auto
      then show ?thesis using d by (auto simp: AllocPages st pages_ok_def block_of_def)
    next
      case False
      then show ?thesis using allocate_locked_ok[OF inv pw] by (auto simp: AllocPages st)
    qed
  next
    case (FreePages i)
    show ?thesis
    proof (cases "i < length live")
      case True
      let ?x = "block_of (live ! i)"
      have x: "(fst ?x, snd ?x) \<in> block_of ` set live" using True by simp
      obtain pg' where D: "PageAllocator_deallocate_locked (live ! i) pg = Inr pg'"
        "page_inv pg' (L(fst ?x := snd ?x # L (fst ?x))) (block_of ` set live - {?x}) U"
        using deallocate_locked_ok[OF inv x] range_record[of "live ! i"] by auto
      moreover note remove_nth[OF d True]
      ultimately show ?thesis using True D by (auto simp: FreePages st pages_ok_def PageAllocator_deallocate_def)
    qed (use ok in \<open>simp add: FreePages st\<close>)
  next
    case (WritePages a v)
    show ?thesis
    proof (cases "\<exists>r\<in>set live. in_range a r")
      case True
      then obtain r where r: "r \<in> set live" "in_range a r" by blast
      have a: "unat a \<in> block_bytes (block_of r)"
      proof -
        have "block_ok (block_of r)" using inv r(1) by (auto simp: page_inv_def)
        then have "unat (rg_m_power r) < 20" by (simp add: block_ok_def block_of_def)
        then have "unat (PageRange_size r) = 2 ^ unat (rg_m_power r)" by (simp add: PageRange_size_def unat_power_two)
        then show ?thesis using r(2) by (simp add: in_range_def block_bytes_def block_of_def)
      qed
      have "a \<notin> set (L p)" if "p < 20" for p
      proof
        assume "a \<in> set (L p)"
        then have f: "(p, a) \<in> free_blocks_of L" using that by (simp add: free_blocks_of_def)
        have "block_bytes (p, a) \<inter> block_bytes (block_of r) = {}"
          using inv f r(1) unfolding page_inv_def apart_blocks_def by blast
        then show False using a base_in_block[of "(p, a)"] by auto
      qed
      then have "page_inv (pg\<lparr>pg_memory := (pg_memory pg)(a := v)\<rparr>) L (block_of ` set live) U"
        using inv by (auto simp: page_inv_def chain_upd)
      then show ?thesis using True d by (auto simp: WritePages st pages_ok_def)
    qed (use ok in \<open>simp add: WritePages st\<close>)
  qed
qed

lemma run_pages_ok:
  "pages_ok U st \<Longrightarrow> list_all op_pages_ok ops \<Longrightarrow>
   (\<exists>st'. run_pages ops st = Inr st' \<and> pages_ok U st') \<or> run_pages ops st = Inl (ASSERT ''power < max_power'')"
proof (induction ops arbitrary: st)
  case (Cons op ops)
  then show ?case using page_step_ok[OF Cons.prems(1), of op] by fastforce
qed simp


subsection \<open>What clients get\<close>

text \<open>
  How the heap is cut up: following the allocator's lists through memory yields blocks that, with
  the ranges in use, do not overlap and make up exactly the bytes \<open>U\<close>.
\<close>

definition heap_cut_up :: "PageAllocator \<Rightarrow> PageRange list \<Rightarrow> nat set \<Rightarrow> bool" where
  "heap_cut_up pg live U \<longleftrightarrow> distinct (map block_of live) \<and>
     (\<exists>L. (\<forall>p<20. chain (pg_memory pg) (pg_m_blocks pg ! p) (L p) \<and> distinct (L p)) \<and>
       free_blocks_of L \<inter> block_of ` set live = {} \<and>
       apart_blocks (free_blocks_of L \<union> block_of ` set live) \<and>
       (\<Union>x\<in>free_blocks_of L \<union> block_of ` set live. block_bytes x) = U)"

text \<open>
  C35. The page allocator cuts up the heap: built on any heap below \<open>2 ^ 31\<close>, it finds a run of bytes from
  a page's start on (all but less than a page of a heap smaller than 1 MiB); whatever clients allocate
  (ranges of at least a word), free and write to inside their ranges, no block is lost and none is
  given out twice: the blocks that the allocator's free lists lead to and the ranges in use never
  overlap and together make up exactly that run.  The only way to stop the kernel is to run out of
  memory.
\<close>

theorem PageAllocator_partitions_heap:
  assumes "heap_start \<noteq> 0" and "unat heap_start < 2 ^ 31" and "unat heap_end < 2 ^ 31" and "list_all op_pages_ok ops"
  shows "\<exists>pg s k. PageAllocator_new heap_start heap_end memory = Inr pg \<and>
    unat heap_start \<le> s \<and> 256 dvd s \<and> (0 < k \<longrightarrow> s + k \<le> unat heap_end) \<and>
    (unat heap_end < s + 2 ^ 20 \<longrightarrow> unat heap_end < s + k + 256) \<and>
    (case run_pages ops (pg, []) of
       Inl e \<Rightarrow> e = ASSERT ''power < max_power''
     | Inr (pg', live) \<Rightarrow> heap_cut_up pg' live {s..<s + k})"
proof -
  obtain pg L s k where N: "PageAllocator_new heap_start heap_end memory = Inr pg" "page_inv pg L {} {s..<s + k}"
    "unat heap_start \<le> s" "256 dvd s" "0 < k \<longrightarrow> s + k \<le> unat heap_end"
    "unat heap_end < s + 2 ^ 20 \<longrightarrow> unat heap_end < s + k + 256"
    using PageAllocator_new_ok[OF assms(1-3)] by blast
  have ok: "pages_ok {s..<s + k} (pg, [])" using N(2) by (auto simp: pages_ok_def)
  have "heap_cut_up pg' live {s..<s + k}" if ok': "pages_ok {s..<s + k} (pg', live)" for pg' live
  proof -
    obtain L' where I: "page_inv pg' L' (block_of ` set live) {s..<s + k}" "distinct (map block_of live)"
      using ok' by (auto simp: pages_ok_def)
    then show ?thesis unfolding heap_cut_up_def by (intro conjI exI[of _ L']) (simp_all add: page_inv_def)
  qed
  then have "case run_pages ops (pg, []) of
       Inl e \<Rightarrow> e = ASSERT ''power < max_power''
     | Inr (pg', live) \<Rightarrow> heap_cut_up pg' live {s..<s + k}"
    using run_pages_ok[OF ok assms(4)] by auto
  then show ?thesis using N by blast
qed

lemma PageAllocator_partitions_heap_witness:
  "\<exists>pg s k. PageAllocator_new 0x20000100 0x20042000 (\<lambda>_. 0) = Inr pg \<and> unat (0x20000100 :: u32) \<le> s \<and>
     (case run_pages [AllocPages 11, AllocPages 14, WritePages 0x20000104 7, FreePages 0, AllocPages 8] (pg, []) of
        Inl e \<Rightarrow> e = ASSERT ''power < max_power''
      | Inr (pg', live) \<Rightarrow> heap_cut_up pg' live {s..<s + k})"
proof -
  have l: "list_all op_pages_ok [AllocPages 11, AllocPages 14, WritePages 0x20000104 7, FreePages 0, AllocPages 8]" by simp
  have n: "(0x20000100 :: u32) \<noteq> 0" "unat (0x20000100 :: u32) < 2 ^ 31" "unat (0x20042000 :: u32) < 2 ^ 31" by simp_all
  show ?thesis using PageAllocator_partitions_heap[OF n l, of "\<lambda>_. 0"] by blast
qed

lemma allocate_locked_total:
  assumes "unat pw < 20"
  shows "if \<exists>q. unat pw \<le> q \<and> q < 20 \<and> pg_m_blocks pg ! q \<noteq> 0
    then \<exists>b pg'. PageAllocator_allocate_locked pw pg = Inr (Some \<lparr>rg_m_power = pw, rg_m_base = b\<rparr>, pg')
    else PageAllocator_allocate_locked pw pg = Inl (ASSERT ''power < max_power'')"
  using assms
proof (induction pw pg rule: PageAllocator_allocate_locked.induct)
  case (1 pw pg)
  let ?p = "unat pw"
  have le: "pw \<le> PageAllocator_max_power" using 1(2) by (simp add: PageAllocator_max_power_def word_le_nat_alt)
  have lt: "pw < PageAllocator_max_power \<longleftrightarrow> ?p < 19" by (simp add: PageAllocator_max_power_def word_less_nat_alt)
  show ?case
  proof (cases "pg_m_blocks pg ! ?p \<noteq> 0")
    case True
    then show ?thesis using le 1(2) by (subst PageAllocator_allocate_locked.simps) (auto simp: Let_def)
  next
    case null: False
    show ?thesis
    proof (cases "?p < 19")
      case True
      have s: "unat (pw + 1) = Suc ?p" using unat_inc[of pw 19] True by simp
      have ex: "(\<exists>q. Suc ?p \<le> q \<and> q < 20 \<and> pg_m_blocks pg ! q \<noteq> 0) \<longleftrightarrow> (\<exists>q. ?p \<le> q \<and> q < 20 \<and> pg_m_blocks pg ! q \<noteq> 0)"
        using null by (metis Suc_leD Suc_leI le_neq_implies_less)
      have IH: "if \<exists>q. Suc ?p \<le> q \<and> q < 20 \<and> pg_m_blocks pg ! q \<noteq> 0
        then \<exists>b pg'. PageAllocator_allocate_locked (pw + 1) pg = Inr (Some \<lparr>rg_m_power = pw + 1, rg_m_base = b\<rparr>, pg')
        else PageAllocator_allocate_locked (pw + 1) pg = Inl (ASSERT ''power < max_power'')"
        using 1(1)[OF refl le null] True lt unfolding s by simp
      have d: "PageAllocator_deallocate_locked \<lparr>rg_m_power = pw, rg_m_base = c\<rparr> pg1 \<noteq> Inl e" for c pg1 e
        using le by (simp add: PageAllocator_deallocate_locked_def Let_def)
      then have d': "\<exists>pg2. PageAllocator_deallocate_locked \<lparr>rg_m_power = pw, rg_m_base = c\<rparr> pg1 = Inr pg2" for c pg1
        by (metis sum.exhaust)
      have eq: "PageAllocator_allocate_locked pw pg =
          bindE (PageAllocator_allocate_locked (pw + 1) pg) (\<lambda>(block_opt, pg).
             case block_opt of
               None \<Rightarrow> Inr (None, pg)
             | Some block \<Rightarrow>
                 bindE (PageAllocator_deallocate_locked \<lparr>rg_m_power = pw, rg_m_base = rg_m_base block + 2 ^ ?p\<rparr> pg) (\<lambda>pg.
                 Inr (Some \<lparr>rg_m_power = pw, rg_m_base = rg_m_base block\<rparr>, pg)))"
        using le null True lt by (subst PageAllocator_allocate_locked.simps) (simp add: Let_def)
      show ?thesis
      proof (cases "\<exists>q. ?p \<le> q \<and> q < 20 \<and> pg_m_blocks pg ! q \<noteq> 0")
        case True
        with IH ex obtain b pg1 where A: "PageAllocator_allocate_locked (pw + 1) pg = Inr (Some \<lparr>rg_m_power = pw + 1, rg_m_base = b\<rparr>, pg1)"
          by auto
        obtain pg2 where "PageAllocator_deallocate_locked \<lparr>rg_m_power = pw, rg_m_base = b + 2 ^ ?p\<rparr> pg1 = Inr pg2"
          using d' by blast
        then show ?thesis using True A eq by auto
      next
        case False
        then have "PageAllocator_allocate_locked (pw + 1) pg = Inl (ASSERT ''power < max_power'')" using IH ex by simp
        then show ?thesis using False eq by simp
      qed
    next
      case False
      then have "q = ?p" if "?p \<le> q" "q < 20" for q using that by simp
      moreover have "PageAllocator_allocate_locked pw pg = Inl (ASSERT ''power < max_power'')"
        using le null False lt by (subst PageAllocator_allocate_locked.simps) (simp add: Let_def)
      ultimately show ?thesis using null by auto
    qed
  qed
qed

text \<open>
  C36. Allocating pages ends, and never with the empty optional its callers test for: on any state and
  for any power up to 19, the recursion through the larger powers returns a range of exactly the
  power asked for if a list of this or a larger power is not empty, and otherwise stops the kernel.
\<close>
theorem PageAllocator_allocate_never_empty:
  assumes "unat pw < 20"
  shows "if \<exists>q. unat pw \<le> q \<and> q < 20 \<and> pg_m_blocks pg ! q \<noteq> 0
    then \<exists>b pg'. PageAllocator_allocate_locked pw pg = Inr (Some \<lparr>rg_m_power = pw, rg_m_base = b\<rparr>, pg')
    else PageAllocator_allocate_locked pw pg = Inl (ASSERT ''power < max_power'')"
  by (rule allocate_locked_total[OF assms])

lemma PageAllocator_allocate_never_empty_witness:
  "PageAllocator_allocate_locked 12 \<lparr>pg_m_blocks = (replicate 20 0)[11 := 0x20000000], pg_memory = (\<lambda>_. 0)\<rparr> =
     Inl (ASSERT ''power < max_power'')"
proof -
  have "\<not> (\<exists>q. 12 \<le> q \<and> q < 20 \<and> (replicate 20 (0 :: u32))[11 := 0x20000000] ! q \<noteq> 0)"
    by (auto simp: nth_list_update)
  then show ?thesis
    using PageAllocator_allocate_never_empty[of 12 "\<lparr>pg_m_blocks = (replicate 20 0)[11 := 0x20000000], pg_memory = (\<lambda>_. 0)\<rparr>"]
    by simp
qed

end
