(* ===== verification/Regions.thy ===== *)
theory Regions
  imports Std_Helpers Strings
begin

section \<open>Kernel/MPU.hpp and Kernel/StackWrapper.hpp\<close>

text \<open>
  The registers of the memory protection unit, with the fields of the code's bit-field unions as
  words of their width, and the stacks the kernel prepares for new threads.
\<close>

subsection \<open>Registers\<close>

record RASR =
  ra_enable :: "1 word"
  ra_size :: "5 word"
  ra_reserved_4 :: "2 word"
  ra_srd :: "8 word"
  ra_attrs_b :: "1 word"
  ra_attrs_c :: "1 word"
  ra_attrs_s :: "1 word"
  ra_attrs_tex :: "3 word"
  ra_reserved_3 :: "2 word"
  ra_attrs_ap :: "3 word"
  ra_reserved_2 :: "1 word"
  ra_attrs_xn :: "1 word"
  ra_reserved_1 :: "3 word"

definition RASR_raw :: "RASR \<Rightarrow> u32" where
  "RASR_raw r =
     push_bit 0 (ucast (ra_enable r)) OR push_bit 1 (ucast (ra_size r)) OR push_bit 6 (ucast (ra_reserved_4 r)) OR
     push_bit 8 (ucast (ra_srd r)) OR push_bit 16 (ucast (ra_attrs_b r)) OR push_bit 17 (ucast (ra_attrs_c r)) OR
     push_bit 18 (ucast (ra_attrs_s r)) OR push_bit 19 (ucast (ra_attrs_tex r)) OR push_bit 22 (ucast (ra_reserved_3 r)) OR
     push_bit 24 (ucast (ra_attrs_ap r)) OR push_bit 27 (ucast (ra_reserved_2 r)) OR push_bit 28 (ucast (ra_attrs_xn r)) OR
     push_bit 29 (ucast (ra_reserved_1 r))"

definition RASR_of :: "u32 \<Rightarrow> RASR" where
  "RASR_of raw =
     \<lparr>ra_enable = ucast raw, ra_size = ucast (drop_bit 1 raw), ra_reserved_4 = ucast (drop_bit 6 raw),
      ra_srd = ucast (drop_bit 8 raw), ra_attrs_b = ucast (drop_bit 16 raw), ra_attrs_c = ucast (drop_bit 17 raw),
      ra_attrs_s = ucast (drop_bit 18 raw), ra_attrs_tex = ucast (drop_bit 19 raw), ra_reserved_3 = ucast (drop_bit 22 raw),
      ra_attrs_ap = ucast (drop_bit 24 raw), ra_reserved_2 = ucast (drop_bit 27 raw), ra_attrs_xn = ucast (drop_bit 28 raw),
      ra_reserved_1 = ucast (drop_bit 29 raw)\<rparr>"

record CTRL =
  ct_enable :: "1 word"
  ct_hfnmiena :: "1 word"
  ct_privdefena :: "1 word"
  ct_reserved_1 :: "29 word"

definition CTRL_raw :: "CTRL \<Rightarrow> u32" where
  "CTRL_raw c = push_bit 0 (ucast (ct_enable c)) OR push_bit 1 (ucast (ct_hfnmiena c)) OR
     push_bit 2 (ucast (ct_privdefena c)) OR push_bit 3 (ucast (ct_reserved_1 c))"

definition CTRL_of :: "u32 \<Rightarrow> CTRL" where
  "CTRL_of raw = \<lparr>ct_enable = ucast raw, ct_hfnmiena = ucast (drop_bit 1 raw),
      ct_privdefena = ucast (drop_bit 2 raw), ct_reserved_1 = ucast (drop_bit 3 raw)\<rparr>"

record RBAR =
  rb_region :: "4 word"
  rb_valid :: "1 word"
  rb_addr :: "27 word"

definition RBAR_raw :: "RBAR \<Rightarrow> u32" where
  "RBAR_raw b = push_bit 0 (ucast (rb_region b)) OR push_bit 4 (ucast (rb_valid b)) OR push_bit 5 (ucast (rb_addr b))"

definition RBAR_of :: "u32 \<Rightarrow> RBAR" where
  "RBAR_of raw = \<lparr>rb_region = ucast raw, rb_valid = ucast (drop_bit 4 raw), rb_addr = ucast (drop_bit 5 raw)\<rparr>"

record Region =
  re_rbar :: RBAR
  re_rasr :: RASR

lemmas field_bits = bit_or_iff bit_push_bit_iff bit_ucast_iff bit_drop_bit_eq comp_def

lemma upt_32: "[0..<32] = [0, 1, 2, 3, 4, 5, 6, 7, 8, 9, 10, 11, 12, 13, 14, 15, 16, 17, 18, 19, 20, 21, 22, 23, 24,
    25, 26, 27, 28, 29, 30, 31]"
  by code_simp

lemma RASR_raw_of: "RASR_raw (RASR_of raw) = raw"
proof (rule bit_word_eqI)
  fix n assume n: "n < LENGTH(32)"
  then have "n \<in> set [0..<32]" by simp
  then have "n \<in> {0, 1, 2, 3, 4, 5, 6, 7, 8, 9, 10, 11, 12, 13, 14, 15, 16, 17, 18, 19, 20, 21, 22, 23, 24, 25, 26,
    27, 28, 29, 30, 31}" unfolding upt_32 by simp
  then show "bit (RASR_raw (RASR_of raw)) n = bit raw n"
    unfolding RASR_raw_def RASR_of_def RASR.simps field_bits by (elim insertE emptyE) (simp_all, simp_all add: eval_nat_numeral)
qed


lemma RBAR_fields:
  "rb_region (RBAR_of raw) = ucast raw" "rb_valid (RBAR_of raw) = ucast (drop_bit 4 raw)"
  by (simp_all add: RBAR_of_def)

text \<open>The test \<^verbatim>\<open>(rbar.raw & 0b11111) == 0\<close> asks for region 0 and an unset valid bit.\<close>

lemma RBAR_low_bits:
  assumes "rb_region b = 0" and "rb_valid b = 0"
  shows "RBAR_raw b = push_bit 5 (ucast (rb_addr b))" and "RBAR_raw b AND 0x1F = 0"
proof -
  show e: "RBAR_raw b = push_bit 5 (ucast (rb_addr b))" using assms by (simp add: RBAR_raw_def)
  have m: "(0x1F :: u32) = mask 5" by (simp add: mask_eq_exp_minus_1)
  show "RBAR_raw b AND 0x1F = 0" unfolding e m
    by (rule bit_word_eqI) (auto simp: bit_and_iff bit_mask_iff bit_push_bit_iff)
qed

definition builtin_popcount :: "u32 \<Rightarrow> nat" where
  "builtin_popcount w = length (filter (bit w) [0..<32])"

definition MPU_compute_size :: "usize \<Rightarrow> usize outcome" where
  "MPU_compute_size sz =
     checkE (builtin_popcount sz = 1) (VERIFY ''__builtin_popcount(size) == 1'')
       (bindE (builtin_ctzl sz) (\<lambda>power_of_two.
        checkE (power_of_two \<ge> 1) (VERIFY ''power_of_two >= 1'') (Inr (of_nat power_of_two - 1))))"

subsection \<open>Programming the unit\<close>

text \<open>
  The unit as its manual describes it: writing a base address with the valid bit set selects the
  region it names, other accesses go to the region that \<^verbatim>\<open>rnr\<close> selects.
\<close>

record MPUHardware =
  mp_ctrl :: u32
  mp_rnr :: u32
  mp_rbar :: "u32 list"
  mp_rasr :: "u32 list"

definition mpu_write_rbar :: "u32 \<Rightarrow> MPUHardware \<Rightarrow> MPUHardware" where
  "mpu_write_rbar v hw =
     (let hw = (if bit v 4 then hw\<lparr>mp_rnr := v AND 0xF\<rparr> else hw)
      in hw\<lparr>mp_rbar := (mp_rbar hw)[unat (mp_rnr hw) := v AND NOT 0x1F]\<rparr>)"

definition mpu_write_rasr :: "u32 \<Rightarrow> MPUHardware \<Rightarrow> MPUHardware" where
  "mpu_write_rasr v hw = hw\<lparr>mp_rasr := (mp_rasr hw)[unat (mp_rnr hw) := v]\<rparr>"

definition MPU_rasr :: "MPUHardware \<Rightarrow> RASR" where
  "MPU_rasr hw = RASR_of (mp_rasr hw ! unat (mp_rnr hw))"

definition MPU_set_rasr :: "RASR \<Rightarrow> MPUHardware \<Rightarrow> MPUHardware" where
  "MPU_set_rasr r hw = mpu_write_rasr (RASR_raw r) hw"

definition MPU_ctrl :: "MPUHardware \<Rightarrow> CTRL" where "MPU_ctrl hw = CTRL_of (mp_ctrl hw)"

definition MPU_set_ctrl :: "CTRL \<Rightarrow> MPUHardware \<Rightarrow> MPUHardware" where
  "MPU_set_ctrl c hw = hw\<lparr>mp_ctrl := CTRL_raw c\<rparr>"

fun mpu_clear_loop :: "nat \<Rightarrow> nat \<Rightarrow> MPUHardware \<Rightarrow> MPUHardware" where
  "mpu_clear_loop 0 index hw = hw"
| "mpu_clear_loop (Suc n) index hw =
     mpu_clear_loop n (Suc index) (mpu_write_rasr 0 (mpu_write_rbar 0 (hw\<lparr>mp_rnr := of_nat index\<rparr>)))"

fun setup_mpu_loop :: "Region list \<Rightarrow> nat \<Rightarrow> MPUHardware \<Rightarrow> MPUHardware outcome" where
  "setup_mpu_loop [] index hw = Inr hw"
| "setup_mpu_loop (region # regions) index hw =
     checkE (RBAR_raw (re_rbar region) AND 0b11111 = 0) (VERIFY ''(regions[index].rbar.raw & 0b11111) == 0'')
       (let hw = mpu_write_rbar (RBAR_raw (re_rbar region) OR push_bit 4 1 OR of_nat index) hw;
            rasr_active = MPU_rasr hw;
            rasr = (re_rasr region)\<lparr>ra_reserved_1 := ra_reserved_1 rasr_active, ra_reserved_2 := ra_reserved_2 rasr_active,
              ra_reserved_3 := ra_reserved_3 rasr_active, ra_reserved_4 := ra_reserved_4 rasr_active\<rparr>
        in setup_mpu_loop regions (Suc index) (MPU_set_rasr rasr hw))"

definition setup_mpu :: "Region list \<Rightarrow> MPUHardware \<Rightarrow> MPUHardware outcome" where
  "setup_mpu regions hw =
     (if length regions = 0 then Inr (MPU_set_ctrl ((MPU_ctrl hw)\<lparr>ct_enable := 0\<rparr>) hw)
      else let hw = mpu_clear_loop 8 0 (hw\<lparr>mp_ctrl := 0\<rparr>)
           in checkE (length regions \<le> 8) (VERIFY ''regions.size() <= 8'')
                (bindE (setup_mpu_loop regions 0 hw) (\<lambda>hw.
                 Inr (hw\<lparr>mp_ctrl := push_bit 2 1 OR 0 OR push_bit 0 1\<rparr>))))"

definition mpu_ok :: "MPUHardware \<Rightarrow> bool" where
  "mpu_ok hw \<longleftrightarrow> length (mp_rbar hw) = 8 \<and> length (mp_rasr hw) = 8"

definition region_ok :: "Region \<Rightarrow> bool" where
  "region_ok r \<longleftrightarrow> rb_region (re_rbar r) = 0 \<and> rb_valid (re_rbar r) = 0"

definition plain_rasr :: "RASR \<Rightarrow> RASR" where
  "plain_rasr r = r\<lparr>ra_reserved_1 := 0, ra_reserved_2 := 0, ra_reserved_3 := 0, ra_reserved_4 := 0\<rparr>"

lemma mpu_clear_loop_ok:
  "mpu_ok hw \<Longrightarrow> index + n = 8 \<Longrightarrow> mp_rbar hw = replicate index 0 @ bs \<Longrightarrow> mp_rasr hw = replicate index 0 @ as \<Longrightarrow>
   mp_rbar (mpu_clear_loop n index hw) = replicate 8 0 \<and> mp_rasr (mpu_clear_loop n index hw) = replicate 8 0"
proof (induction n arbitrary: index hw as bs)
  case 0
  then show ?case by (simp add: mpu_ok_def)
next
  case (Suc n)
  obtain b bs' where b: "bs = b # bs'" using Suc.prems by (cases bs) (auto simp: mpu_ok_def)
  obtain a as' where a: "as = a # as'" using Suc.prems by (cases as) (auto simp: mpu_ok_def)
  have u: "unat (of_nat index :: u32) = index" using Suc.prems(2) by (intro word_of_nat_unat_eq) auto
  let ?hw = "mpu_write_rasr 0 (mpu_write_rbar 0 (hw\<lparr>mp_rnr := of_nat index\<rparr>))"
  have "mp_rbar ?hw = replicate (Suc index) 0 @ bs'" "mp_rasr ?hw = replicate (Suc index) 0 @ as'"
    using Suc.prems(3,4) a b u
    by (simp_all add: mpu_write_rasr_def mpu_write_rbar_def list_update_append replicate_append_same[symmetric])
  moreover have "mpu_ok ?hw" using Suc.prems(1) by (simp add: mpu_ok_def mpu_write_rasr_def mpu_write_rbar_def)
  ultimately show ?case using Suc.IH[of ?hw "Suc index" bs' as'] Suc.prems(2) by simp
qed


lemma write_region:
  assumes "mpu_ok hw" and "index < 8" and "region_ok r" and "mp_rasr hw ! index = 0"
  defines "hw1 \<equiv> mpu_write_rbar (RBAR_raw (re_rbar r) OR push_bit 4 1 OR of_nat index) hw"
  shows "mp_rbar hw1 = (mp_rbar hw)[index := RBAR_raw (re_rbar r)]" and "mp_rasr hw1 = mp_rasr hw"
    and "unat (mp_rnr hw1) = index" and "MPU_rasr hw1 = RASR_of 0" and "mp_ctrl hw1 = mp_ctrl hw"
proof -
  let ?b = "RBAR_raw (re_rbar r)" and ?v = "RBAR_raw (re_rbar r) OR push_bit 4 1 OR of_nat index"
  have raw: "?b = push_bit 5 (ucast (rb_addr (re_rbar r)))" using RBAR_low_bits(1) assms(3) by (simp add: region_ok_def)
  have small: "\<not> bit (of_nat index :: u32) n" if "4 \<le> n" for n
  proof -
    have "(2 :: nat) ^ 4 \<le> 2 ^ n" using that by (intro power_increasing) auto
    then have "index div 2 ^ n = 0" using assms(2) by simp
    then show ?thesis by (simp add: bit_of_nat_iff bit_iff_odd[of index])
  qed
  have small': "n < 4" if "bit (of_nat index :: u32) n" for n using that small leI by blast
  define v where "v = ?v"
  have bits: "bit v n \<longleftrightarrow> bit ?b n \<or> n = 4 \<or> bit (of_nat index :: u32) n" for n
    unfolding v_def bit_or_iff bit_push_bit_iff bit_1_iff by auto
  have b5: "5 \<le> n" if "bit ?b n" for n using that unfolding raw bit_push_bit_iff by simp
  from bits have v4: "bit v 4" by blast
  have m4: "(0xF :: u32) = mask 4" and m5: "(0x1F :: u32) = mask 5" by (simp_all add: mask_eq_exp_minus_1)
  have low: "v AND 0xF = of_nat index"
    by (rule bit_word_eqI) (auto simp: m4 bit_and_iff bits bit_mask_iff dest: small' b5)
  have high: "v AND NOT 0x1F = ?b"
    by (rule bit_word_eqI) (auto simp: m5 bit_and_iff bit_not_iff bits bit_mask_iff dest: small' b5)
  have u: "unat (of_nat index :: u32) = index" using assms(2) by (intro word_of_nat_unat_eq) auto
  have e: "hw1 = hw\<lparr>mp_rnr := of_nat index, mp_rbar := (mp_rbar hw)[index := ?b]\<rparr>"
    using v4 unfolding hw1_def mpu_write_rbar_def v_def[symmetric] by (simp add: low high[simplified] u)
  show "mp_rbar hw1 = (mp_rbar hw)[index := ?b]" "mp_rasr hw1 = mp_rasr hw" "unat (mp_rnr hw1) = index"
    "MPU_rasr hw1 = RASR_of 0" "mp_ctrl hw1 = mp_ctrl hw"
    using assms(4) by (simp_all add: e u MPU_rasr_def)
qed

lemma reserved_of_0:
  "ra_reserved_1 (RASR_of 0) = 0" "ra_reserved_2 (RASR_of 0) = 0" "ra_reserved_3 (RASR_of 0) = 0" "ra_reserved_4 (RASR_of 0) = 0"
  by (simp_all add: RASR_of_def)

lemma setup_mpu_loop_ok:
  "mpu_ok hw \<Longrightarrow> index + length regions \<le> 8 \<Longrightarrow> \<forall>r\<in>set regions. region_ok r \<Longrightarrow>
   \<forall>i<8. index \<le> i \<longrightarrow> mp_rasr hw ! i = 0 \<Longrightarrow>
   \<exists>hw'. setup_mpu_loop regions index hw = Inr hw' \<and> mpu_ok hw' \<and> (\<forall>i<8.
     mp_rbar hw' ! i = (if index \<le> i \<and> i < index + length regions then RBAR_raw (re_rbar (regions ! (i - index))) else mp_rbar hw ! i) \<and>
     mp_rasr hw' ! i = (if index \<le> i \<and> i < index + length regions then RASR_raw (plain_rasr (re_rasr (regions ! (i - index)))) else mp_rasr hw ! i))"
proof (induction regions arbitrary: index hw)
  case Nil
  then show ?case by auto
next
  case (Cons r regions)
  have i8: "index < 8" using Cons.prems(2) by simp
  have r: "region_ok r" using Cons.prems(3) by simp
  have z: "mp_rasr hw ! index = 0" using Cons.prems(4) i8 by simp
  note W = write_region[OF Cons.prems(1) i8 r z]
  let ?hw1 = "mpu_write_rbar (RBAR_raw (re_rbar r) OR push_bit 4 1 OR of_nat index) hw"
  let ?hw2 = "MPU_set_rasr (plain_rasr (re_rasr r)) ?hw1"
  have l2: "mp_rbar ?hw2 = (mp_rbar hw)[index := RBAR_raw (re_rbar r)]"
    "mp_rasr ?hw2 = (mp_rasr hw)[index := RASR_raw (plain_rasr (re_rasr r))]"
    using W by (simp_all add: MPU_set_rasr_def mpu_write_rasr_def)
  have ok2: "mpu_ok ?hw2" using Cons.prems(1) unfolding mpu_ok_def l2 by simp
  have z2: "\<forall>i<8. Suc index \<le> i \<longrightarrow> mp_rasr ?hw2 ! i = 0" using Cons.prems(4) unfolding l2 by simp
  have step: "setup_mpu_loop (r # regions) index hw = setup_mpu_loop regions (Suc index) ?hw2"
    using RBAR_low_bits(2)[of "re_rbar r"] r W(4)
    by (simp add: region_ok_def Let_def plain_rasr_def reserved_of_0)
  have len: "Suc index + length regions \<le> 8" using Cons.prems(2) by simp
  have ok: "\<forall>x\<in>set regions. region_ok x" using Cons.prems(3) by simp
  obtain hw' where H: "setup_mpu_loop regions (Suc index) ?hw2 = Inr hw'" "mpu_ok hw'" "\<forall>i<8.
     mp_rbar hw' ! i = (if Suc index \<le> i \<and> i < Suc index + length regions then RBAR_raw (re_rbar (regions ! (i - Suc index))) else mp_rbar ?hw2 ! i) \<and>
     mp_rasr hw' ! i = (if Suc index \<le> i \<and> i < Suc index + length regions then RASR_raw (plain_rasr (re_rasr (regions ! (i - Suc index)))) else mp_rasr ?hw2 ! i)"
    using Cons.IH[OF ok2 len ok z2] by blast
  have "mp_rbar hw' ! i = (if index \<le> i \<and> i < index + length (r # regions) then RBAR_raw (re_rbar ((r # regions) ! (i - index))) else mp_rbar hw ! i) \<and>
     mp_rasr hw' ! i = (if index \<le> i \<and> i < index + length (r # regions) then RASR_raw (plain_rasr (re_rasr ((r # regions) ! (i - index)))) else mp_rasr hw ! i)"
    if i: "i < 8" for i
  proof (cases "i = index")
    case True
    then show ?thesis using H(3)[rule_format, OF i, unfolded l2] Cons.prems(1) i8 by (simp add: mpu_ok_def)
  next
    case False
    then have "index \<le> i \<Longrightarrow> (r # regions) ! (i - index) = regions ! (i - Suc index)"
      by (metis Suc_diff_Suc le_neq_implies_less nth_Cons_Suc)
    then show ?thesis using H(3)[rule_format, OF i, unfolded l2] False by auto
  qed
  then show ?case using step H(1,2) by auto
qed

lemma CTRL_disable: "CTRL_raw ((CTRL_of w)\<lparr>ct_enable := 0\<rparr>) = w AND NOT 1"
proof (rule bit_word_eqI)
  fix n assume n: "n < LENGTH(32)"
  have one: "bit (1 :: u32) n \<longleftrightarrow> n = 0" by (simp add: bit_1_iff)
  show "bit (CTRL_raw ((CTRL_of w)\<lparr>ct_enable := 0\<rparr>)) n = bit (w AND NOT 1) n"
    using n unfolding CTRL_raw_def CTRL_of_def
    by (cases "n = 0"; cases "n = 1"; cases "n = 2"; simp del: push_bit_of_Suc_0 push_bit_Suc push_bit_numeral
        add: bit_or_iff bit_and_iff bit_not_iff bit_push_bit_iff bit_ucast_iff bit_drop_bit_eq one) auto
qed

lemma setup_mpu_regions:
  assumes "mpu_ok hw" and "regions \<noteq> []" and "length regions \<le> 8" and "list_all region_ok regions"
  shows "\<exists>hw'. setup_mpu regions hw = Inr hw' \<and> mp_ctrl hw' = 5 \<and>
    mp_rbar hw' = map (\<lambda>r. RBAR_raw (re_rbar r)) regions @ replicate (8 - length regions) 0 \<and>
    mp_rasr hw' = map (\<lambda>r. RASR_raw (plain_rasr (re_rasr r))) regions @ replicate (8 - length regions) 0"
proof -
  let ?hw = "mpu_clear_loop 8 0 (hw\<lparr>mp_ctrl := 0\<rparr>)"
  have c: "mp_rbar ?hw = replicate 8 0" "mp_rasr ?hw = replicate 8 0"
    using mpu_clear_loop_ok[of "hw\<lparr>mp_ctrl := 0\<rparr>" 0 8 "mp_rbar hw" "mp_rasr hw"] assms(1)
    by (simp_all add: mpu_ok_def)
  then have ok: "mpu_ok ?hw" and z: "\<forall>i<8. 0 \<le> i \<longrightarrow> mp_rasr ?hw ! i = 0" by (simp_all add: mpu_ok_def)
  have l: "0 + length regions \<le> 8" and r: "\<forall>r\<in>set regions. region_ok r" using assms(3,4) by (simp_all add: list_all_iff)
  obtain hw' where H: "setup_mpu_loop regions 0 ?hw = Inr hw'" "mpu_ok hw'" "\<forall>i<8.
     mp_rbar hw' ! i = (if 0 \<le> i \<and> i < 0 + length regions then RBAR_raw (re_rbar (regions ! (i - 0))) else mp_rbar ?hw ! i) \<and>
     mp_rasr hw' ! i = (if 0 \<le> i \<and> i < 0 + length regions then RASR_raw (plain_rasr (re_rasr (regions ! (i - 0)))) else mp_rasr ?hw ! i)"
    using setup_mpu_loop_ok[OF ok l r z] by blast
  have "mp_rbar hw' = map (\<lambda>r. RBAR_raw (re_rbar r)) regions @ replicate (8 - length regions) 0"
    "mp_rasr hw' = map (\<lambda>r. RASR_raw (plain_rasr (re_rasr r))) regions @ replicate (8 - length regions) 0"
    using H(2,3) c assms(3) by (auto simp: mpu_ok_def nth_append intro!: nth_equalityI)
  then show ?thesis using H(1) assms(2,3) by (intro exI[of _ "hw'\<lparr>mp_ctrl := 5\<rparr>"]) (simp add: setup_mpu_def Let_def)
qed

text \<open>
  C37. Programming the memory protection unit, in all cases: more than eight regions stop the kernel;
  without regions \<^verbatim>\<open>setup_mpu\<close> clears the enable bit and changes nothing else; with one to eight
  regions whose region numbers and valid bits are zero it leaves the unit enabled, with the default
  map for privileged code, and with exactly these regions in order and with their attributes,
  whatever it held before, and every other region switched off.
\<close>
theorem setup_mpu_programs:
  assumes "mpu_ok hw" and "list_all region_ok regions"
  shows "if length regions > 8 then setup_mpu regions hw = Inl (VERIFY ''regions.size() <= 8'')
    else if regions = [] then setup_mpu regions hw = Inr (hw\<lparr>mp_ctrl := mp_ctrl hw AND NOT 1\<rparr>)
    else (\<exists>hw'. setup_mpu regions hw = Inr hw' \<and> mp_ctrl hw' = 5 \<and>
      mp_rbar hw' = map (\<lambda>r. RBAR_raw (re_rbar r)) regions @ replicate (8 - length regions) 0 \<and>
      mp_rasr hw' = map (\<lambda>r. RASR_raw (plain_rasr (re_rasr r))) regions @ replicate (8 - length regions) 0)"
proof -
  consider "length regions > 8" | "regions = []" | "regions \<noteq> []" "length regions \<le> 8" by fastforce
  then show ?thesis
  proof cases
    case 1
    then show ?thesis by (cases regions) (simp_all add: setup_mpu_def Let_def)
  next
    case 2
    then show ?thesis by (simp add: setup_mpu_def MPU_set_ctrl_def MPU_ctrl_def CTRL_disable)
  next
    case 3
    then show ?thesis using setup_mpu_regions[OF assms(1) 3 assms(2)] by simp
  qed
qed

text \<open>What later theories use of it: programming the regions of a thread succeeds.\<close>

lemma setup_mpu_succeeds:
  assumes "mpu_ok hw" and "regions \<noteq> []" and "length regions \<le> 8" and "list_all region_ok regions"
  obtains hw' where "setup_mpu regions hw = Inr hw'" "mpu_ok hw'"
  using setup_mpu_regions[OF assms] assms(3) by (auto simp: mpu_ok_def)

subsection \<open>The regions of a thread\<close>

definition flash_region :: Region where
  "flash_region =
     \<lparr>re_rbar = \<lparr>rb_region = 0, rb_valid = 0, rb_addr = ucast (drop_bit 5 (0x10000000 :: u32))\<rparr>,
      re_rasr = \<lparr>ra_enable = 1, ra_size = 20, ra_reserved_4 = 0, ra_srd = 0, ra_attrs_b = 1, ra_attrs_c = 1,
        ra_attrs_s = 1, ra_attrs_tex = 0, ra_reserved_3 = 0, ra_attrs_ap = 7, ra_reserved_2 = 0, ra_attrs_xn = 0,
        ra_reserved_1 = 0\<rparr>\<rparr>"

definition stack_region :: "uptr \<Rightarrow> usize \<Rightarrow> Region outcome" where
  "stack_region data sz =
     bindE (MPU_compute_size sz) (\<lambda>n. Inr
     \<lparr>re_rbar = \<lparr>rb_region = 0, rb_valid = 0, rb_addr = ucast (drop_bit 5 data)\<rparr>,
      re_rasr = \<lparr>ra_enable = 1, ra_size = ucast n, ra_reserved_4 = 0, ra_srd = 0, ra_attrs_b = 1, ra_attrs_c = 1,
        ra_attrs_s = 1, ra_attrs_tex = 0, ra_reserved_3 = 0, ra_attrs_ap = 3, ra_reserved_2 = 0, ra_attrs_xn = 1,
        ra_reserved_1 = 0\<rparr>\<rparr>)"

definition ram_region :: "uptr \<Rightarrow> usize \<Rightarrow> Region outcome" where
  "ram_region m_writable_base m_writable_size =
     checkE (builtin_popcount m_writable_size = 1) (VERIFY ''__builtin_popcount(executable.m_writable_size) == 1'')
     (checkE (m_writable_base mod 256 = 0) (VERIFY ''executable.m_writable_base % PageAllocator::page_size == 0'')
     (bindE (MPU_compute_size m_writable_size) (\<lambda>n. Inr
     \<lparr>re_rbar = \<lparr>rb_region = 0, rb_valid = 0, rb_addr = ucast (drop_bit 5 m_writable_base)\<rparr>,
      re_rasr = \<lparr>ra_enable = 1, ra_size = ucast n, ra_reserved_4 = 0, ra_srd = 0, ra_attrs_b = 1, ra_attrs_c = 1,
        ra_attrs_s = 1, ra_attrs_tex = 0, ra_reserved_3 = 0, ra_attrs_ap = 3, ra_reserved_2 = 0, ra_attrs_xn = 1,
        ra_reserved_1 = 0\<rparr>\<rparr>)))"

definition rom_region :: Region where
  "rom_region =
     \<lparr>re_rbar = \<lparr>rb_region = 0, rb_valid = 0, rb_addr = ucast (drop_bit 5 (0x00000000 :: u32))\<rparr>,
      re_rasr = \<lparr>ra_enable = 1, ra_size = 13, ra_reserved_4 = 0, ra_srd = 0, ra_attrs_b = 1, ra_attrs_c = 1,
        ra_attrs_s = 1, ra_attrs_tex = 0, ra_reserved_3 = 0, ra_attrs_ap = 7, ra_reserved_2 = 0, ra_attrs_xn = 0,
        ra_reserved_1 = 0\<rparr>\<rparr>"

lemma setup_mpu_programs_witness:
  "\<exists>hw'. setup_mpu [flash_region, rom_region]
       \<lparr>mp_ctrl = 7, mp_rnr = 3, mp_rbar = replicate 8 0x20000000, mp_rasr = replicate 8 0xFFFFFFFF\<rparr> = Inr hw' \<and>
     mp_ctrl hw' = 5 \<and> mp_rbar hw' = [0x10000000, 0, 0, 0, 0, 0, 0, 0] \<and>
     mp_rasr hw' = [0x07070029, 0x0707001B, 0, 0, 0, 0, 0, 0]"
proof -
  let ?hw = "\<lparr>mp_ctrl = 7, mp_rnr = 3, mp_rbar = replicate 8 0x20000000, mp_rasr = replicate 8 0xFFFFFFFF\<rparr>"
  have ok: "mpu_ok ?hw" "list_all region_ok [flash_region, rom_region]"
    by (simp_all add: mpu_ok_def region_ok_def flash_region_def rom_region_def)
  have raw: "RBAR_raw (re_rbar flash_region) = 0x10000000" "RBAR_raw (re_rbar rom_region) = 0"
    "RASR_raw (plain_rasr (re_rasr flash_region)) = 0x07070029" "RASR_raw (plain_rasr (re_rasr rom_region)) = 0x0707001B"
    by code_simp+
  have rep: "replicate 6 (0 :: u32) = [0, 0, 0, 0, 0, 0]" by (simp add: eval_nat_numeral)
  show ?thesis using setup_mpu_programs[OF ok] by (simp add: raw rep)
qed

subsection \<open>Stacks\<close>

text \<open>
  \<open>sw_m_bytes\<close> is the memory from the lowest address of the stack on.  What is pushed is given by
  its bytes; an address outside of the stack is outside of the model.
\<close>

record StackWrapper =
  sw_m_base :: uptr
  sw_m_bytes :: "u8 list"
  sw_m_top :: uptr

definition StackWrapper_new :: "uptr \<Rightarrow> u8 list \<Rightarrow> StackWrapper" where
  "StackWrapper_new data bytes = \<lparr>sw_m_base = data, sw_m_bytes = bytes, sw_m_top = data + of_nat (length bytes)\<rparr>"

definition StackWrapper_reserve :: "usize \<Rightarrow> StackWrapper \<Rightarrow> (uptr \<times> StackWrapper) outcome" where
  "StackWrapper_reserve count st =
     checkE (sw_m_base st + count \<le> sw_m_top st) (ASSERT ''m_bytes.data() + count <= m_top'')
       (let top = sw_m_top st - count in Inr (top, st\<lparr>sw_m_top := top\<rparr>))"

definition StackWrapper_store :: "uptr \<Rightarrow> u8 list \<Rightarrow> StackWrapper \<Rightarrow> StackWrapper outcome" where
  "StackWrapper_store data bytes st =
     (let at = unat (data - sw_m_base st)
      in checkE (at + length bytes \<le> length (sw_m_bytes st)) (UNDEFINED ''out of bounds'')
           (Inr (st\<lparr>sw_m_bytes := take at (sw_m_bytes st) @ bytes @ drop (at + length bytes) (sw_m_bytes st)\<rparr>)))"

definition StackWrapper_push :: "u8 list \<Rightarrow> StackWrapper \<Rightarrow> (uptr \<times> StackWrapper) outcome" where
  "StackWrapper_push bytes st =
     bindE (StackWrapper_reserve (of_nat (length bytes)) st) (\<lambda>(data, st).
     bindE (StackWrapper_store data bytes st) (\<lambda>st. Inr (data, st)))"

definition StackWrapper_push_value :: "u8 list \<Rightarrow> StackWrapper \<Rightarrow> (uptr \<times> StackWrapper) outcome" where
  "StackWrapper_push_value object st =
     bindE (StackWrapper_reserve (of_nat (length object)) st) (\<lambda>(data, st).
     bindE (StackWrapper_store data object st) (\<lambda>st. Inr (data, st)))"

definition StackWrapper_align :: "u32 \<Rightarrow> StackWrapper \<Rightarrow> (uptr \<times> StackWrapper) outcome" where
  "StackWrapper_align boundary st =
     (if sw_m_top st mod boundary \<noteq> 0
      then bindE (StackWrapper_reserve (sw_m_top st mod boundary) st) (\<lambda>(_, st). Inr (sw_m_top st, st))
      else Inr (sw_m_top st, st))"

definition StackWrapper_push_cstring :: "string \<Rightarrow> StackWrapper \<Rightarrow> (uptr \<times> StackWrapper) outcome" where
  "StackWrapper_push_cstring cstring st =
     bindE (strlen cstring) (\<lambda>n.
     bindE (StackWrapper_reserve (n + 1) st) (\<lambda>(_, st).
     bindE (StackWrapper_align 4 st) (\<lambda>(cstring_on_stack, st).
     bindE (StackWrapper_store cstring_on_stack (map of_char (take (unat n + 1) cstring)) st) (\<lambda>st.
     Inr (cstring_on_stack, st)))))"

definition StackWrapper_top :: "StackWrapper \<Rightarrow> uptr" where "StackWrapper_top st = sw_m_top st"

text \<open>The lambda \<^verbatim>\<open>push_cstring_array\<close> of \<^verbatim>\<open>Process::create\<close>: strings, then their pointers.\<close>

fun push_strings :: "string list \<Rightarrow> uptr list \<Rightarrow> StackWrapper \<Rightarrow> (uptr list \<times> StackWrapper) outcome" where
  "push_strings [] pointers stack = Inr (pointers, stack)"
| "push_strings (x # array) pointers stack =
     bindE (StackWrapper_push_cstring (x @ [CHR 0x00]) stack) (\<lambda>(p, stack). push_strings array (pointers @ [p]) stack)"

function push_pointers :: "nat \<Rightarrow> uptr list \<Rightarrow> uptr \<Rightarrow> StackWrapper \<Rightarrow> (uptr \<times> StackWrapper) outcome" where
  "push_pointers i pointers pointer stack =
     (if i < length pointers
      then bindE (StackWrapper_push_value (u32_bytes (pointers ! (length pointers - i - 1))) stack) (\<lambda>(pointer, stack).
           push_pointers (Suc i) pointers pointer stack)
      else Inr (pointer, stack))"
  by pat_completeness auto
termination
  by (relation "measure (\<lambda>(i, pointers, _, _). length pointers - i)") auto

declare push_pointers.simps [simp del]

definition push_cstring_array :: "string list \<Rightarrow> StackWrapper \<Rightarrow> (uptr \<times> StackWrapper) outcome" where
  "push_cstring_array array stack =
     bindE (push_strings array [] stack) (\<lambda>(pointers, stack).
     bindE (StackWrapper_push_value (u32_bytes 0) stack) (\<lambda>(pointer, stack).
     push_pointers 0 pointers pointer stack))"


subsection \<open>What is on a stack\<close>

definition stack_ok :: "StackWrapper \<Rightarrow> bool" where
  "stack_ok st \<longleftrightarrow> unat (sw_m_base st) + length (sw_m_bytes st) < 2 ^ 32 \<and> unat (sw_m_base st) \<le> unat (sw_m_top st) \<and>
     unat (sw_m_top st) \<le> unat (sw_m_base st) + length (sw_m_bytes st)"

definition room :: "StackWrapper \<Rightarrow> nat" where
  "room st = unat (sw_m_top st) - unat (sw_m_base st)"

lemma room_bound: "room st < 2 ^ 32"
  unfolding room_def by (rule less_imp_diff_less) simp

text \<open>The bytes from an address on, and everything pushed.\<close>

definition memory_from :: "StackWrapper \<Rightarrow> uptr \<Rightarrow> u8 list" where
  "memory_from st a = drop (unat a - unat (sw_m_base st)) (sw_m_bytes st)"

abbreviation pushed :: "StackWrapper \<Rightarrow> u8 list" where
  "pushed st \<equiv> memory_from st (sw_m_top st)"

definition deeper :: "StackWrapper \<Rightarrow> StackWrapper \<Rightarrow> bool" where
  "deeper st st' \<longleftrightarrow> stack_ok st' \<and> sw_m_base st' = sw_m_base st \<and> length (sw_m_bytes st') = length (sw_m_bytes st) \<and>
     unat (sw_m_top st') \<le> unat (sw_m_top st) \<and> memory_from st' (sw_m_top st) = pushed st"

lemma memory_suffix:
  assumes "memory_from st' a = memory_from st a" and "sw_m_base st' = sw_m_base st" and "unat (sw_m_base st) \<le> unat a"
    and "unat a \<le> unat b"
  shows "memory_from st' b = memory_from st b"
proof -
  have "memory_from st c = drop (unat c - unat a) (memory_from st a)" if "unat a \<le> unat c" "unat (sw_m_base st) \<le> unat a" for st c
    using that by (simp add: memory_from_def)
  then show ?thesis using assms by metis
qed

lemma deeper_memory: "deeper st st' \<Longrightarrow> stack_ok st \<Longrightarrow> unat (sw_m_top st) \<le> unat a \<Longrightarrow> memory_from st' a = memory_from st a"
  by (rule memory_suffix[of st' "sw_m_top st"]) (simp_all add: deeper_def stack_ok_def)

lemma deeper_refl: "stack_ok st \<Longrightarrow> deeper st st"
  by (simp add: deeper_def)

lemma deeper_trans: "deeper a b \<Longrightarrow> deeper b c \<Longrightarrow> stack_ok a \<Longrightarrow> deeper a c"
  using deeper_memory[of b c "sw_m_top a"] by (auto simp: deeper_def)

lemma reserve_ok:
  assumes ok: "stack_ok st" and n: "unat count \<le> room st"
  shows "StackWrapper_reserve count st = Inr (sw_m_top st - count, st\<lparr>sw_m_top := sw_m_top st - count\<rparr>)"
    and "unat (sw_m_top st - count) = unat (sw_m_top st) - unat count"
    and "stack_ok (st\<lparr>sw_m_top := sw_m_top st - count\<rparr>)" and "deeper st (st\<lparr>sw_m_top := sw_m_top st - count\<rparr>)"
    and "room (st\<lparr>sw_m_top := sw_m_top st - count\<rparr>) = room st - unat count"
proof -
  have le: "unat (sw_m_base st) + unat count \<le> unat (sw_m_top st)" using ok n unfolding stack_ok_def room_def by linarith
  then have "unat (sw_m_base st + count) = unat (sw_m_base st) + unat count"
    using unat_add_small[of "sw_m_base st" count] le_less_trans[OF le unat_bound32] by simp
  then show "StackWrapper_reserve count st = Inr (sw_m_top st - count, st\<lparr>sw_m_top := sw_m_top st - count\<rparr>)"
    using le by (simp add: StackWrapper_reserve_def word_le_nat_alt checkE_def Let_def)
  show u: "unat (sw_m_top st - count) = unat (sw_m_top st) - unat count" using unat_sub_small[of count "sw_m_top st"] le by simp
  have b: "unat (sw_m_base st) \<le> unat (sw_m_top st) - unat count"
    "unat (sw_m_top st) - unat count \<le> unat (sw_m_base st) + length (sw_m_bytes st)"
    using ok le unfolding stack_ok_def by linarith+
  then show ok': "stack_ok (st\<lparr>sw_m_top := sw_m_top st - count\<rparr>)" using ok u by (simp add: stack_ok_def)
  show "deeper st (st\<lparr>sw_m_top := sw_m_top st - count\<rparr>)" using ok' u by (simp add: deeper_def memory_from_def)
  show "room (st\<lparr>sw_m_top := sw_m_top st - count\<rparr>) = room st - unat count" using u by (simp add: room_def)
qed

lemma store_ok:
  assumes ok: "stack_ok st" and st0: "stack_ok st0" "deeper st0 st" and n: "unat (sw_m_top st) + length bs \<le> unat (sw_m_top st0)"
  shows "\<exists>st'. StackWrapper_store (sw_m_top st) bs st = Inr st' \<and> deeper st0 st' \<and> sw_m_top st' = sw_m_top st \<and> room st' = room st \<and>
    take (length bs) (pushed st') = bs \<and>
    drop (length bs) (pushed st') = drop (length bs) (pushed st)"
proof -
  have le: "unat (sw_m_base st) \<le> unat (sw_m_top st)" and l0: "unat (sw_m_top st0) \<le> unat (sw_m_base st) + length (sw_m_bytes st)"
    using ok st0 by (simp_all add: stack_ok_def deeper_def)
  define at where "at = unat (sw_m_top st) - unat (sw_m_base st)"
  have at: "unat (sw_m_top st - sw_m_base st) = at" using unat_sub_small[of "sw_m_base st" "sw_m_top st"] le by (simp add: at_def)
  have len: "at + length bs \<le> length (sw_m_bytes st)" using n le l0 by (simp add: at_def)
  define st' where "st' = st\<lparr>sw_m_bytes := take at (sw_m_bytes st) @ bs @ drop (at + length bs) (sw_m_bytes st)\<rparr>"
  have e: "StackWrapper_store (sw_m_top st) bs st = Inr st'" using len by (simp add: StackWrapper_store_def at st'_def)
  have l': "length (sw_m_bytes st') = length (sw_m_bytes st)" using len by (simp add: st'_def)
  have p: "pushed st' = bs @ drop (at + length bs) (sw_m_bytes st)" using len by (simp add: memory_from_def st'_def at_def[symmetric])
  have "pushed st = drop at (sw_m_bytes st)" by (simp add: memory_from_def at_def)
  then have d: "drop (length bs) (pushed st') = drop (length bs) (pushed st)" unfolding p by (simp add: add.commute)
  have "memory_from st' (sw_m_top st0) = memory_from st (sw_m_top st0)"
  proof -
    define k where "k = unat (sw_m_top st0) - unat (sw_m_top st)"
    have k: "length bs \<le> k" "unat (sw_m_top st0) - unat (sw_m_base st) = at + k" using n le by (auto simp: k_def at_def)
    have "drop (at + k) (sw_m_bytes st') = drop (k - length bs) (drop (at + length bs) (sw_m_bytes st))"
      using k(1) len by (simp add: st'_def)
    also have "\<dots> = drop (at + k) (sw_m_bytes st)" using k(1) by (simp add: add.commute)
    finally show ?thesis using k(2) by (simp add: memory_from_def st'_def)
  qed
  then have "deeper st0 st'" using st0 ok l' by (simp add: deeper_def stack_ok_def st'_def)
  moreover have "room st' = room st" "sw_m_top st' = sw_m_top st" by (simp_all add: room_def st'_def)
  ultimately show ?thesis using e p d by simp
qed

lemma push_value_ok:
  assumes ok: "stack_ok st" and n: "length object \<le> room st"
  shows "\<exists>st'. StackWrapper_push_value object st = Inr (sw_m_top st', st') \<and> deeper st st' \<and>
    room st' = room st - length object \<and> pushed st' = object @ pushed st"
proof -
  have "room st < 2 ^ 32" by (rule room_bound)
  then have u: "unat (of_nat (length object) :: u32) = length object" using n by (intro word_of_nat_unat_eq) auto
  note R = reserve_ok[OF ok, of "of_nat (length object)", unfolded u, OF n]
  let ?st1 = "st\<lparr>sw_m_top := sw_m_top st - of_nat (length object)\<rparr>"
  have top: "unat (sw_m_top ?st1) + length object \<le> unat (sw_m_top st)" using R(2) n ok by (simp add: room_def stack_ok_def)
  obtain st' where S: "StackWrapper_store (sw_m_top ?st1) object ?st1 = Inr st'" "deeper st st'" "sw_m_top st' = sw_m_top ?st1"
    "room st' = room ?st1" "take (length object) (pushed st') = object"
    "drop (length object) (pushed st') = drop (length object) (pushed ?st1)"
    using store_ok[OF R(3) ok R(4) top] by blast
  have "unat (sw_m_top st) - unat (sw_m_base st) = length object + (unat (sw_m_top ?st1) - unat (sw_m_base st))"
    using R(2) n ok by (simp add: room_def stack_ok_def)
  then have "drop (length object) (pushed ?st1) = pushed st" by (simp add: memory_from_def add.commute)
  then have "pushed st' = object @ pushed st" using S(5,6) by (metis append_take_drop_id)
  then show ?thesis using R(1,5) S by (simp add: StackWrapper_push_value_def)
qed


lemma align_ok:
  assumes ok: "stack_ok st" and n: "3 \<le> room st"
  shows "\<exists>st'. StackWrapper_align 4 st = Inr (sw_m_top st', st') \<and> deeper st st' \<and> room st - 3 \<le> room st' \<and>
    4 dvd unat (sw_m_top st')"
proof -
  let ?r = "sw_m_top st mod 4"
  have u: "unat ?r = unat (sw_m_top st) mod 4" by (simp add: unat_mod)
  show ?thesis
  proof (cases "?r = 0")
    case True
    then show ?thesis using u deeper_refl[OF ok] by (auto simp: StackWrapper_align_def)
  next
    case False
    have "unat (sw_m_top st) mod 4 \<le> 3" by linarith
    then have r3: "unat ?r \<le> room st" "unat ?r \<le> 3" using u n by simp_all
    note R = reserve_ok[OF ok r3(1)]
    have "4 dvd unat (sw_m_top st - ?r)" unfolding R(2) u by simp
    then show ?thesis using False R r3(2) by (auto simp: StackWrapper_align_def)
  qed
qed

lemma push_cstring_ok:
  assumes ok: "stack_ok st" and x: "CHR 0x00 \<notin> set x" and n: "length x + 4 \<le> room st"
  shows "\<exists>st'. StackWrapper_push_cstring (x @ [CHR 0x00]) st = Inr (sw_m_top st', st') \<and> deeper st st' \<and>
    room st \<le> room st' + length x + 4 \<and> 4 dvd unat (sw_m_top st') \<and>
    take (length x + 1) (pushed st') = map of_char (x @ [CHR 0x00])"
proof -
  have "room st < 2 ^ 32" by (rule room_bound)
  then have l32: "length x + 1 < 2 ^ 32" using n by simp
  let ?n = "of_nat (length x) :: u32"
  have u: "unat ?n = length x" "unat (?n + 1) = length x + 1"
  proof -
    show u1: "unat ?n = length x" using l32 by (intro word_of_nat_unat_eq) auto
    show "unat (?n + 1) = length x + 1" using unat_inc[of ?n "length x + 1"] l32 u1 by simp
  qed
  have sl: "strlen (x @ [CHR 0x00]) = Inr ?n" using strlen_terminated[OF x, of "[]"] by simp
  have c: "unat (?n + 1) \<le> room st" using u n by simp
  note R = reserve_ok[OF ok c]
  let ?st1 = "st\<lparr>sw_m_top := sw_m_top st - (?n + 1)\<rparr>"
  have "3 \<le> room ?st1" using R(5) u n by simp
  from align_ok[OF R(3) this] obtain st2 where A: "StackWrapper_align 4 ?st1 = Inr (sw_m_top st2, st2)" "deeper ?st1 st2"
    "room ?st1 - 3 \<le> room st2" "4 dvd unat (sw_m_top st2)" by blast
  have d2: "deeper st st2" by (rule deeper_trans[OF R(4) A(2) ok])
  have ok2: "stack_ok st2" using A(2) by (simp add: deeper_def)
  let ?bs = "map of_char (x @ [CHR 0x00]) :: u8 list"
  have top: "unat (sw_m_top st2) + length ?bs \<le> unat (sw_m_top st)"
    using A(2) R(2) u c ok by (auto simp: deeper_def room_def stack_ok_def)
  obtain st3 where S: "StackWrapper_store (sw_m_top st2) ?bs st2 = Inr st3" "deeper st st3" "sw_m_top st3 = sw_m_top st2"
    "room st3 = room st2" "take (length ?bs) (pushed st3) = ?bs"
    using store_ok[OF ok2 ok d2 top] by blast
  have "take (unat ?n + 1) (x @ [CHR 0x00]) = x @ [CHR 0x00]" using u by simp
  then have "StackWrapper_push_cstring (x @ [CHR 0x00]) st = Inr (sw_m_top st3, st3)"
    using sl R(1) A(1) S(1,3) by (simp only: StackWrapper_push_cstring_def bindE_Inr prod.case)
  moreover have "room st \<le> room st3 + length x + 4" using A(3) R(5) u S(4) n by simp
  ultimately show ?thesis using S A(4) by auto
qed

definition string_at :: "StackWrapper \<Rightarrow> uptr \<Rightarrow> string \<Rightarrow> bool" where
  "string_at st a x \<longleftrightarrow> take (length x + 1) (memory_from st a) = map of_char (x @ [CHR 0x00])"

lemma push_strings_ok:
  "stack_ok st \<Longrightarrow> \<forall>x\<in>set array. CHR 0x00 \<notin> set x \<Longrightarrow> sum_list (map (\<lambda>x. length x + 4) array) \<le> room st \<Longrightarrow>
   \<exists>ps st'. push_strings array acc st = Inr (acc @ ps, st') \<and> deeper st st' \<and> length ps = length array \<and>
     room st \<le> room st' + sum_list (map (\<lambda>x. length x + 4) array) \<and> (array \<noteq> [] \<longrightarrow> 4 dvd unat (sw_m_top st')) \<and>
     (\<forall>i<length array. string_at st' (ps ! i) (array ! i) \<and> unat (sw_m_top st') \<le> unat (ps ! i))"
proof (induction array arbitrary: acc st)
  case Nil
  then show ?case by (auto intro: deeper_refl)
next
  case (Cons x array)
  have x: "CHR 0x00 \<notin> set x" "length x + 4 \<le> room st" using Cons.prems(2,3) by simp_all
  obtain st1 where P: "StackWrapper_push_cstring (x @ [CHR 0x00]) st = Inr (sw_m_top st1, st1)" "deeper st st1"
    "room st \<le> room st1 + length x + 4" "4 dvd unat (sw_m_top st1)" "string_at st1 (sw_m_top st1) x"
    using push_cstring_ok[OF Cons.prems(1) x] by (auto simp: string_at_def)
  have ok1: "stack_ok st1" using P(2) by (simp add: deeper_def)
  have a1: "\<forall>x\<in>set array. CHR 0x00 \<notin> set x" "sum_list (map (\<lambda>x. length x + 4) array) \<le> room st1"
    using Cons.prems(2,3) P(3) by simp_all
  obtain ps st2 where Q: "push_strings array (acc @ [sw_m_top st1]) st1 = Inr ((acc @ [sw_m_top st1]) @ ps, st2)" "deeper st1 st2"
    "length ps = length array" "room st1 \<le> room st2 + sum_list (map (\<lambda>x. length x + 4) array)"
    "array \<noteq> [] \<longrightarrow> 4 dvd unat (sw_m_top st2)"
    "\<forall>i<length array. string_at st2 (ps ! i) (array ! i) \<and> unat (sw_m_top st2) \<le> unat (ps ! i)"
    using Cons.IH[OF ok1 a1, of "acc @ [sw_m_top st1]"] by blast
  have top: "unat (sw_m_top st2) \<le> unat (sw_m_top st1)" using Q(2) by (simp add: deeper_def)
  have "string_at st2 (sw_m_top st1) x" using P(5) deeper_memory[OF Q(2) ok1 order.refl] by (simp add: string_at_def)
  then have all: "\<forall>i<length (x # array). string_at st2 ((sw_m_top st1 # ps) ! i) ((x # array) ! i) \<and>
      unat (sw_m_top st2) \<le> unat ((sw_m_top st1 # ps) ! i)"
    using Q(6) top by (auto simp: nth_Cons split: nat.splits)
  have al: "4 dvd unat (sw_m_top st2)"
  proof (cases array)
    case Nil
    then show ?thesis using Q(1) P(4) by simp
  next
    case (Cons y ys)
    then show ?thesis using Q(5) by simp
  qed
  show ?case
    using P(1) Q(1,3) deeper_trans[OF P(2) Q(2) Cons.prems(1)] P(3) Q(4) al all
    by (intro exI[of _ "sw_m_top st1 # ps"] exI[of _ st2]) auto
qed


lemma room_top: "stack_ok st \<Longrightarrow> unat (sw_m_top st) = unat (sw_m_base st) + room st"
  by (simp add: stack_ok_def room_def)

lemma push_pointers_ok:
  "stack_ok st \<Longrightarrow> i \<le> length ps \<Longrightarrow> k = length ps - i \<Longrightarrow> 4 * k \<le> room st \<Longrightarrow>
   pushed st = concat (map u32_bytes (drop k ps @ [0])) @ rest \<Longrightarrow>
   \<exists>st'. push_pointers i ps (sw_m_top st) st = Inr (sw_m_top st', st') \<and> deeper st st' \<and> room st' = room st - 4 * k \<and>
     pushed st' = concat (map u32_bytes (ps @ [0])) @ rest"
proof (induction k arbitrary: i st)
  case 0
  then show ?case by (subst push_pointers.simps) (auto intro: deeper_refl)
next
  case (Suc k)
  then have i: "i < length ps" and k: "k = length ps - Suc i" "length ps - i - 1 = k" by simp_all
  let ?w = "u32_bytes (ps ! k)"
  have l: "length ?w = 4" by (simp add: u32_bytes_def)
  then obtain st1 where P: "StackWrapper_push_value ?w st = Inr (sw_m_top st1, st1)" "deeper st st1" "room st1 = room st - 4"
    "pushed st1 = ?w @ pushed st" using push_value_ok[OF Suc.prems(1), of ?w] Suc.prems(4) by auto
  have ok1: "stack_ok st1" using P(2) by (simp add: deeper_def)
  have "drop k ps = ps ! k # drop (Suc k) ps" using k(1) i by (intro Cons_nth_drop_Suc[symmetric]) simp
  then have p1: "pushed st1 = concat (map u32_bytes (drop k ps @ [0])) @ rest" using P(4) Suc.prems(5) by simp
  have r1: "4 * k \<le> room st1" using P(3) Suc.prems(4) by simp
  have i1: "Suc i \<le> length ps" using i by simp
  obtain st' where "push_pointers (Suc i) ps (sw_m_top st1) st1 = Inr (sw_m_top st', st')" "deeper st1 st'"
    "room st' = room st1 - 4 * k" "pushed st' = concat (map u32_bytes (ps @ [0])) @ rest"
    using Suc.IH[OF ok1 i1 k(1) r1 p1] by blast
  moreover have "push_pointers i ps (sw_m_top st) st = push_pointers (Suc i) ps (sw_m_top st1) st1"
    using i P(1) k(2) by (subst push_pointers.simps) simp
  ultimately show ?case using deeper_trans[OF P(2) _ Suc.prems(1)] P(3) by auto
qed

text \<open>
  C38. The argument vector of a new process: with enough room on an aligned stack, the vector that
  \<^verbatim>\<open>push_cstring_array\<close> builds is an aligned array of one pointer per argument and a final
  null, each pointer leads to a terminated copy of its argument, in order, and what was on the
  stack before is unchanged.
\<close>
theorem push_cstring_array_builds_argv:
  assumes ok: "stack_ok st" and x: "\<forall>x\<in>set array. CHR 0x00 \<notin> set x"
    and n: "sum_list (map (\<lambda>x. length x + 4) array) + 4 * (length array + 1) \<le> room st" and al: "4 dvd unat (sw_m_top st)"
  shows "\<exists>argv ps st'. push_cstring_array array st = Inr (argv, st') \<and> length ps = length array \<and> 4 dvd unat argv \<and>
    take (4 * (length array + 1)) (memory_from st' argv) = concat (map u32_bytes (ps @ [0])) \<and>
    list_all2 (string_at st') ps array \<and> memory_from st' (sw_m_top st) = pushed st"
proof -
  have n1: "sum_list (map (\<lambda>x. length x + 4) array) \<le> room st" using n by simp
  obtain ps st1 where S: "push_strings array [] st = Inr (ps, st1)" "deeper st st1" "length ps = length array"
    "room st \<le> room st1 + sum_list (map (\<lambda>x. length x + 4) array)" "array \<noteq> [] \<longrightarrow> 4 dvd unat (sw_m_top st1)"
    "\<forall>i<length array. string_at st1 (ps ! i) (array ! i) \<and> unat (sw_m_top st1) \<le> unat (ps ! i)"
    using push_strings_ok[OF ok x n1, of "[]"] by auto
  have ok1: "stack_ok st1" using S(2) by (simp add: deeper_def)
  have al1: "4 dvd unat (sw_m_top st1)" using S(1,5) al by (cases array) auto
  have l0: "length (u32_bytes 0) = 4" by (simp add: u32_bytes_def)
  obtain st2 where Z: "StackWrapper_push_value (u32_bytes 0) st1 = Inr (sw_m_top st2, st2)" "deeper st1 st2"
    "room st2 = room st1 - 4" "pushed st2 = u32_bytes 0 @ pushed st1"
    using push_value_ok[OF ok1, of "u32_bytes 0"] l0 n S(4) by auto
  have ok2: "stack_ok st2" using Z(2) by (simp add: deeper_def)
  have p2: "pushed st2 = concat (map u32_bytes (drop (length ps) ps @ [0])) @ pushed st1" using Z(4) by simp
  have r2: "4 * length ps \<le> room st2" using n S(3,4) Z(3) by simp
  obtain st3 where Q: "push_pointers 0 ps (sw_m_top st2) st2 = Inr (sw_m_top st3, st3)" "deeper st2 st3"
    "room st3 = room st2 - 4 * length ps" "pushed st3 = concat (map u32_bytes (ps @ [0])) @ pushed st1"
    using push_pointers_ok[OF ok2 _ _ r2 p2, of 0] by auto
  have ok3: "stack_ok st3" using Q(2) by (simp add: deeper_def)
  have d13: "deeper st1 st3" by (rule deeper_trans[OF Z(2) Q(2) ok1])
  have "unat (sw_m_top st3) + 4 * (length ps + 1) = unat (sw_m_top st1)"
    using room_top[OF ok1] room_top[OF ok3] d13 Q(3) Z(3) r2 n S(3,4) by (simp add: deeper_def)
  then have "4 dvd unat (sw_m_top st3)" using al1 by (metis dvd_add_left_iff dvd_triv_left)
  moreover have "length (concat (map u32_bytes ws)) = 4 * length ws" for ws
    by (induction ws) (simp_all add: u32_bytes_def)
  then have "take (4 * (length array + 1)) (pushed st3) = concat (map u32_bytes (ps @ [0]))"
    unfolding Q(4) using S(3) by (metis append_eq_conv_conj length_append_singleton Suc_eq_plus1)
  moreover have "string_at st3 (ps ! i) (array ! i)" if "i < length array" for i
    using S(6) that deeper_memory[OF d13 ok1] by (simp add: string_at_def)
  then have "list_all2 (string_at st3) ps array" using S(3) by (simp add: list_all2_conv_all_nth)
  moreover have "memory_from st3 (sw_m_top st) = pushed st"
    using deeper_trans[OF S(2) d13 ok] by (simp add: deeper_def)
  moreover have "push_cstring_array array st = Inr (sw_m_top st3, st3)" using S(1) Z(1) Q(1) by (simp add: push_cstring_array_def)
  ultimately show ?thesis using S(3) by blast
qed

lemma push_cstring_array_builds_argv_witness:
  "\<exists>argv ps st'. push_cstring_array [''ls'', ''-l''] (StackWrapper_new 0x20001000 (replicate 64 0)) = Inr (argv, st') \<and>
     length ps = 2 \<and> 4 dvd unat argv \<and> list_all2 (string_at st') ps [''ls'', ''-l'']"
proof -
  let ?st = "StackWrapper_new 0x20001000 (replicate 64 0)"
  have "stack_ok ?st" "\<forall>x\<in>set [''ls'', ''-l'']. CHR 0x00 \<notin> set x"
    "sum_list (map (\<lambda>x. length x + 4) [''ls'', ''-l'']) + 4 * (length [''ls'', ''-l''] + 1) \<le> room ?st"
    "4 dvd unat (sw_m_top ?st)"
    by (simp_all add: stack_ok_def StackWrapper_new_def room_def)
  from push_cstring_array_builds_argv[OF this] obtain argv ps st' where
    "push_cstring_array [''ls'', ''-l''] ?st = Inr (argv, st')" "length ps = length [''ls'', ''-l'']" "4 dvd unat argv"
    "list_all2 (string_at st') ps [''ls'', ''-l'']" by blast
  moreover from this have "length ps = 2" by simp
  ultimately show ?thesis by blast
qed

end
