(* ===== verification/Threads.thy ===== *)
theory Threads
  imports Circular_Queue Regions
begin

section \<open>Threads, the scheduler, kernel mutexes and the system handler\<close>

text \<open>
  The state of the processor that the kernel reads and writes, the objects of
  \<^verbatim>\<open>Kernel/Threads/Thread.hpp\<close>, \<^verbatim>\<open>Kernel/Threads/Scheduler.hpp\<close>, \<^verbatim>\<open>Kernel/KernelMutex.hpp\<close> and
  \<^verbatim>\<open>Kernel/SystemHandler.hpp\<close>, and their operations.  Threads are numbered and stored in a map; a
  number outside the map is a thread that has been deleted.  A \<^verbatim>\<open>RefPtr<Thread>\<close> is a number or
  null; taking and dropping one changes the count of the thread, and the last drop deletes it,
  which needs thread mode because the memory allocator does.  Debug output is left out.
\<close>

subsection \<open>State\<close>

text \<open>Register contexts, in the order in which they lie on a stack.\<close>

record FullRegisterContext =
  fr_r11 :: u32
  fr_r10 :: u32
  fr_r9 :: u32
  fr_r8 :: u32
  fr_r7 :: u32
  fr_r6 :: u32
  fr_r5 :: u32
  fr_r4 :: u32
  fr_r0 :: u32
  fr_r1 :: u32
  fr_r2 :: u32
  fr_r3 :: u32
  fr_ip :: u32
  fr_lr :: u32
  fr_pc :: u32
  fr_xpsr :: u32

text \<open>
  What a thread runs: the endless loops of the kernel's own threads, the worker of a system call
  with the caller and its registers, or other code.
\<close>

datatype callback =
    Handler_Loop
  | Default_Loop
  | Fallback_Loop
  | is_Worker: Worker nat uptr
  | Other_Code

record Thread =
  th_m_refcount :: usize
  th_m_name :: string
  th_m_privileged :: bool
  th_m_masked_from_scheduler :: bool
  th_m_is_default_thread :: bool
  th_m_stashed_context :: "uptr option"
  th_m_process :: "nat option"
  th_m_regions :: "Region list"
  th_callback :: callback

record KernelMutex =
  km_m_enabled :: bool
  km_m_holding_thread :: "nat option"
  km_m_waiting_threads :: "nat CircularQueue"

datatype MutexId = dbgln_mutex | malloc_mutex | page_allocator_mutex

text \<open>
  The processor: the exception number, the interrupt mask, the control register, whether PendSV is
  pending, the protection unit and the register contexts in memory.
\<close>

record Cpu =
  cp_ipsr :: u32
  cp_primask :: u32
  cp_control :: u32
  cp_pendsvset :: bool
  cp_mpu_hw :: MPUHardware
  cp_contexts :: "uptr \<Rightarrow> FullRegisterContext"

record Scheduler = Cpu +
  sc_m_initialized :: bool
  sc_m_enabled :: bool
  sc_m_queued_threads :: "nat CircularQueue"
  sc_m_dangling_threads :: "nat CircularQueue"
  sc_m_active_thread :: "nat option"
  sc_m_default_thread :: "nat option"
  sc_m_fallback_thread :: "nat option"

record SystemHandler = Scheduler +
  sh_m_initialized :: bool
  sh_m_thread :: "nat option"
  sh_m_waiting_threads :: "nat CircularQueue"

record Machine = SystemHandler +
  ma_threads :: "nat \<Rightarrow> Thread option"
  ma_next :: nat
  ma_mutex :: "MutexId \<Rightarrow> KernelMutex"

subsection \<open>Kernel/HandlerMode.hpp\<close>

definition is_executing_in_thread_mode :: "'a Cpu_scheme \<Rightarrow> bool" where
  "is_executing_in_thread_mode m \<longleftrightarrow> cp_ipsr m = 0"

definition is_executing_in_handler_mode :: "'a Cpu_scheme \<Rightarrow> bool" where
  "is_executing_in_handler_mode m \<longleftrightarrow> \<not> is_executing_in_thread_mode m"

definition is_using_main_stack_pointer :: "'a Cpu_scheme \<Rightarrow> bool" where
  "is_using_main_stack_pointer m \<longleftrightarrow> cp_control m AND 2 = 0"

definition is_executing_privileged :: "'a Cpu_scheme \<Rightarrow> bool" where
  "is_executing_privileged m \<longleftrightarrow> cp_control m AND 1 = 0"

definition are_interrupts_enabled :: "'a Cpu_scheme \<Rightarrow> bool" where
  "are_interrupts_enabled m \<longleftrightarrow> cp_primask m = 0"

definition disable_interrupts :: "'a Cpu_scheme \<Rightarrow> bool \<times> 'a Cpu_scheme" where
  "disable_interrupts m = (if are_interrupts_enabled m then (True, m\<lparr>cp_primask := 1\<rparr>) else (False, m))"

definition enable_interrupts :: "'a Cpu_scheme \<Rightarrow> 'a Cpu_scheme" where
  "enable_interrupts m = m\<lparr>cp_primask := 0\<rparr>"

definition restore_interrupts :: "bool \<Rightarrow> 'a Cpu_scheme \<Rightarrow> 'a Cpu_scheme" where
  "restore_interrupts were_enabled m = (if were_enabled then enable_interrupts m else m)"

subsection \<open>Kernel/Synchronization/MaskedInterruptGuard.hpp\<close>

text \<open>A guard is its flag \<^verbatim>\<open>m_should_reenable_interrupts\<close>.\<close>

definition MaskedInterruptGuard_new :: "'a Cpu_scheme \<Rightarrow> bool \<times> 'a Cpu_scheme" where
  "MaskedInterruptGuard_new m = disable_interrupts m"

definition MaskedInterruptGuard_destroy :: "bool \<Rightarrow> 'a Cpu_scheme \<Rightarrow> 'a Cpu_scheme outcome" where
  "MaskedInterruptGuard_destroy m_should_reenable_interrupts m =
     (if m_should_reenable_interrupts
      then checkE (\<not> are_interrupts_enabled m) (VERIFY ''!are_interrupts_enabled()'') (Inr (enable_interrupts m))
      else Inr m)"

definition MaskedInterruptGuard_release_early :: "bool \<Rightarrow> 'a Cpu_scheme \<Rightarrow> (bool \<times> 'a Cpu_scheme) outcome" where
  "MaskedInterruptGuard_release_early m_should_reenable_interrupts m =
     (if m_should_reenable_interrupts
      then checkE (\<not> are_interrupts_enabled m) (VERIFY ''!are_interrupts_enabled()'') (Inr (False, enable_interrupts m))
      else Inr (False, m))"

text \<open>A block that declares a guard.\<close>

definition masked_interrupts :: "('a Cpu_scheme \<Rightarrow> ('r \<times> 'a Cpu_scheme) outcome) \<Rightarrow> 'a Cpu_scheme \<Rightarrow> ('r \<times> 'a Cpu_scheme) outcome"
where
  "masked_interrupts block m =
     (let (guard, m) = MaskedInterruptGuard_new m
      in bindE (block m) (\<lambda>(r, m).
         bindE (MaskedInterruptGuard_destroy guard m) (\<lambda>m. Inr (r, m))))"

subsection \<open>References to threads\<close>

definition Thread_get :: "nat \<Rightarrow> Machine \<Rightarrow> Thread outcome" where
  "Thread_get t m = (case ma_threads m t of None \<Rightarrow> Inl (UNDEFINED ''object outside its lifetime'') | Some th \<Rightarrow> Inr th)"

definition Thread_put :: "nat \<Rightarrow> Thread \<Rightarrow> Machine \<Rightarrow> Machine" where
  "Thread_put t th m = m\<lparr>ma_threads := (ma_threads m)(t \<mapsto> th)\<rparr>"

definition Thread_ref :: "nat \<Rightarrow> Machine \<Rightarrow> Machine outcome" where
  "Thread_ref t m =
     bindE (Thread_get t m) (\<lambda>th.
     checkE (th_m_refcount th \<ge> 1) (VERIFY ''m_refcount >= 1'')
       (Inr (Thread_put t (th\<lparr>th_m_refcount := th_m_refcount th + 1\<rparr>) m)))"

definition Thread_unref :: "nat \<Rightarrow> Machine \<Rightarrow> Machine outcome" where
  "Thread_unref t m =
     bindE (Thread_get t m) (\<lambda>th.
     checkE (th_m_refcount th > 0) (VERIFY ''m_refcount > 0'')
       (let th = th\<lparr>th_m_refcount := th_m_refcount th - 1\<rparr>
        in if th_m_refcount th = 0
           then checkE (is_executing_in_thread_mode m) (VERIFY ''Kernel::is_executing_in_thread_mode()'')
                  (Inr (m\<lparr>ma_threads := (ma_threads m)(t := None)\<rparr>))
           else Inr (Thread_put t th m)))"

definition ref_pointer :: "nat option \<Rightarrow> Machine \<Rightarrow> Machine outcome" where
  "ref_pointer p m = (case p of None \<Rightarrow> Inr m | Some t \<Rightarrow> Thread_ref t m)"

definition unref_pointer :: "nat option \<Rightarrow> Machine \<Rightarrow> Machine outcome" where
  "unref_pointer p m = (case p of None \<Rightarrow> Inr m | Some t \<Rightarrow> Thread_unref t m)"

definition deref :: "nat option \<Rightarrow> nat outcome" where
  "deref p = (case p of None \<Rightarrow> Inl (UNDEFINED ''null pointer'') | Some t \<Rightarrow> Inr t)"

definition Thread_new :: "string \<Rightarrow> Thread" where
  "Thread_new name =
     \<lparr>th_m_refcount = 1, th_m_name = name, th_m_privileged = False, th_m_masked_from_scheduler = False,
      th_m_is_default_thread = False, th_m_stashed_context = None, th_m_process = None,
      th_m_regions = [flash_region], th_callback = Other_Code\<rparr>"

text \<open>A new thread belongs to the pointer that \<^verbatim>\<open>Thread::construct\<close> returns.\<close>

definition Thread_construct :: "string \<Rightarrow> Machine \<Rightarrow> nat \<times> Machine" where
  "Thread_construct name m =
     (ma_next m, m\<lparr>ma_threads := (ma_threads m)(ma_next m \<mapsto> Thread_new name), ma_next := Suc (ma_next m)\<rparr>)"

definition Thread_set_masked_from_scheduler :: "nat \<Rightarrow> bool \<Rightarrow> Machine \<Rightarrow> Machine outcome" where
  "Thread_set_masked_from_scheduler t masked m =
     bindE (Thread_get t m) (\<lambda>th. Inr (Thread_put t (th\<lparr>th_m_masked_from_scheduler := masked\<rparr>) m))"

definition Thread_stash_context :: "nat \<Rightarrow> uptr \<Rightarrow> Machine \<Rightarrow> Machine outcome" where
  "Thread_stash_context t ctx m =
     bindE (Thread_get t m) (\<lambda>th.
     checkE (th_m_stashed_context th = None) (VERIFY ''!m_stashed_context.is_valid()'')
       (Inr (Thread_put t (th\<lparr>th_m_stashed_context := Some ctx\<rparr>) m)))"

definition Thread_unstash_context :: "nat \<Rightarrow> Machine \<Rightarrow> (uptr \<times> Machine) outcome" where
  "Thread_unstash_context t m =
     bindE (Thread_get t m) (\<lambda>th.
     case th_m_stashed_context th of
       None \<Rightarrow> Inl (VERIFY ''is_valid()'')
     | Some ctx \<Rightarrow> Inr (ctx, Thread_put t (th\<lparr>th_m_stashed_context := None\<rparr>) m))"

subsection \<open>The stack and the first context of a thread\<close>

text \<open>
  What the allocator and the linker provide for a new stack: its address and old content, the bytes
  of the callback object and the address of the function that calls it.
\<close>

record NewStack =
  ns_data :: uptr
  ns_bytes :: "u8 list"
  ns_container :: "u8 list"
  ns_wrapper :: u32

definition Thread_setup_context_impl :: "nat \<Rightarrow> StackWrapper \<Rightarrow> u32 \<Rightarrow> u32 \<Rightarrow> Machine \<Rightarrow> Machine outcome" where
  "Thread_setup_context_impl t stack_wrapper callback argument m =
     (let xpsr_thumb_mode = push_bit 24 1;
          context = \<lparr>fr_r11 = 0, fr_r10 = 0, fr_r9 = 0, fr_r8 = 0, fr_r7 = 0, fr_r6 = 0, fr_r5 = 0, fr_r4 = 0,
            fr_r0 = argument, fr_r1 = 0, fr_r2 = 0, fr_r3 = 0, fr_ip = 0, fr_lr = 0, fr_pc = callback,
            fr_xpsr = xpsr_thumb_mode\<rparr>
      in bindE (StackWrapper_align 8 stack_wrapper) (\<lambda>(_, stack_wrapper).
         bindE (Thread_get t m) (\<lambda>th.
         checkE (th_m_stashed_context th = None) (VERIFY ''!m_stashed_context.is_valid()'')
           (bindE (StackWrapper_reserve 64 stack_wrapper) (\<lambda>(data, _).
            Inr ((Thread_put t (th\<lparr>th_m_stashed_context := Some data\<rparr>) m)
                  \<lparr>cp_contexts := (cp_contexts m)(data := context)\<rparr>))))))"

definition Thread_setup_context :: "nat \<Rightarrow> callback \<Rightarrow> NewStack \<Rightarrow> Machine \<Rightarrow> Machine outcome" where
  "Thread_setup_context t cb ns m =
     bindE (stack_region (ns_data ns) (of_nat (length (ns_bytes ns)))) (\<lambda>region.
     bindE (Thread_get t m) (\<lambda>th.
     let m = Thread_put t (th\<lparr>th_m_regions := th_m_regions th @ [region], th_callback := cb\<rparr>) m
     in bindE (StackWrapper_push (ns_container ns) (StackWrapper_new (ns_data ns) (ns_bytes ns))) (\<lambda>(at, stack_wrapper).
        Thread_setup_context_impl t stack_wrapper (ns_wrapper ns) at m)))"

subsection \<open>Kernel/Threads/Scheduler.hpp\<close>

definition get_active_thread_if_avaliable :: "Machine \<Rightarrow> nat option outcome" where
  "get_active_thread_if_avaliable m =
     checkE (is_executing_in_handler_mode m \<or> \<not> are_interrupts_enabled m)
       (VERIFY ''is_executing_in_handler_mode() || !are_interrupts_enabled()'')
       (Inr (sc_m_active_thread m))"

definition get_active_thread :: "Machine \<Rightarrow> nat outcome" where
  "get_active_thread m =
     checkE (is_executing_in_handler_mode m \<or> \<not> are_interrupts_enabled m)
       (VERIFY ''is_executing_in_handler_mode() || !are_interrupts_enabled()'')
       (case sc_m_active_thread m of None \<Rightarrow> Inl (VERIFY ''m_active_thread != nullptr'') | Some t \<Rightarrow> Inr t)"

definition clear_active_thread :: "Machine \<Rightarrow> Machine outcome" where
  "clear_active_thread m =
     checkE (is_executing_in_handler_mode m \<or> \<not> are_interrupts_enabled m)
       (VERIFY ''is_executing_in_handler_mode() || !are_interrupts_enabled()'')
       (checkE (sc_m_active_thread m \<noteq> None) (VERIFY ''!m_active_thread.is_null()'')
         (bindE (unref_pointer (sc_m_active_thread m) m) (\<lambda>m. Inr (m\<lparr>sc_m_active_thread := None\<rparr>))))"

text \<open>The pointer that \<^verbatim>\<open>add_thread\<close> gets is moved into the queue, or was made for the call.\<close>

definition Scheduler_add_thread :: "nat \<Rightarrow> Machine \<Rightarrow> Machine outcome" where
  "Scheduler_add_thread t m =
     checkE (is_executing_in_handler_mode m \<or> \<not> are_interrupts_enabled m)
       (VERIFY ''is_executing_in_handler_mode() || !are_interrupts_enabled()'')
       (bindE (CircularQueue_enqueue t (sc_m_queued_threads m)) (\<lambda>(_, q).
        Inr (m\<lparr>sc_m_queued_threads := q\<rparr>)))"

definition Scheduler_trigger :: "Machine \<Rightarrow> Machine outcome" where
  "Scheduler_trigger m =
     checkE (sc_m_enabled m) (VERIFY ''m_enabled'')
     (checkE (is_executing_in_thread_mode m) (VERIFY ''is_executing_in_thread_mode()'')
       (Inr (m\<lparr>cp_pendsvset := True\<rparr>)))"

definition choose_default_thread :: "Machine \<Rightarrow> (nat \<times> Machine) outcome" where
  "choose_default_thread m =
     bindE (deref (sc_m_default_thread m)) (\<lambda>d.
     bindE (Thread_get d m) (\<lambda>dth.
     if th_m_masked_from_scheduler dth
     then bindE (deref (sc_m_fallback_thread m)) (\<lambda>f.
          bindE (Thread_get f m) (\<lambda>fth.
          checkE (\<not> th_m_masked_from_scheduler fth) (VERIFY ''!m_fallback_thread->m_masked_from_scheduler'')
            (bindE (Thread_ref f m) (\<lambda>m. Inr (f, m)))))
     else bindE (Thread_ref d m) (\<lambda>m. Inr (d, m))))"

text \<open>The first part of \<^verbatim>\<open>schedule\<close> puts the active thread away.\<close>

definition schedule_put_away :: "Machine \<Rightarrow> Machine outcome" where
  "schedule_put_away m =
     (case sc_m_active_thread m of
        None \<Rightarrow> Inr m
      | Some t \<Rightarrow>
          bindE (Thread_get t m) (\<lambda>th.
          if th_m_masked_from_scheduler th then
            if th_m_refcount th \<ge> 2
            then bindE (Thread_unref t m) (\<lambda>m. Inr (m\<lparr>sc_m_active_thread := None\<rparr>))
            else bindE (CircularQueue_enqueue t (sc_m_dangling_threads m)) (\<lambda>(_, q).
                 Inr (m\<lparr>sc_m_dangling_threads := q, sc_m_active_thread := None\<rparr>))
          else if th_m_is_default_thread th then
            checkE (th_m_refcount th \<ge> 2) (VERIFY ''m_active_thread->refcount() >= 2'')
              (bindE (Thread_unref t m) (\<lambda>m. Inr (m\<lparr>sc_m_active_thread := None\<rparr>)))
          else bindE (CircularQueue_enqueue t (sc_m_queued_threads m)) (\<lambda>(_, q).
               Inr (m\<lparr>sc_m_queued_threads := q, sc_m_active_thread := None\<rparr>))))"

text \<open>The second part chooses the next one, the third sets the processor up for it.\<close>

definition schedule_choose :: "Machine \<Rightarrow> (nat \<times> Machine) outcome" where
  "schedule_choose m =
     checkE (sc_m_active_thread m = None) (VERIFY ''m_active_thread.is_null()'')
       (bindE (if CircularQueue_size (sc_m_dangling_threads m) \<ge> 1 then choose_default_thread m
               else if CircularQueue_size (sc_m_queued_threads m) = 0 then choose_default_thread m
               else bindE (CircularQueue_dequeue (sc_m_queued_threads m)) (\<lambda>(t, q).
                    Inr (t, m\<lparr>sc_m_queued_threads := q\<rparr>)))
          (\<lambda>(t, m). Inr (t, m\<lparr>sc_m_active_thread := Some t\<rparr>)))"

definition schedule_dispatch :: "nat \<Rightarrow> Machine \<Rightarrow> Machine outcome" where
  "schedule_dispatch t m =
     bindE (Thread_get t m) (\<lambda>th.
     let m = m\<lparr>cp_control := (if th_m_privileged th then 0b10 else 0b11)\<rparr>
     in bindE (setup_mpu (th_m_regions th) (cp_mpu_hw m)) (\<lambda>hw. Inr (m\<lparr>cp_mpu_hw := hw\<rparr>)))"

definition Scheduler_schedule :: "Machine \<Rightarrow> (nat \<times> Machine) outcome" where
  "Scheduler_schedule m =
     checkE (is_executing_in_handler_mode m) (VERIFY ''is_executing_in_handler_mode()'')
       (bindE (schedule_put_away m) (\<lambda>m.
        bindE (schedule_choose m) (\<lambda>(t, m).
        bindE (schedule_dispatch t m) (\<lambda>m. Inr (t, m)))))"

definition scheduler_next :: "uptr \<Rightarrow> Machine \<Rightarrow> (uptr \<times> Machine) outcome" where
  "scheduler_next ctx m =
     bindE (get_active_thread m) (\<lambda>active_thread.
     bindE (Thread_stash_context active_thread ctx m) (\<lambda>m.
     bindE (Scheduler_schedule m) (\<lambda>(next_thread, m).
     Thread_unstash_context next_thread m)))"

definition isr_systick :: "Machine \<Rightarrow> Machine outcome" where
  "isr_systick m =
     checkE (sc_m_initialized m) (VERIFY ''m_initialized'')
       (Inr (if sc_m_enabled m then m\<lparr>cp_pendsvset := True\<rparr> else m))"

subsection \<open>Kernel/Threads/Thread.cpp\<close>

definition Thread_wakeup :: "nat \<Rightarrow> Machine \<Rightarrow> Machine outcome" where
  "Thread_wakeup t m =
     bindE (get_active_thread_if_avaliable m) (\<lambda>active.
     checkE (active \<noteq> Some t) (VERIFY ''Scheduler::the().get_active_thread_if_avaliable() != this'')
       (bindE (Thread_get t m) (\<lambda>th.
        if th_m_masked_from_scheduler th
        then bindE (Thread_set_masked_from_scheduler t False m) (\<lambda>m.
             bindE (Thread_ref t m) (Scheduler_add_thread t))
        else Inr m)))"

text \<open>The last statement of \<^verbatim>\<open>die\<close> is never reached: PendSV is taken before it.\<close>

definition Thread_die :: "nat \<Rightarrow> Machine \<Rightarrow> Machine outcome" where
  "Thread_die t m = bindE (Thread_set_masked_from_scheduler t True m) Scheduler_trigger"

subsection \<open>Kernel/KernelMutex.hpp\<close>

definition KernelMutex_new :: KernelMutex where
  "KernelMutex_new = \<lparr>km_m_enabled = True, km_m_holding_thread = None, km_m_waiting_threads = CircularQueue_new 16\<rparr>"

definition put_mutex :: "MutexId \<Rightarrow> KernelMutex \<Rightarrow> Machine \<Rightarrow> Machine" where
  "put_mutex mx km m = m\<lparr>ma_mutex := (ma_mutex m)(mx := km)\<rparr>"

text \<open>
  \<^verbatim>\<open>lock\<close> up to the end of its guard.  A thread that had to queue then loses the processor, as
  PendSV is pending; it returns from the call when it runs again.
\<close>

definition KernelMutex_lock :: "MutexId \<Rightarrow> Machine \<Rightarrow> Machine outcome" where
  "KernelMutex_lock mx m =
     (if \<not> km_m_enabled (ma_mutex m mx) then Inr m
      else checkE (is_executing_in_thread_mode m) (VERIFY ''Kernel::is_executing_in_thread_mode()'')
       (if sc_m_initialized m then
          bindE (masked_interrupts (\<lambda>m.
            bindE (get_active_thread_if_avaliable m) (\<lambda>active.
            case active of
              None \<Rightarrow> Inr ((), m)
            | Some active_thread \<Rightarrow>
                let km = ma_mutex m mx in
                if km_m_holding_thread km = None
                then bindE (Thread_ref active_thread m) (\<lambda>m.
                     Inr ((), put_mutex mx (km\<lparr>km_m_holding_thread := Some active_thread\<rparr>) m))
                else bindE (Thread_set_masked_from_scheduler active_thread True m) (\<lambda>m.
                     bindE (Thread_ref active_thread m) (\<lambda>m.
                     bindE (CircularQueue_enqueue active_thread (km_m_waiting_threads km)) (\<lambda>(_, q).
                     bindE (Scheduler_trigger (put_mutex mx (km\<lparr>km_m_waiting_threads := q\<rparr>) m)) (\<lambda>m.
                     Inr ((), m))))))) m) (\<lambda>(_, m). Inr m)
        else Inr m))"

definition KernelMutex_unlock :: "MutexId \<Rightarrow> Machine \<Rightarrow> Machine outcome" where
  "KernelMutex_unlock mx m =
     (if \<not> km_m_enabled (ma_mutex m mx) then Inr m
      else checkE (is_executing_in_thread_mode m) (VERIFY ''Kernel::is_executing_in_thread_mode()'')
       (if sc_m_initialized m then
          bindE (masked_interrupts (\<lambda>m.
            bindE (unref_pointer (km_m_holding_thread (ma_mutex m mx)) m) (\<lambda>m.
            let km = (ma_mutex m mx)\<lparr>km_m_holding_thread := None\<rparr>; m = put_mutex mx km m in
            if CircularQueue_size (km_m_waiting_threads km) > 0
            then bindE (CircularQueue_dequeue (km_m_waiting_threads km)) (\<lambda>(next_thread, q).
                 checkE (km_m_holding_thread km = None) (FIXME_ASSERT ''m_holding_thread.is_null()'')
                   (bindE (Thread_ref next_thread m) (\<lambda>m.
                    bindE (Thread_wakeup next_thread
                      (put_mutex mx (km\<lparr>km_m_waiting_threads := q, km_m_holding_thread := Some next_thread\<rparr>) m)) (\<lambda>m.
                    bindE (Thread_unref next_thread m) (\<lambda>m. Inr ((), m))))))
            else Inr ((), m))) m) (\<lambda>(_, m). Inr m)
        else checkE (km_m_holding_thread (ma_mutex m mx) = None) (VERIFY ''m_holding_thread.is_null()'') (Inr m)))"

definition KernelMutex_set_enabled :: "MutexId \<Rightarrow> bool \<Rightarrow> Machine \<Rightarrow> Machine" where
  "KernelMutex_set_enabled mx enabled m = put_mutex mx ((ma_mutex m mx)\<lparr>km_m_enabled := enabled\<rparr>) m"

definition KernelMutex_is_locked :: "MutexId \<Rightarrow> Machine \<Rightarrow> (bool \<times> Machine) outcome" where
  "KernelMutex_is_locked mx = masked_interrupts (\<lambda>m. Inr (km_m_holding_thread (ma_mutex m mx) \<noteq> None, m))"

definition KernelMutex_destroy :: "KernelMutex \<Rightarrow> unit outcome" where
  "KernelMutex_destroy km =
     checkE (CircularQueue_size (km_m_waiting_threads km) = 0) (VERIFY ''m_waiting_threads.size() == 0'') (Inr ())"

end
