(* ===== verification/Kernel_Steps.thy ===== *)
theory Kernel_Steps
  imports Threads
begin

section \<open>The kernel's threads as a step relation\<close>

text \<open>
  The system handler of \<^verbatim>\<open>Kernel/SystemHandler.cpp\<close>, the loops of the kernel's own threads and the
  start of the scheduler, then the interleavings: what the active thread does between two points
  where it can be interrupted is one action, and interrupts come between actions.
\<close>

subsection \<open>Kernel/SystemHandler.cpp\<close>

definition notify_worker_thread :: "nat \<Rightarrow> Machine \<Rightarrow> Machine outcome" where
  "notify_worker_thread thread m =
     bindE (Thread_set_masked_from_scheduler thread True m) (\<lambda>m.
     checkE (is_executing_in_handler_mode m) (VERIFY ''is_executing_in_handler_mode()'')
       (bindE (CircularQueue_enqueue thread (sh_m_waiting_threads m)) (\<lambda>(_, q).
        bindE (deref (sh_m_thread m)) (\<lambda>h. Thread_wakeup h (m\<lparr>sh_m_waiting_threads := q\<rparr>)))))"

definition SystemHandler_syscall :: "uptr \<Rightarrow> Machine \<Rightarrow> (uptr \<times> Machine) outcome" where
  "SystemHandler_syscall ctx m =
     bindE (get_active_thread m) (\<lambda>thread.
     bindE (Thread_ref thread m) (\<lambda>m.
     bindE (Thread_stash_context thread ctx m) (\<lambda>m.
     bindE (clear_active_thread m) (\<lambda>m.
     checkE (sh_m_initialized m) (VERIFY ''m_initialized'')
       (bindE (notify_worker_thread thread m) (\<lambda>m.
        bindE (Scheduler_schedule m) (\<lambda>(next_thread, m).
        Thread_unstash_context next_thread m)))))))"

text \<open>
  The loop of the handler's thread: without work it masks itself, with interrupts disabled, and
  otherwise it goes on to take the next thread.
\<close>

definition SystemHandler_loop_check :: "Machine \<Rightarrow> (bool \<times> Machine) outcome" where
  "SystemHandler_loop_check m =
     (let (were_interrupts_enabled, m) = disable_interrupts m
      in checkE were_interrupts_enabled (VERIFY ''were_interrupts_enabled'')
        (checkE (\<not> are_interrupts_enabled m) (VERIFY ''not are_interrupts_enabled()'')
          (if CircularQueue_size (sh_m_waiting_threads m) = 0
           then bindE (get_active_thread m) (\<lambda>t.
                bindE (Thread_set_masked_from_scheduler t True m) (\<lambda>m.
                bindE (Scheduler_trigger m) (\<lambda>m.
                let m = restore_interrupts were_interrupts_enabled m
                in checkE (are_interrupts_enabled m) (VERIFY ''are_interrupts_enabled()'') (Inr (False, m)))))
           else let m = restore_interrupts were_interrupts_enabled m
                in checkE (are_interrupts_enabled m) (VERIFY ''are_interrupts_enabled()'') (Inr (True, m)))))"

definition handle_next_take :: "Machine \<Rightarrow> (nat \<times> Machine) outcome" where
  "handle_next_take = masked_interrupts (\<lambda>m.
     bindE (CircularQueue_dequeue (sh_m_waiting_threads m)) (\<lambda>(thread, q). Inr (thread, m\<lparr>sh_m_waiting_threads := q\<rparr>)))"

text \<open>The kernel constructs a thread, sets its flags and gives it its stack and code.\<close>

definition new_kernel_thread ::
  "string \<Rightarrow> (Thread \<Rightarrow> Thread) \<Rightarrow> callback \<Rightarrow> NewStack \<Rightarrow> Machine \<Rightarrow> (nat \<times> Machine) outcome" where
  "new_kernel_thread name flags cb ns m =
     (let (t, m) = Thread_construct name m
      in bindE (Thread_get t m) (\<lambda>th.
         bindE (Thread_setup_context t cb ns (Thread_put t (flags th) m)) (\<lambda>m. Inr (t, m))))"

text \<open>The name of the worker and its stack are what formatting and the page allocator give.\<close>

definition handle_next_spawn :: "nat \<Rightarrow> string \<Rightarrow> NewStack \<Rightarrow> Machine \<Rightarrow> Machine outcome" where
  "handle_next_spawn thread new_worker_thread_name ns m =
     bindE (Thread_get thread m) (\<lambda>th.
     case th_m_stashed_context th of
       None \<Rightarrow> Inl (VERIFY ''is_valid()'')
     | Some ctx \<Rightarrow>
         bindE (deref (th_m_process th)) (\<lambda>_.
         bindE (new_kernel_thread new_worker_thread_name (\<lambda>th. th\<lparr>th_m_privileged := True\<rparr>) (Worker thread ctx) ns m)
           (\<lambda>(new_worker_thread, m).
         bindE (masked_interrupts (\<lambda>m. bindE (Scheduler_add_thread new_worker_thread m) (\<lambda>m. Inr ((), m))) m) (\<lambda>(_, m).
         Inr m))))"

definition handle_next_waiting_thread :: "string \<Rightarrow> NewStack \<Rightarrow> Machine \<Rightarrow> Machine outcome" where
  "handle_next_waiting_thread new_worker_thread_name ns m =
     bindE (handle_next_take m) (\<lambda>(thread, m). handle_next_spawn thread new_worker_thread_name ns m)"

definition SystemHandler_new :: "NewStack \<Rightarrow> Machine \<Rightarrow> Machine outcome" where
  "SystemHandler_new ns m =
     bindE (new_kernel_thread ''Kernel: SystemHandler''
       (\<lambda>th. th\<lparr>th_m_privileged := True, th_m_masked_from_scheduler := True\<rparr>) Handler_Loop ns m) (\<lambda>(t, m).
     Inr (m\<lparr>sh_m_thread := Some t\<rparr>))"

definition SystemHandler_initialize :: "NewStack \<Rightarrow> Machine \<Rightarrow> Machine outcome" where
  "SystemHandler_initialize ns m =
     checkE (\<not> sh_m_initialized m) (VERIFY ''!m_initialized'') (SystemHandler_new ns (m\<lparr>sh_m_initialized := True\<rparr>))"

text \<open>
  The callback of a worker, after \<^verbatim>\<open>thread->syscall\<close> has returned a value: it becomes the caller's
  \<^verbatim>\<open>r0\<close>, and the caller is queued again unless the call was \<^verbatim>\<open>exit\<close>.
\<close>

definition SC_exit :: u32 where "SC_exit = 10"

definition worker_return :: "nat \<Rightarrow> uptr \<Rightarrow> u32 \<Rightarrow> Machine \<Rightarrow> Machine outcome" where
  "worker_return thread ctx return_value m =
     (let context = cp_contexts m ctx;
          b_should_return = (fr_r0 context \<noteq> SC_exit);
          m = m\<lparr>cp_contexts := (cp_contexts m)(ctx := context\<lparr>fr_r0 := return_value\<rparr>)\<rparr>
      in if b_should_return
         then bindE (Thread_set_masked_from_scheduler thread False m) (\<lambda>m.
              bindE (masked_interrupts (\<lambda>m. bindE (Scheduler_add_thread thread m) (\<lambda>m. Inr ((), m))) m) (\<lambda>(_, m). Inr m))
         else bindE (Thread_get thread m) (\<lambda>th.
              checkE (th_m_masked_from_scheduler th) (VERIFY ''thread->m_masked_from_scheduler'') (Inr m)))"

subsection \<open>The scheduler's own threads\<close>

text \<open>One round of the default thread, up to \<^verbatim>\<open>release_early\<close> and from there on.\<close>

definition default_loop_take :: "Machine \<Rightarrow> (nat option \<times> Machine) outcome" where
  "default_loop_take m =
     (let (interrupt_guard, m) = MaskedInterruptGuard_new m
      in if CircularQueue_size (sc_m_dangling_threads m) = 0
         then bindE (Scheduler_trigger m) (\<lambda>m.
              bindE (MaskedInterruptGuard_destroy interrupt_guard m) (\<lambda>m. Inr (None, m)))
         else bindE (CircularQueue_dequeue (sc_m_dangling_threads m)) (\<lambda>(thread, q).
              bindE (MaskedInterruptGuard_release_early interrupt_guard (m\<lparr>sc_m_dangling_threads := q\<rparr>)) (\<lambda>(_, m).
              Inr (Some thread, m))))"

definition default_loop_kill :: "nat \<Rightarrow> Machine \<Rightarrow> Machine outcome" where
  "default_loop_kill thread m =
     bindE (KernelMutex_is_locked dbgln_mutex m) (\<lambda>(locked, m).
     checkE (\<not> locked) (VERIFY ''!dbgln_mutex.is_locked()'')
       (bindE (Thread_get thread m) (\<lambda>th.
        checkE (th_m_refcount th = 1) (VERIFY ''thread->refcount() == 1'') (Thread_unref thread m))))"

definition Scheduler_new :: "nat \<Rightarrow> Machine \<Rightarrow> Machine outcome" where
  "Scheduler_new startup_thread m =
     checkE (\<not> sc_m_initialized m) (VERIFY ''!m_initialized'')
       (bindE (CircularQueue_enqueue startup_thread (sc_m_queued_threads m)) (\<lambda>(_, q).
        Inr (m\<lparr>sc_m_initialized := True, sc_m_queued_threads := q\<rparr>)))"

text \<open>
  The loop as far as the jump into the dummy thread; the local pointer to that thread is never
  dropped, as the function does not return.
\<close>

definition Scheduler_loop :: "NewStack \<Rightarrow> NewStack \<Rightarrow> NewStack \<Rightarrow> Machine \<Rightarrow> Machine outcome" where
  "Scheduler_loop ns1 ns2 ns3 m =
     bindE (new_kernel_thread ''Kernel: Default Thread''
       (\<lambda>th. th\<lparr>th_m_privileged := True, th_m_is_default_thread := True\<rparr>) Default_Loop ns1 m) (\<lambda>(d, m).
     bindE (new_kernel_thread ''Kernel: Fallback Thread''
       (\<lambda>th. th\<lparr>th_m_privileged := True, th_m_is_default_thread := True\<rparr>) Fallback_Loop ns2
       (m\<lparr>sc_m_default_thread := Some d\<rparr>)) (\<lambda>(f, m).
     bindE (new_kernel_thread ''Dummy'' (\<lambda>th. th\<lparr>th_m_masked_from_scheduler := True\<rparr>) Other_Code ns3
       (m\<lparr>sc_m_fallback_thread := Some f\<rparr>)) (\<lambda>(dummy_thread, m).
     bindE (masked_interrupts (\<lambda>m.
       bindE (Thread_ref dummy_thread m) (\<lambda>m. Inr ((), m\<lparr>sc_m_active_thread := Some dummy_thread\<rparr>))) m) (\<lambda>(_, m).
     bindE (Thread_unstash_context dummy_thread m) (\<lambda>(_, m). Inr (m\<lparr>cp_control := 0b10\<rparr>))))))"

definition dummy_callback :: "Machine \<Rightarrow> Machine outcome" where
  "dummy_callback m =
     (let m = KernelMutex_set_enabled malloc_mutex True m;
          m = KernelMutex_set_enabled page_allocator_mutex True m
      in Scheduler_trigger (m\<lparr>sc_m_enabled := True\<rparr>))"

definition Machine_reset :: "MPUHardware \<Rightarrow> (uptr \<Rightarrow> FullRegisterContext) \<Rightarrow> Machine" where
  "Machine_reset hw contexts =
     \<lparr>cp_ipsr = 0, cp_primask = 0, cp_control = 0, cp_pendsvset = False, cp_mpu_hw = hw, cp_contexts = contexts,
      sc_m_initialized = False, sc_m_enabled = False, sc_m_queued_threads = CircularQueue_new 16,
      sc_m_dangling_threads = CircularQueue_new 16, sc_m_active_thread = None, sc_m_default_thread = None,
      sc_m_fallback_thread = None, sh_m_initialized = False, sh_m_thread = None,
      sh_m_waiting_threads = CircularQueue_new 16, ma_threads = (\<lambda>_. None), ma_next = 0, ma_mutex = (\<lambda>_. KernelMutex_new)\<rparr>"

text \<open>\<^verbatim>\<open>boot\<close> of \<^verbatim>\<open>Kernel/main.cpp\<close>, without the heap and the console.\<close>

definition boot :: "NewStack \<Rightarrow> NewStack \<Rightarrow> NewStack \<Rightarrow> NewStack \<Rightarrow> Machine \<Rightarrow> Machine outcome" where
  "boot ns0 ns1 ns2 ns3 m =
     (let m = KernelMutex_set_enabled page_allocator_mutex False m;
          m = KernelMutex_set_enabled malloc_mutex False m;
          (thread, m) = Thread_construct ''Kernel (boot_with_scheduler)'' m
      in bindE (Thread_setup_context thread Other_Code ns0 m) (\<lambda>m.
         bindE (Thread_get thread m) (\<lambda>th.
         bindE (Scheduler_new thread (Thread_put thread (th\<lparr>th_m_privileged := True\<rparr>) m))
           (Scheduler_loop ns1 ns2 ns3))))"

subsection \<open>Threads of processes\<close>

definition Process_create_thread :: "string \<Rightarrow> nat \<Rightarrow> NewStack \<Rightarrow> Machine \<Rightarrow> Machine outcome" where
  "Process_create_thread name process ns m =
     bindE (new_kernel_thread (''Process: '' @ name) (\<lambda>th. th\<lparr>th_m_process := Some process, th_m_privileged := True\<rparr>)
       Other_Code ns m) (\<lambda>(thread, m).
     bindE (masked_interrupts (\<lambda>m. bindE (Scheduler_add_thread thread m) (\<lambda>m. Inr ((), m))) m) (\<lambda>(_, m). Inr m))"

definition hand_over_to_loaded_executable :: "Region list \<Rightarrow> Machine \<Rightarrow> Machine outcome" where
  "hand_over_to_loaded_executable regions m =
     checkE (is_executing_in_thread_mode m) (VERIFY ''is_executing_in_thread_mode()'')
     (checkE (is_executing_privileged m) (VERIFY ''is_executing_privileged()'')
       (bindE (setup_mpu regions (cp_mpu_hw m)) (\<lambda>hw.
        bindE (masked_interrupts (\<lambda>m.
          bindE (get_active_thread m) (\<lambda>t.
          bindE (Thread_get t m) (\<lambda>th. Inr ((), Thread_put t (th\<lparr>th_m_privileged := False\<rparr>) m))))
          (m\<lparr>cp_mpu_hw := hw\<rparr>)) (\<lambda>(_, m).
        Inr (m\<lparr>cp_control := 0b11\<rparr>)))))"

subsection \<open>Exceptions\<close>

text \<open>PendSV and SVCall, entered with the registers of the active thread saved at \<open>ctx\<close>.\<close>

definition isr_pendsv :: "uptr \<Rightarrow> Machine \<Rightarrow> Machine outcome" where
  "isr_pendsv ctx m =
     bindE (scheduler_next ctx (m\<lparr>cp_ipsr := 14, cp_pendsvset := False\<rparr>)) (\<lambda>(_, m). Inr (m\<lparr>cp_ipsr := 0\<rparr>))"

definition isr_svcall :: "uptr \<Rightarrow> Machine \<Rightarrow> Machine outcome" where
  "isr_svcall ctx m = bindE (SystemHandler_syscall ctx (m\<lparr>cp_ipsr := 11\<rparr>)) (\<lambda>(_, m). Inr (m\<lparr>cp_ipsr := 0\<rparr>))"

subsection \<open>Actions and steps\<close>

text \<open>
  Besides the machine, the state of the threads' control: the local pointer \<^verbatim>\<open>thread\<close> of the loops,
  which threads wait inside \<^verbatim>\<open>KernelMutex::lock\<close>, and which have returned from it and not yet
  called \<^verbatim>\<open>unlock\<close>.
\<close>

record System =
  sy_machine :: Machine
  sy_local :: "nat \<Rightarrow> nat option"
  sy_in_lock :: "nat \<Rightarrow> MutexId option"
  sy_inside :: "MutexId \<Rightarrow> nat list"

datatype action =
    SysTick
  | PendSV uptr
  | SVCall uptr
  | Lock MutexId
  | Return_From_Lock MutexId
  | Unlock MutexId
  | Handler_Round
  | Handler_Spawn string NewStack
  | Worker_Return u32
  | Die
  | Default_Round
  | Default_Kill
  | Fallback_Round
  | Create_Process string nat NewStack
  | Hand_Over
  | Start_Handler NewStack

definition pendsv_due :: "Machine \<Rightarrow> bool" where
  "pendsv_due m \<longleftrightarrow> cp_pendsvset m \<and> are_interrupts_enabled m"

definition on_machine :: "(Machine \<Rightarrow> Machine outcome) \<Rightarrow> System \<Rightarrow> System outcome" where
  "on_machine f s = bindE (f (sy_machine s)) (\<lambda>m. Inr (s\<lparr>sy_machine := m\<rparr>))"

text \<open>What the active thread \<open>t\<close> does.\<close>

fun thread_action :: "nat \<Rightarrow> action \<Rightarrow> System \<Rightarrow> System outcome" where
  "thread_action t (SVCall ctx) s = on_machine (isr_svcall ctx) s"
| "thread_action t (Lock mx) s =
     bindE (on_machine (KernelMutex_lock mx) s) (\<lambda>s.
     bindE (Thread_get t (sy_machine s)) (\<lambda>th.
     Inr (if th_m_masked_from_scheduler th then s\<lparr>sy_in_lock := (sy_in_lock s)(t \<mapsto> mx)\<rparr>
          else s\<lparr>sy_inside := (sy_inside s)(mx := t # sy_inside s mx)\<rparr>)))"
| "thread_action t (Return_From_Lock mx) s =
     Inr (s\<lparr>sy_in_lock := (sy_in_lock s)(t := None), sy_inside := (sy_inside s)(mx := t # sy_inside s mx)\<rparr>)"
| "thread_action t (Unlock mx) s =
     bindE (on_machine (KernelMutex_unlock mx) s) (\<lambda>s.
     Inr (s\<lparr>sy_inside := (sy_inside s)(mx := removeAll t (sy_inside s mx))\<rparr>))"
| "thread_action t Handler_Round s =
     bindE (SystemHandler_loop_check (sy_machine s)) (\<lambda>(work, m).
     if work then bindE (handle_next_take m) (\<lambda>(u, m). Inr (s\<lparr>sy_machine := m, sy_local := (sy_local s)(t \<mapsto> u)\<rparr>))
     else Inr (s\<lparr>sy_machine := m\<rparr>))"
| "thread_action t (Handler_Spawn name ns) s =
     bindE (deref (sy_local s t)) (\<lambda>u.
     bindE (on_machine (handle_next_spawn u name ns) s) (\<lambda>s. Inr (s\<lparr>sy_local := (sy_local s)(t := None)\<rparr>)))"
| "thread_action t (Worker_Return ret) s =
     bindE (Thread_get t (sy_machine s)) (\<lambda>th.
     case th_callback th of
       Worker u ctx \<Rightarrow> on_machine (\<lambda>m. worker_return u ctx ret (Thread_put t (th\<lparr>th_callback := Other_Code\<rparr>) m)) s
     | _ \<Rightarrow> Inr s)"
| "thread_action t Die s = on_machine (Thread_die t) s"
| "thread_action t Default_Round s =
     bindE (default_loop_take (sy_machine s)) (\<lambda>(u, m). Inr (s\<lparr>sy_machine := m, sy_local := (sy_local s)(t := u)\<rparr>))"
| "thread_action t Default_Kill s =
     bindE (deref (sy_local s t)) (\<lambda>u.
     bindE (on_machine (default_loop_kill u) s) (\<lambda>s. Inr (s\<lparr>sy_local := (sy_local s)(t := None)\<rparr>)))"
| "thread_action t Fallback_Round s = on_machine Scheduler_trigger s"
| "thread_action t (Create_Process name p ns) s = on_machine (Process_create_thread name p ns) s"
| "thread_action t Hand_Over s =
     bindE (Thread_get t (sy_machine s)) (\<lambda>th. on_machine (hand_over_to_loaded_executable (th_m_regions th)) s)"
| "thread_action t (Start_Handler ns) s = on_machine (SystemHandler_initialize ns) s"
| "thread_action t _ s = Inr s"

text \<open>Which thread can do what: the code that the thread runs contains the call.\<close>

fun thread_can :: "Thread \<Rightarrow> nat \<Rightarrow> action \<Rightarrow> System \<Rightarrow> bool" where
  "thread_can th t (SVCall ctx) s \<longleftrightarrow> \<not> th_m_privileged th \<and> th_m_process th \<noteq> None"
| "thread_can th t (Lock mx) s \<longleftrightarrow> th_m_privileged th \<and> th_callback th \<noteq> Fallback_Loop"
| "thread_can th t (Unlock mx) s \<longleftrightarrow> t \<in> set (sy_inside s mx)"
| "thread_can th t Handler_Round s \<longleftrightarrow> th_callback th = Handler_Loop \<and> sy_local s t = None"
| "thread_can th t (Handler_Spawn name ns) s \<longleftrightarrow> th_callback th = Handler_Loop \<and> sy_local s t \<noteq> None"
| "thread_can th t (Worker_Return ret) s \<longleftrightarrow> is_Worker (th_callback th)"
| "thread_can th t Die s \<longleftrightarrow> th_callback th = Other_Code \<and> th_m_privileged th"
| "thread_can th t Default_Round s \<longleftrightarrow> th_callback th = Default_Loop \<and> sy_local s t = None"
| "thread_can th t Default_Kill s \<longleftrightarrow> th_callback th = Default_Loop \<and> sy_local s t \<noteq> None"
| "thread_can th t Fallback_Round s \<longleftrightarrow> th_callback th = Fallback_Loop"
| "thread_can th t (Create_Process name p ns) s \<longleftrightarrow> th_m_privileged th \<and> th_callback th \<notin> {Handler_Loop, Default_Loop, Fallback_Loop}"
| "thread_can th t Hand_Over s \<longleftrightarrow> th_callback th = Other_Code \<and> th_m_privileged th \<and> th_m_process th \<noteq> None"
| "thread_can th t (Start_Handler ns) s \<longleftrightarrow> th_m_privileged th \<and> th_callback th = Other_Code"
| "thread_can th t _ s \<longleftrightarrow> False"

fun perform :: "action \<Rightarrow> System \<Rightarrow> System outcome" where
  "perform SysTick s = on_machine isr_systick s"
| "perform (PendSV ctx) s = on_machine (isr_pendsv ctx) s"
| "perform a s = (case sc_m_active_thread (sy_machine s) of None \<Rightarrow> Inr s | Some t \<Rightarrow> thread_action t a s)"

fun can :: "action \<Rightarrow> System \<Rightarrow> bool" where
  "can SysTick s \<longleftrightarrow> True"
| "can (PendSV ctx) s \<longleftrightarrow> pendsv_due (sy_machine s)"
| "can a s \<longleftrightarrow> \<not> pendsv_due (sy_machine s) \<and>
     (case sc_m_active_thread (sy_machine s) of
        None \<Rightarrow> False
      | Some t \<Rightarrow>
          (case ma_threads (sy_machine s) t of
             None \<Rightarrow> False
           | Some th \<Rightarrow>
               (case sy_in_lock s t of
                  None \<Rightarrow> thread_can th t a s
                | Some mx \<Rightarrow> a = Return_From_Lock mx)))"

text \<open>The states of a running kernel: after the dummy thread's callback, whatever runs.\<close>

definition started :: "NewStack list \<Rightarrow> MPUHardware \<Rightarrow> (uptr \<Rightarrow> FullRegisterContext) \<Rightarrow> System outcome" where
  "started nss hw contexts =
     bindE (boot (nss ! 0) (nss ! 1) (nss ! 2) (nss ! 3) (Machine_reset hw contexts)) (\<lambda>m.
     bindE (dummy_callback m) (\<lambda>m.
     Inr \<lparr>sy_machine = m, sy_local = (\<lambda>_. None), sy_in_lock = (\<lambda>_. None), sy_inside = (\<lambda>_. [])\<rparr>))"

inductive kernel_run :: "(action \<Rightarrow> System \<Rightarrow> bool) \<Rightarrow> System \<Rightarrow> System \<Rightarrow> bool" for ok s0 where
  kernel_start: "kernel_run ok s0 s0"
| kernel_step: "kernel_run ok s0 s \<Longrightarrow> can a s \<Longrightarrow> ok a s \<Longrightarrow> perform a s = Inr s' \<Longrightarrow> kernel_run ok s0 s'"

end
