(* ===== verification/Kernel_Invariant.thy ===== *)
theory Kernel_Invariant
  imports Kernel_Steps
begin

section \<open>The invariant of the kernel's threads\<close>

text \<open>
  What holds between two actions when the default thread never has to wait for a mutex and no
  system call comes while the handler's thread waits for one.  The invariant is a conjunction of
  one predicate per concern.  Threads may be deleted at any time, so everything said of a thread's
  own fields holds if it is alive.
\<close>

subsection \<open>The invariant\<close>

abbreviation ready :: "Machine \<Rightarrow> nat list" where
  "ready m \<equiv> CircularQueue_items (sc_m_queued_threads m)"

abbreviation callers :: "Machine \<Rightarrow> nat list" where
  "callers m \<equiv> CircularQueue_items (sh_m_waiting_threads m)"

abbreviation waiting :: "Machine \<Rightarrow> MutexId \<Rightarrow> nat list" where
  "waiting m mx \<equiv> CircularQueue_items (km_m_waiting_threads (ma_mutex m mx))"

abbreviation holder :: "Machine \<Rightarrow> MutexId \<Rightarrow> nat option" where
  "holder m mx \<equiv> km_m_holding_thread (ma_mutex m mx)"

definition if_alive :: "Machine \<Rightarrow> nat \<Rightarrow> (Thread \<Rightarrow> bool) \<Rightarrow> bool" where
  "if_alive m t P \<longleftrightarrow> (\<forall>th. ma_threads m t = Some th \<longrightarrow> P th)"

definition specials :: "Machine \<Rightarrow> nat set" where
  "specials m = set_option (sc_m_default_thread m) \<union> set_option (sc_m_fallback_thread m)"

definition queues_ok :: "Machine \<Rightarrow> bool" where
  "queues_ok m \<longleftrightarrow> CircularQueue_inv (sc_m_queued_threads m) \<and> CircularQueue_inv (sc_m_dangling_threads m) \<and>
     CircularQueue_inv (sh_m_waiting_threads m) \<and> sc_m_initialized m \<and>
     (\<forall>mx. CircularQueue_inv (km_m_waiting_threads (ma_mutex m mx)) \<and> km_m_enabled (ma_mutex m mx))"

text \<open>Queued threads are runnable, queued once and not running.\<close>

definition ready_ok :: "Machine \<Rightarrow> bool" where
  "ready_ok m \<longleftrightarrow> distinct (ready m) \<and>
     (\<forall>t\<in>set (ready m). sc_m_active_thread m \<noteq> Some t \<and> if_alive m t (\<lambda>th. \<not> th_m_masked_from_scheduler th))"

text \<open>The default and the fallback thread can always run and are never queued.\<close>

definition specials_ok :: "System \<Rightarrow> bool" where
  "specials_ok s \<longleftrightarrow> (\<forall>t\<in>specials (sy_machine s).
     t \<notin> set (ready (sy_machine s)) \<and> sy_in_lock s t = None \<and>
     if_alive (sy_machine s) t (\<lambda>th. \<not> th_m_masked_from_scheduler th \<and> th_m_is_default_thread th \<and>
       th_m_privileged th \<and> th_callback th \<in> {Default_Loop, Fallback_Loop}))"

text \<open>Threads in the queue of a mutex are masked and inside \<^verbatim>\<open>lock\<close>.\<close>

definition waiting_ok :: "System \<Rightarrow> bool" where
  "waiting_ok s \<longleftrightarrow> (\<forall>mx. distinct (waiting (sy_machine s) mx) \<and>
     (\<forall>t\<in>set (waiting (sy_machine s) mx).
        sy_in_lock s t = Some mx \<and> if_alive (sy_machine s) t th_m_masked_from_scheduler))"

text \<open>A thread inside \<^verbatim>\<open>lock\<close> is queued or has been handed the mutex; only the holder is past it.\<close>

definition locks_ok :: "System \<Rightarrow> bool" where
  "locks_ok s \<longleftrightarrow>
     (\<forall>t mx. sy_in_lock s t = Some mx \<longrightarrow> t \<in> set (waiting (sy_machine s) mx) \<or> holder (sy_machine s) mx = Some t) \<and>
     (\<forall>mx. \<forall>t\<in>set (sy_inside s mx). holder (sy_machine s) mx = Some t)"

text \<open>
  A thread in a system call belongs to the handler's queue, to the local pointer of the handler's
  thread or to one worker.
\<close>

definition taken_by :: "System \<Rightarrow> nat \<Rightarrow> nat \<Rightarrow> bool" where
  "taken_by s h u \<longleftrightarrow> sh_m_thread (sy_machine s) = Some h \<and> sy_local s h = Some u"

definition works_for :: "Machine \<Rightarrow> nat \<Rightarrow> nat \<Rightarrow> bool" where
  "works_for m w u \<longleftrightarrow> (\<exists>th ctx. ma_threads m w = Some th \<and> th_callback th = Worker u ctx)"

definition in_call :: "System \<Rightarrow> nat \<Rightarrow> bool" where
  "in_call s u \<longleftrightarrow> u \<in> set (callers (sy_machine s)) \<or> (\<exists>h. taken_by s h u) \<or> (\<exists>w. works_for (sy_machine s) w u)"

definition call_ok :: "System \<Rightarrow> nat \<Rightarrow> bool" where
  "call_ok s u \<longleftrightarrow>
     u \<notin> set (ready (sy_machine s)) \<and> sc_m_active_thread (sy_machine s) \<noteq> Some u \<and> sy_in_lock s u = None \<and>
     u < ma_next (sy_machine s) \<and> u \<notin> specials (sy_machine s) \<and>
     if_alive (sy_machine s) u (\<lambda>th. th_m_masked_from_scheduler th \<and> \<not> th_m_privileged th)"

definition calls_ok :: "System \<Rightarrow> bool" where
  "calls_ok s \<longleftrightarrow> (\<forall>u. in_call s u \<longrightarrow> call_ok s u)"

definition calls_distinct :: "System \<Rightarrow> bool" where
  "calls_distinct s \<longleftrightarrow> distinct (callers (sy_machine s)) \<and>
     (\<forall>h u. taken_by s h u \<longrightarrow> u \<notin> set (callers (sy_machine s))) \<and>
     (\<forall>w u. works_for (sy_machine s) w u \<longrightarrow> u \<notin> set (callers (sy_machine s)) \<and> \<not> (\<exists>h. taken_by s h u)) \<and>
     (\<forall>w w' u. works_for (sy_machine s) w u \<longrightarrow> works_for (sy_machine s) w' u \<longrightarrow> w = w')"

definition users_ok :: "System \<Rightarrow> bool" where
  "users_ok s \<longleftrightarrow> (\<forall>t. if_alive (sy_machine s) t (\<lambda>th. \<not> th_m_privileged th \<longrightarrow> sy_in_lock s t = None))"

definition handler_ok :: "System \<Rightarrow> bool" where
  "handler_ok s \<longleftrightarrow>
     (\<forall>t. if_alive (sy_machine s) t (\<lambda>th. th_callback th = Handler_Loop \<longleftrightarrow> sh_m_thread (sy_machine s) = Some t)) \<and>
     (\<forall>h. sh_m_thread (sy_machine s) = Some h \<longrightarrow> h < ma_next (sy_machine s) \<and> if_alive (sy_machine s) h th_m_privileged) \<and>
     (sh_m_thread (sy_machine s) \<noteq> None \<longrightarrow> sh_m_initialized (sy_machine s))"

definition fresh_ok :: "System \<Rightarrow> bool" where
  "fresh_ok s \<longleftrightarrow> (\<forall>t. ma_next (sy_machine s) \<le> t \<longrightarrow>
     ma_threads (sy_machine s) t = None \<and> sy_in_lock s t = None \<and> sy_local s t = None \<and>
     t \<notin> set (ready (sy_machine s)) \<and> sc_m_active_thread (sy_machine s) \<noteq> Some t \<and> t \<notin> specials (sy_machine s))"

definition sys_inv :: "System \<Rightarrow> bool" where
  "sys_inv s \<longleftrightarrow> queues_ok (sy_machine s) \<and> ready_ok (sy_machine s) \<and> specials_ok s \<and> waiting_ok s \<and> locks_ok s \<and>
     calls_ok s \<and> calls_distinct s \<and> users_ok s \<and> handler_ok s \<and> fresh_ok s"

lemma sys_invI:
  "queues_ok (sy_machine s) \<Longrightarrow> ready_ok (sy_machine s) \<Longrightarrow> specials_ok s \<Longrightarrow> waiting_ok s \<Longrightarrow> locks_ok s \<Longrightarrow>
   (\<And>u. in_call s u \<Longrightarrow> call_ok s u) \<Longrightarrow> calls_distinct s \<Longrightarrow> users_ok s \<Longrightarrow> handler_ok s \<Longrightarrow> fresh_ok s \<Longrightarrow> sys_inv s"
  by (simp add: sys_inv_def calls_ok_def)

lemma sys_inv_call: "sys_inv s \<Longrightarrow> in_call s u \<Longrightarrow> call_ok s u"
  by (simp add: sys_inv_def calls_ok_def)

text \<open>Between actions the processor is in thread mode, and a masked active thread is about to go.\<close>

definition at_rest :: "Machine \<Rightarrow> bool" where
  "at_rest m \<longleftrightarrow> cp_ipsr m = 0 \<and> cp_primask m = 0 \<and> sc_m_enabled m \<and>
     (\<forall>t. sc_m_active_thread m = Some t \<longrightarrow> if_alive m t (\<lambda>th. th_m_masked_from_scheduler th \<longrightarrow> cp_pendsvset m))"

subsection \<open>Steps that the invariant does not notice\<close>

text \<open>
  Reference counts, stashed contexts and regions change, threads are deleted, the processor's own
  state changes; queues, masks, callbacks and mutexes do not.
\<close>

definition calm_thread :: "Thread \<Rightarrow> Thread \<Rightarrow> bool" where
  "calm_thread th th' \<longleftrightarrow> th_m_masked_from_scheduler th' = th_m_masked_from_scheduler th \<and>
     th_m_privileged th' = th_m_privileged th \<and> th_m_is_default_thread th' = th_m_is_default_thread th \<and>
     th_callback th' = th_callback th \<and> th_m_process th' = th_m_process th"

definition calm :: "Machine \<Rightarrow> Machine \<Rightarrow> bool" where
  "calm m m' \<longleftrightarrow>
     (\<forall>t th'. ma_threads m' t = Some th' \<longrightarrow> (\<exists>th. ma_threads m t = Some th \<and> calm_thread th th')) \<and>
     ma_next m' = ma_next m \<and> ma_mutex m' = ma_mutex m \<and> sc_m_initialized m' = sc_m_initialized m \<and>
     sc_m_enabled m' = sc_m_enabled m \<and> sc_m_queued_threads m' = sc_m_queued_threads m \<and>
     sc_m_active_thread m' = sc_m_active_thread m \<and> sc_m_default_thread m' = sc_m_default_thread m \<and>
     sc_m_fallback_thread m' = sc_m_fallback_thread m \<and> sh_m_initialized m' = sh_m_initialized m \<and>
     sh_m_thread m' = sh_m_thread m \<and> sh_m_waiting_threads m' = sh_m_waiting_threads m \<and>
     (CircularQueue_inv (sc_m_dangling_threads m) \<longrightarrow> CircularQueue_inv (sc_m_dangling_threads m'))"

lemma calm_thread_refl [simp]: "calm_thread th th"
  by (simp add: calm_thread_def)

lemma calm_refl [simp]: "calm m m"
  by (auto simp: calm_def)

lemma calm_trans: "calm a b \<Longrightarrow> calm b c \<Longrightarrow> calm a c"
  unfolding calm_def calm_thread_def by (clarsimp, metis)

lemma calm_put: "ma_threads m t = Some th \<Longrightarrow> calm_thread th th' \<Longrightarrow> calm m (Thread_put t th' m)"
  by (auto simp: calm_def Thread_put_def)

lemma calm_cpu [simp]:
  "calm (m\<lparr>cp_ipsr := a\<rparr>) m' = calm m m'" "calm m (m'\<lparr>cp_ipsr := a\<rparr>) = calm m m'"
  "calm (m\<lparr>cp_primask := a\<rparr>) m' = calm m m'" "calm m (m'\<lparr>cp_primask := a\<rparr>) = calm m m'"
  "calm (m\<lparr>cp_control := a\<rparr>) m' = calm m m'" "calm m (m'\<lparr>cp_control := a\<rparr>) = calm m m'"
  "calm (m\<lparr>cp_pendsvset := b\<rparr>) m' = calm m m'" "calm m (m'\<lparr>cp_pendsvset := b\<rparr>) = calm m m'"
  "calm (m\<lparr>cp_mpu_hw := hw\<rparr>) m' = calm m m'" "calm m (m'\<lparr>cp_mpu_hw := hw\<rparr>) = calm m m'"
  "calm (m\<lparr>cp_contexts := c\<rparr>) m' = calm m m'" "calm m (m'\<lparr>cp_contexts := c\<rparr>) = calm m m'"
  by (auto simp: calm_def)

lemma calm_if_alive: "calm m m' \<Longrightarrow> if_alive m t P \<Longrightarrow> (\<And>th th'. calm_thread th th' \<Longrightarrow> P th \<Longrightarrow> P th') \<Longrightarrow> if_alive m' t P"
  by (force simp: calm_def if_alive_def)

lemma calm_works_for: "calm m m' \<Longrightarrow> works_for m' w u \<Longrightarrow> works_for m w u"
  unfolding works_for_def calm_def calm_thread_def by metis

lemma calm_inv:
  assumes "sys_inv s" and c: "calm (sy_machine s) m'"
  shows "sys_inv (s\<lparr>sy_machine := m'\<rparr>)"
proof -
  have alive: "if_alive (sy_machine s) t P \<Longrightarrow> (\<And>th th'. calm_thread th th' \<Longrightarrow> P th \<Longrightarrow> P th') \<Longrightarrow> if_alive m' t P" for t P
    by (rule calm_if_alive[OF c])
  have same: "ma_next m' = ma_next (sy_machine s)" "ma_mutex m' = ma_mutex (sy_machine s)"
    "sc_m_initialized m' = sc_m_initialized (sy_machine s)" "sc_m_queued_threads m' = sc_m_queued_threads (sy_machine s)"
    "sc_m_active_thread m' = sc_m_active_thread (sy_machine s)" "specials m' = specials (sy_machine s)"
    "sh_m_thread m' = sh_m_thread (sy_machine s)" "sh_m_waiting_threads m' = sh_m_waiting_threads (sy_machine s)"
    "sh_m_initialized m' = sh_m_initialized (sy_machine s)"
    "CircularQueue_inv (sc_m_dangling_threads (sy_machine s)) \<longrightarrow> CircularQueue_inv (sc_m_dangling_threads m')"
    using c by (simp_all add: calm_def specials_def)
  have dead: "ma_threads (sy_machine s) t = None \<Longrightarrow> ma_threads m' t = None" for t
    using c by (cases "ma_threads m' t") (force simp: calm_def)+
  have taken: "taken_by (s\<lparr>sy_machine := m'\<rparr>) h u = taken_by s h u" for h u by (simp add: taken_by_def same)
  have works: "works_for m' w u \<Longrightarrow> works_for (sy_machine s) w u" for w u by (rule calm_works_for[OF c])
  have call: "in_call (s\<lparr>sy_machine := m'\<rparr>) u \<Longrightarrow> in_call s u" for u
    using works by (auto simp: in_call_def taken same)
  have keep: "if_alive (sy_machine s) t (\<lambda>th. \<not> th_m_masked_from_scheduler th) \<Longrightarrow> if_alive m' t (\<lambda>th. \<not> th_m_masked_from_scheduler th)"
    "if_alive (sy_machine s) t th_m_masked_from_scheduler \<Longrightarrow> if_alive m' t th_m_masked_from_scheduler"
    "if_alive (sy_machine s) t th_m_privileged \<Longrightarrow> if_alive m' t th_m_privileged"
    "if_alive (sy_machine s) t (\<lambda>th. \<not> th_m_masked_from_scheduler th \<and> th_m_is_default_thread th \<and>
       th_m_privileged th \<and> th_callback th \<in> {Default_Loop, Fallback_Loop}) \<Longrightarrow>
     if_alive m' t (\<lambda>th. \<not> th_m_masked_from_scheduler th \<and> th_m_is_default_thread th \<and>
       th_m_privileged th \<and> th_callback th \<in> {Default_Loop, Fallback_Loop})"
    "if_alive (sy_machine s) t (\<lambda>th. th_m_masked_from_scheduler th \<and> \<not> th_m_privileged th) \<Longrightarrow>
     if_alive m' t (\<lambda>th. th_m_masked_from_scheduler th \<and> \<not> th_m_privileged th)"
    "if_alive (sy_machine s) t (\<lambda>th. \<not> th_m_privileged th \<longrightarrow> b) \<Longrightarrow> if_alive m' t (\<lambda>th. \<not> th_m_privileged th \<longrightarrow> b)"
    "if_alive (sy_machine s) t (\<lambda>th. th_callback th = Handler_Loop \<longleftrightarrow> b) \<Longrightarrow>
     if_alive m' t (\<lambda>th. th_callback th = Handler_Loop \<longleftrightarrow> b)" for t b
    by (erule alive, simp add: calm_thread_def)+
  note parts = assms(1)[unfolded sys_inv_def]
  have "queues_ok m'" using parts by (simp add: queues_ok_def same)
  moreover have "ready_ok m'" using parts keep(1) unfolding ready_ok_def same by blast
  moreover have "specials_ok (s\<lparr>sy_machine := m'\<rparr>)" using parts keep(4) by (simp add: specials_ok_def same)
  moreover have "waiting_ok (s\<lparr>sy_machine := m'\<rparr>)" using parts keep(2) by (simp add: waiting_ok_def same)
  moreover have "locks_ok (s\<lparr>sy_machine := m'\<rparr>)" using parts by (simp add: locks_ok_def same)
  moreover have "fresh_ok (s\<lparr>sy_machine := m'\<rparr>)" using parts dead by (simp add: fresh_ok_def same)
  moreover have "users_ok (s\<lparr>sy_machine := m'\<rparr>)" using parts keep(6) by (simp add: users_ok_def)
  moreover have "handler_ok (s\<lparr>sy_machine := m'\<rparr>)" using parts keep(3,7) by (simp add: handler_ok_def same)
  moreover have "calls_ok (s\<lparr>sy_machine := m'\<rparr>)" using parts keep(5) call unfolding calls_ok_def call_ok_def by (simp add: same)
  moreover have "calls_distinct (s\<lparr>sy_machine := m'\<rparr>)"
    using parts works unfolding calls_distinct_def taken by (simp add: same) blast
  ultimately show ?thesis by (simp add: sys_inv_def)
qed

end
