(* ===== verification/Kernel_Changes.thy ===== *)
theory Kernel_Changes
  imports Kernel_Invariant
begin

section \<open>Changes that keep the invariant\<close>

text \<open>
  One lemma per elementary change of the kernel's state: the operations of the threads are sequences of
  calm steps and of these changes.
\<close>

subsection \<open>Calm operations\<close>

named_theorems calm_ops

lemma Thread_ref_calm [calm_ops]: "Thread_ref t m = Inr m' \<Longrightarrow> calm m m'"
  by (auto simp: Thread_ref_def Thread_get_def outcome_simps calm_thread_def split: option.splits intro!: calm_put)

lemma calm_delete: "calm m (m\<lparr>ma_threads := (ma_threads m)(t := None)\<rparr>)"
  by (auto simp: calm_def)

lemma Thread_unref_calm [calm_ops]: "Thread_unref t m = Inr m' \<Longrightarrow> calm m m'"
  by (auto simp: Thread_unref_def Thread_get_def outcome_simps calm_thread_def Let_def
      split: option.splits if_splits intro!: calm_put calm_delete)

lemma unref_pointer_calm [calm_ops]: "unref_pointer p m = Inr m' \<Longrightarrow> calm m m'"
  by (auto simp: unref_pointer_def calm_ops split: option.splits)

lemma Thread_stash_context_calm [calm_ops]: "Thread_stash_context t ctx m = Inr m' \<Longrightarrow> calm m m'"
  by (auto simp: Thread_stash_context_def Thread_get_def outcome_simps calm_thread_def split: option.splits intro!: calm_put)

lemma Thread_unstash_context_calm [calm_ops]: "Thread_unstash_context t m = Inr (ctx, m') \<Longrightarrow> calm m m'"
  by (auto simp: Thread_unstash_context_def Thread_get_def outcome_simps calm_thread_def split: option.splits intro!: calm_put)

lemma schedule_dispatch_calm [calm_ops]: "schedule_dispatch t m = Inr m' \<Longrightarrow> calm m m'"
  by (auto simp: schedule_dispatch_def outcome_simps Let_def)

lemma Scheduler_trigger_calm [calm_ops]: "Scheduler_trigger m = Inr m' \<Longrightarrow> calm m m'"
  by (auto simp: Scheduler_trigger_def outcome_simps)

lemma Scheduler_triggerD: "Scheduler_trigger m = Inr m' \<Longrightarrow> m' = m\<lparr>cp_pendsvset := True\<rparr>"
  by (auto simp: Scheduler_trigger_def outcome_simps)

lemma disable_interrupts_calm [calm_ops]: "disable_interrupts m = (b, m') \<Longrightarrow> calm m m'"
  by (auto simp: disable_interrupts_def split: if_splits)

lemma isr_systick_calm [calm_ops]: "isr_systick m = Inr m' \<Longrightarrow> calm m m'"
  by (auto simp: isr_systick_def outcome_simps)

subsection \<open>Elementary changes\<close>

lemma sys_inv_next:
  assumes "sys_inv s"
  shows "ma_threads (sy_machine s) (ma_next (sy_machine s)) = None" "ma_next (sy_machine s) \<notin> specials (sy_machine s)"
    "\<not> in_call s (ma_next (sy_machine s))"
  using assms sys_inv_call[OF assms, of "ma_next (sy_machine s)"] by (auto simp: sys_inv_def fresh_ok_def call_ok_def)

lemma if_alive_put: "if_alive (Thread_put t th m) x P \<longleftrightarrow> (if x = t then P th else if_alive m x P)"
  by (auto simp: if_alive_def Thread_put_def)

lemma if_alive_this: "ma_threads m t = Some th \<Longrightarrow> if_alive m t P \<longleftrightarrow> P th"
  by (simp add: if_alive_def)

lemma inv_deactivate:
  assumes inv: "sys_inv s" and m: "m = sy_machine s"
    and s': "s' = s\<lparr>sy_machine := m\<lparr>sc_m_active_thread := None\<rparr>\<rparr>"
  shows "sys_inv s'"
proof -
  have works: "works_for (sy_machine s') = works_for m" by (simp add: s' works_for_def fun_eq_iff Thread_put_def)
  have taken: "taken_by s' = taken_by s" by (simp add: s' taken_by_def fun_eq_iff m Thread_put_def)
  have call: "in_call s' = in_call s" using works taken by (simp add: s' in_call_def fun_eq_iff m Thread_put_def)
  note parts = inv[unfolded sys_inv_def]
  have calls: "call_ok s' u" if "in_call s' u" for u
    using sys_inv_call[OF inv that[unfolded call]] by (auto simp: s' call_ok_def if_alive_def specials_def m Thread_put_def)
  show ?thesis
  proof (rule sys_invI)
    show "queues_ok (sy_machine s')" using parts by (auto simp: s' queues_ok_def if_alive_def specials_def m Thread_put_def)
    show "ready_ok (sy_machine s')" using parts by (auto simp: s' ready_ok_def if_alive_def specials_def m Thread_put_def)
    show "specials_ok s'" using parts by (auto simp: s' specials_ok_def if_alive_def specials_def m Thread_put_def)
    show "waiting_ok s'" using parts by (auto simp: s' waiting_ok_def if_alive_def specials_def m Thread_put_def)
    show "locks_ok s'" using parts by (auto simp: s' locks_ok_def if_alive_def specials_def m Thread_put_def)
    show "\<And>u. in_call s' u \<Longrightarrow> call_ok s' u" by (rule calls)
    show "calls_distinct s'" using parts unfolding calls_distinct_def taken works by (simp add: s' m Thread_put_def)
    show "users_ok s'" using parts by (auto simp: s' users_ok_def if_alive_def specials_def m Thread_put_def)
    show "handler_ok s'" using parts by (auto simp: s' handler_ok_def if_alive_def specials_def m Thread_put_def)
    show "fresh_ok s'" using parts by (auto simp: s' fresh_ok_def if_alive_def specials_def m Thread_put_def)
  qed
qed

lemma inv_mask:
  assumes inv: "sys_inv s" and m: "m = sy_machine s"
    and t: "t \<notin> set (ready m)" "ma_threads m t = Some th"
    and sp: "t \<notin> specials m"
    and s': "s' = s\<lparr>sy_machine := Thread_put t (th\<lparr>th_m_masked_from_scheduler := True\<rparr>) m\<rparr>"
  shows "sys_inv s'"
proof -
  have works: "works_for (sy_machine s') = works_for m" using t by (auto simp: s' works_for_def fun_eq_iff Thread_put_def)
  have taken: "taken_by s' = taken_by s" by (simp add: s' taken_by_def fun_eq_iff m Thread_put_def)
  have call: "in_call s' = in_call s" using works taken by (simp add: s' in_call_def fun_eq_iff m Thread_put_def)
  note parts = inv[unfolded sys_inv_def]
  have calls: "call_ok s' u" if "in_call s' u" for u
    using sys_inv_call[OF inv that[unfolded call]] if_alive_this[OF t(2)]
    by (cases "u = t") (simp_all add: s' call_ok_def if_alive_put m, simp_all add: Thread_put_def specials_def)
  show ?thesis
  proof (rule sys_invI)
    show "queues_ok (sy_machine s')" using parts t sp by (auto simp: s' queues_ok_def if_alive_def specials_def m Thread_put_def)
    show "ready_ok (sy_machine s')" using parts t sp by (auto simp: s' ready_ok_def if_alive_def specials_def m Thread_put_def)
    show "specials_ok s'" using parts sp by (auto simp: s' specials_ok_def if_alive_def specials_def m Thread_put_def)
    show "waiting_ok s'" using parts t sp by (auto simp: s' waiting_ok_def if_alive_def specials_def m Thread_put_def)
    show "locks_ok s'" using parts t sp by (auto simp: s' locks_ok_def if_alive_def specials_def m Thread_put_def)
    show "\<And>u. in_call s' u \<Longrightarrow> call_ok s' u" by (rule calls)
    show "calls_distinct s'" using parts unfolding calls_distinct_def taken works by (simp add: s' m Thread_put_def)
    show "users_ok s'" using parts t sp by (auto simp: s' users_ok_def if_alive_def specials_def m Thread_put_def)
    show "handler_ok s'" using parts t sp by (auto simp: s' handler_ok_def if_alive_def specials_def m Thread_put_def)
    show "fresh_ok s'" using parts t sp by (auto simp: s' fresh_ok_def if_alive_def specials_def m Thread_put_def)
  qed
qed

lemma inv_put_away:
  assumes inv: "sys_inv s" and m: "m = sy_machine s"
    and t: "sc_m_active_thread m = Some t" "if_alive m t (\<lambda>th. \<not> th_m_masked_from_scheduler th)" "t \<notin> specials m"
    and q: "CircularQueue_inv q" "CircularQueue_items q = ready m @ [t]"
    and s': "s' = s\<lparr>sy_machine := m\<lparr>sc_m_queued_threads := q, sc_m_active_thread := None\<rparr>\<rparr>"
  shows "sys_inv s'"
proof -
  have works: "works_for (sy_machine s') = works_for m" by (simp add: s' works_for_def fun_eq_iff Thread_put_def)
  have taken: "taken_by s' = taken_by s" by (simp add: s' taken_by_def fun_eq_iff m Thread_put_def)
  have call: "in_call s' = in_call s" using works taken by (simp add: s' in_call_def fun_eq_iff m Thread_put_def)
  note parts = inv[unfolded sys_inv_def]
  have calls: "call_ok s' u" if "in_call s' u" for u
    using sys_inv_call[OF inv that[unfolded call]] t q by (auto simp: s' call_ok_def if_alive_def specials_def m Thread_put_def)
  show ?thesis
  proof (rule sys_invI)
    show "queues_ok (sy_machine s')" using parts t q by (auto simp: s' queues_ok_def if_alive_def specials_def m Thread_put_def)
    show "ready_ok (sy_machine s')" using parts t q by (auto simp: s' ready_ok_def if_alive_def specials_def m Thread_put_def)
    show "specials_ok s'" using parts t q by (auto simp: s' specials_ok_def if_alive_def specials_def m Thread_put_def)
    show "waiting_ok s'" using parts t q by (auto simp: s' waiting_ok_def if_alive_def specials_def m Thread_put_def)
    show "locks_ok s'" using parts t q by (auto simp: s' locks_ok_def if_alive_def specials_def m Thread_put_def)
    show "\<And>u. in_call s' u \<Longrightarrow> call_ok s' u" by (rule calls)
    show "calls_distinct s'" using parts unfolding calls_distinct_def taken works by (simp add: s' m Thread_put_def)
    show "users_ok s'" using parts t q by (auto simp: s' users_ok_def if_alive_def specials_def m Thread_put_def)
    show "handler_ok s'" using parts t q by (auto simp: s' handler_ok_def if_alive_def specials_def m Thread_put_def)
    show "fresh_ok s'" using parts t q by (auto simp: s' fresh_ok_def if_alive_def specials_def m Thread_put_def)
  qed
qed

lemma inv_choose_ready:
  assumes inv: "sys_inv s" and m: "m = sy_machine s"
    and t: "sc_m_active_thread m = None"
    and q: "CircularQueue_inv q" "ready m = t # CircularQueue_items q"
    and s': "s' = s\<lparr>sy_machine := m\<lparr>sc_m_queued_threads := q, sc_m_active_thread := Some t\<rparr>\<rparr>"
  shows "sys_inv s'"
proof -
  have works: "works_for (sy_machine s') = works_for m" by (simp add: s' works_for_def fun_eq_iff Thread_put_def)
  have taken: "taken_by s' = taken_by s" by (simp add: s' taken_by_def fun_eq_iff m Thread_put_def)
  have call: "in_call s' = in_call s" using works taken by (simp add: s' in_call_def fun_eq_iff m Thread_put_def)
  note parts = inv[unfolded sys_inv_def]
  have calls: "call_ok s' u" if "in_call s' u" for u
    using sys_inv_call[OF inv that[unfolded call]] t q by (auto simp: s' call_ok_def if_alive_def specials_def m Thread_put_def)
  show ?thesis
  proof (rule sys_invI)
    show "queues_ok (sy_machine s')" using parts t q by (auto simp: s' queues_ok_def if_alive_def specials_def m Thread_put_def)
    show "ready_ok (sy_machine s')" using parts t q by (auto simp: s' ready_ok_def if_alive_def specials_def m Thread_put_def)
    show "specials_ok s'" using parts t q by (auto simp: s' specials_ok_def if_alive_def specials_def m Thread_put_def)
    show "waiting_ok s'" using parts t q by (auto simp: s' waiting_ok_def if_alive_def specials_def m Thread_put_def)
    show "locks_ok s'" using parts t q by (auto simp: s' locks_ok_def if_alive_def specials_def m Thread_put_def)
    show "\<And>u. in_call s' u \<Longrightarrow> call_ok s' u" by (rule calls)
    show "calls_distinct s'" using parts unfolding calls_distinct_def taken works by (simp add: s' m Thread_put_def)
    show "users_ok s'" using parts t q by (auto simp: s' users_ok_def if_alive_def specials_def m Thread_put_def)
    show "handler_ok s'" using parts t q by (auto simp: s' handler_ok_def if_alive_def specials_def m Thread_put_def)
    show "fresh_ok s'" using parts t q by (auto simp: s' fresh_ok_def if_alive_def specials_def m Thread_put_def)
  qed
qed

lemma inv_choose_special:
  assumes inv: "sys_inv s" and m: "m = sy_machine s"
    and t: "sc_m_active_thread m = None" "t \<in> specials m"
    and s': "s' = s\<lparr>sy_machine := m\<lparr>sc_m_active_thread := Some t\<rparr>\<rparr>"
  shows "sys_inv s'"
proof -
  have works: "works_for (sy_machine s') = works_for m" by (simp add: s' works_for_def fun_eq_iff Thread_put_def)
  have taken: "taken_by s' = taken_by s" by (simp add: s' taken_by_def fun_eq_iff m Thread_put_def)
  have call: "in_call s' = in_call s" using works taken by (simp add: s' in_call_def fun_eq_iff m Thread_put_def)
  note parts = inv[unfolded sys_inv_def]
  have calls: "call_ok s' u" if "in_call s' u" for u
    using sys_inv_call[OF inv that[unfolded call]] t by (auto simp: s' call_ok_def if_alive_def specials_def m Thread_put_def)
  show ?thesis
  proof (rule sys_invI)
    show "queues_ok (sy_machine s')" using parts t by (auto simp: s' queues_ok_def if_alive_def specials_def m Thread_put_def)
    show "ready_ok (sy_machine s')" using parts t by (auto simp: s' ready_ok_def if_alive_def m specials_ok_def)
    show "specials_ok s'" using parts t by (auto simp: s' specials_ok_def if_alive_def specials_def m Thread_put_def)
    show "waiting_ok s'" using parts t by (auto simp: s' waiting_ok_def if_alive_def specials_def m Thread_put_def)
    show "locks_ok s'" using parts t by (auto simp: s' locks_ok_def if_alive_def specials_def m Thread_put_def)
    show "\<And>u. in_call s' u \<Longrightarrow> call_ok s' u" by (rule calls)
    show "calls_distinct s'" using parts unfolding calls_distinct_def taken works by (simp add: s' m Thread_put_def)
    show "users_ok s'" using parts t by (auto simp: s' users_ok_def if_alive_def specials_def m Thread_put_def)
    show "handler_ok s'" using parts t by (auto simp: s' handler_ok_def if_alive_def specials_def m Thread_put_def)
    show "fresh_ok s'" using parts t by (auto simp: s' fresh_ok_def if_alive_def specials_def m Thread_put_def)
  qed
qed

lemma inv_wake:
  assumes inv: "sys_inv s" and m: "m = sy_machine s"
    and t: "ma_threads m t = Some th" "sc_m_active_thread m \<noteq> Some t" "t \<notin> set (ready m)" "t \<notin> specials m"
    and c: "\<not> in_call s t"
    and w: "\<And>mx. t \<notin> set (waiting m mx)"
    and q: "CircularQueue_inv q" "CircularQueue_items q = ready m @ [t]"
    and s': "s' = s\<lparr>sy_machine := (Thread_put t (th\<lparr>th_m_masked_from_scheduler := False\<rparr>) m)\<lparr>sc_m_queued_threads := q\<rparr>\<rparr>"
  shows "sys_inv s'"
proof -
  have works: "works_for (sy_machine s') = works_for m" using t by (auto simp: s' works_for_def fun_eq_iff Thread_put_def)
  have taken: "taken_by s' = taken_by s" by (simp add: s' taken_by_def fun_eq_iff m Thread_put_def)
  have call: "in_call s' = in_call s" using works taken by (simp add: s' in_call_def fun_eq_iff m Thread_put_def)
  note parts = inv[unfolded sys_inv_def]
  have calls: "call_ok s' u" if "in_call s' u" for u
    using sys_inv_call[OF inv that[unfolded call]] c that[unfolded call] q(2) by (auto simp: s' call_ok_def if_alive_def specials_def m Thread_put_def)
  show ?thesis
  proof (rule sys_invI)
    show "queues_ok (sy_machine s')" using parts t c w q by (auto simp: s' queues_ok_def if_alive_def specials_def m Thread_put_def)
    show "ready_ok (sy_machine s')" using parts t c w q by (auto simp: s' ready_ok_def if_alive_def specials_def m Thread_put_def)
    show "specials_ok s'" using parts t(4) q(2) by (auto simp: s' specials_ok_def if_alive_def specials_def m Thread_put_def)
    show "waiting_ok s'" using parts t c w q by (auto simp: s' waiting_ok_def if_alive_def specials_def m Thread_put_def)
    show "locks_ok s'" using parts t c w q by (auto simp: s' locks_ok_def if_alive_def specials_def m Thread_put_def)
    show "\<And>u. in_call s' u \<Longrightarrow> call_ok s' u" by (rule calls)
    show "calls_distinct s'" using parts unfolding calls_distinct_def taken works by (simp add: s' m Thread_put_def)
    show "users_ok s'" using parts t c w q by (auto simp: s' users_ok_def if_alive_def specials_def m Thread_put_def)
    show "handler_ok s'" using parts t c w q by (auto simp: s' handler_ok_def if_alive_def specials_def m Thread_put_def)
    show "fresh_ok s'" using parts t c w q by (auto simp: s' fresh_ok_def if_alive_def specials_def m Thread_put_def)
  qed
qed

lemma inv_new_ready:
  assumes inv: "sys_inv s" and m: "m = sy_machine s"
    and th: "\<not> th_m_masked_from_scheduler th" "th_callback th = Other_Code"
    and q: "CircularQueue_inv q" "CircularQueue_items q = ready m @ [ma_next m]"
    and s': "s' = s\<lparr>sy_machine := m\<lparr>ma_threads := (ma_threads m)(ma_next m \<mapsto> th), ma_next := Suc (ma_next m), sc_m_queued_threads := q\<rparr>\<rparr>"
  shows "sys_inv s'"
proof -
  have works: "works_for (sy_machine s') = works_for m" using th inv[unfolded sys_inv_def] by (auto simp: s' works_for_def fun_eq_iff fresh_ok_def m)
  have taken: "taken_by s' = taken_by s" by (simp add: s' taken_by_def fun_eq_iff m Thread_put_def)
  have call: "in_call s' = in_call s" using works taken by (simp add: s' in_call_def fun_eq_iff m Thread_put_def)
  note parts = inv[unfolded sys_inv_def]
  have f: "ma_threads m (ma_next m) = None" "sy_in_lock s (ma_next m) = None" "ma_next m \<notin> set (ready m)"
    "sc_m_active_thread m \<noteq> Some (ma_next m)" "ma_next m \<notin> specials m" using parts by (auto simp: fresh_ok_def m)
  have h: "sh_m_thread m \<noteq> Some (ma_next m)" using parts by (auto simp: handler_ok_def m)
  have calls: "call_ok s' u" if "in_call s' u" for u
    using sys_inv_call[OF inv that[unfolded call]] sys_inv_next[OF inv] q(2) by (auto simp: s' call_ok_def if_alive_def specials_def m Thread_put_def)
  show ?thesis
  proof (rule sys_invI)
    show "queues_ok (sy_machine s')" using parts f th q h by (auto simp: s' queues_ok_def if_alive_def specials_def m Thread_put_def)
    show "ready_ok (sy_machine s')" using parts f th q h by (auto simp: s' ready_ok_def if_alive_def specials_def m Thread_put_def)
    show "specials_ok s'" using parts f(1,5) q(2) by (auto simp: s' specials_ok_def if_alive_def specials_def m Thread_put_def)
    show "waiting_ok s'" using parts f(1,2) by (auto simp: s' waiting_ok_def if_alive_def specials_def m Thread_put_def)
    show "locks_ok s'" using parts f th q h by (auto simp: s' locks_ok_def if_alive_def specials_def m Thread_put_def)
    show "\<And>u. in_call s' u \<Longrightarrow> call_ok s' u" by (rule calls)
    show "calls_distinct s'" using parts unfolding calls_distinct_def taken works by (simp add: s' m Thread_put_def)
    show "users_ok s'" using parts f th q h by (auto simp: s' users_ok_def if_alive_def specials_def m Thread_put_def)
    show "handler_ok s'" using parts f(1) th h by (auto simp: s' handler_ok_def if_alive_def specials_def m Thread_put_def)
    show "fresh_ok s'" using parts f th q h by (auto simp: s' fresh_ok_def if_alive_def specials_def m Thread_put_def)
  qed
qed

lemma inv_new_worker:
  assumes inv: "sys_inv s" and m: "m = sy_machine s"
    and u: "taken_by s h u"
    and th: "\<not> th_m_masked_from_scheduler th" "th_callback th = Worker u ctx"
    and q: "CircularQueue_inv q" "CircularQueue_items q = ready m @ [ma_next m]"
    and s': "s' = s\<lparr>sy_machine := m\<lparr>ma_threads := (ma_threads m)(ma_next m \<mapsto> th), ma_next := Suc (ma_next m), sc_m_queued_threads := q\<rparr>, sy_local := (sy_local s)(h := None)\<rparr>"
  shows "sys_inv s'"
proof -
  have works: "works_for (sy_machine s') w x \<longleftrightarrow> works_for m w x \<or> w = ma_next m \<and> x = u" for w x
    using th inv[unfolded sys_inv_def] by (auto simp: s' works_for_def fresh_ok_def m)
  have taken: "\<not> taken_by s' g x" "taken_by s g x \<longleftrightarrow> g = h \<and> x = u" for g x using u by (auto simp: s' taken_by_def m)
  have call: "in_call s' = in_call s" using works taken by (auto simp: in_call_def fun_eq_iff m) (simp_all add: s' m)
  note parts = inv[unfolded sys_inv_def]
  have f: "ma_threads m (ma_next m) = None" "sy_in_lock s (ma_next m) = None" "ma_next m \<notin> set (ready m)"
    "sc_m_active_thread m \<noteq> Some (ma_next m)" "ma_next m \<notin> specials m" using parts by (auto simp: fresh_ok_def m)
  have h: "sh_m_thread m \<noteq> Some (ma_next m)" using parts by (auto simp: handler_ok_def m)
  have uc: "u \<notin> set (callers m)" using parts u by (auto simp: calls_distinct_def m)
  have calls: "call_ok s' u" if "in_call s' u" for u
    using sys_inv_call[OF inv that[unfolded call]] sys_inv_next[OF inv] q(2) by (auto simp: s' call_ok_def if_alive_def specials_def m Thread_put_def)
  show ?thesis
  proof (rule sys_invI)
    show "queues_ok (sy_machine s')" using parts f th q h by (auto simp: s' queues_ok_def if_alive_def specials_def m Thread_put_def)
    show "ready_ok (sy_machine s')" using parts f th q h by (auto simp: s' ready_ok_def if_alive_def specials_def m Thread_put_def)
    show "specials_ok s'" using parts f(1,5) q(2) by (auto simp: s' specials_ok_def if_alive_def specials_def m Thread_put_def)
    show "waiting_ok s'" using parts f(1,2) by (auto simp: s' waiting_ok_def if_alive_def specials_def m Thread_put_def)
    show "locks_ok s'" using parts f th q h by (auto simp: s' locks_ok_def if_alive_def specials_def m Thread_put_def)
    show "\<And>u. in_call s' u \<Longrightarrow> call_ok s' u" by (rule calls)
    show "calls_distinct s'" using parts u uc works taken by (fastforce simp: calls_distinct_def s' m)
    show "users_ok s'" using parts f th q h by (auto simp: s' users_ok_def if_alive_def specials_def m Thread_put_def)
    show "handler_ok s'" using parts f(1) th h by (auto simp: s' handler_ok_def if_alive_def specials_def m Thread_put_def)
    show "fresh_ok s'" using parts f th q h by (auto simp: s' fresh_ok_def if_alive_def specials_def m Thread_put_def)
  qed
qed

lemma inv_new_handler:
  assumes inv: "sys_inv s" and m: "m = sy_machine s"
    and n: "sh_m_thread m = None"
    and th: "th_m_privileged th" "th_callback th = Handler_Loop"
    and s': "s' = s\<lparr>sy_machine := m\<lparr>ma_threads := (ma_threads m)(ma_next m \<mapsto> th), ma_next := Suc (ma_next m), sh_m_thread := Some (ma_next m), sh_m_initialized := True\<rparr>\<rparr>"
  shows "sys_inv s'"
proof -
  have works: "works_for (sy_machine s') = works_for m" using th inv[unfolded sys_inv_def] by (auto simp: s' works_for_def fun_eq_iff fresh_ok_def m)
  have taken: "taken_by s' = taken_by s" using n inv[unfolded sys_inv_def] by (auto simp: s' taken_by_def fun_eq_iff m fresh_ok_def)
  have call: "in_call s' = in_call s" using works taken by (simp add: s' in_call_def fun_eq_iff m Thread_put_def)
  note parts = inv[unfolded sys_inv_def]
  have f: "ma_threads m (ma_next m) = None" "sy_in_lock s (ma_next m) = None" "ma_next m \<notin> set (ready m)"
    "sc_m_active_thread m \<noteq> Some (ma_next m)" "ma_next m \<notin> specials m" using parts by (auto simp: fresh_ok_def m)
  have h: "sh_m_thread m \<noteq> Some (ma_next m)" using parts by (auto simp: handler_ok_def m)
  have calls: "call_ok s' u" if "in_call s' u" for u
    using sys_inv_call[OF inv that[unfolded call]] sys_inv_next[OF inv] by (auto simp: s' call_ok_def if_alive_def specials_def m Thread_put_def)
  show ?thesis
  proof (rule sys_invI)
    show "queues_ok (sy_machine s')" using parts f th n by (auto simp: s' queues_ok_def if_alive_def specials_def m Thread_put_def)
    show "ready_ok (sy_machine s')" using parts f th n by (auto simp: s' ready_ok_def if_alive_def specials_def m Thread_put_def)
    show "specials_ok s'" using parts f(1,5) by (auto simp: s' specials_ok_def if_alive_def specials_def m Thread_put_def)
    show "waiting_ok s'" using parts f(1,2) by (auto simp: s' waiting_ok_def if_alive_def specials_def m Thread_put_def)
    show "locks_ok s'" using parts f th n by (auto simp: s' locks_ok_def if_alive_def specials_def m Thread_put_def)
    show "\<And>u. in_call s' u \<Longrightarrow> call_ok s' u" by (rule calls)
    show "calls_distinct s'" using parts unfolding calls_distinct_def taken works by (simp add: s' m Thread_put_def)
    show "users_ok s'" using parts f th n by (auto simp: s' users_ok_def if_alive_def specials_def m Thread_put_def)
    show "handler_ok s'" using parts f(1) th n by (auto simp: s' handler_ok_def if_alive_def specials_def m Thread_put_def)
    show "fresh_ok s'" using parts f th n by (auto simp: s' fresh_ok_def if_alive_def specials_def m Thread_put_def)
  qed
qed

lemma inv_lock_free:
  assumes inv: "sys_inv s" and m: "m = sy_machine s"
    and h: "holder m mx = None"
    and km: "km_m_holding_thread km = Some t" "km_m_waiting_threads km = km_m_waiting_threads (ma_mutex m mx)" "km_m_enabled km"
    and s': "s' = s\<lparr>sy_machine := put_mutex mx km m, sy_inside := (sy_inside s)(mx := t # sy_inside s mx)\<rparr>"
  shows "sys_inv s'"
proof -
  have works: "works_for (sy_machine s') = works_for m" by (simp add: s' works_for_def fun_eq_iff put_mutex_def)
  have taken: "taken_by s' = taken_by s" by (simp add: s' taken_by_def fun_eq_iff m put_mutex_def)
  have call: "in_call s' = in_call s" using works taken by (simp add: s' in_call_def fun_eq_iff m put_mutex_def)
  note parts = inv[unfolded sys_inv_def]
  have calls: "call_ok s' u" if "in_call s' u" for u
    using sys_inv_call[OF inv that[unfolded call]] by (auto simp: s' put_mutex_def call_ok_def if_alive_def specials_def m Thread_put_def)
  show ?thesis
  proof (rule sys_invI)
    show "queues_ok (sy_machine s')" using parts h km by (auto simp: s' queues_ok_def if_alive_def specials_def m Thread_put_def put_mutex_def)
    show "ready_ok (sy_machine s')" using parts h km by (auto simp: s' ready_ok_def if_alive_def specials_def m Thread_put_def put_mutex_def)
    show "specials_ok s'" using parts h km by (auto simp: s' specials_ok_def if_alive_def specials_def m Thread_put_def put_mutex_def)
    show "waiting_ok s'" using parts h km by (auto simp: s' waiting_ok_def if_alive_def specials_def m Thread_put_def put_mutex_def)
    show "locks_ok s'" using parts h km by (fastforce simp: s' locks_ok_def if_alive_def specials_def m Thread_put_def put_mutex_def)
    show "\<And>u. in_call s' u \<Longrightarrow> call_ok s' u" by (rule calls)
    show "calls_distinct s'" using parts unfolding calls_distinct_def taken works by (simp add: s' m put_mutex_def)
    show "users_ok s'" using parts h km by (auto simp: s' users_ok_def if_alive_def specials_def m Thread_put_def put_mutex_def)
    show "handler_ok s'" using parts h km by (auto simp: s' handler_ok_def if_alive_def specials_def m Thread_put_def put_mutex_def)
    show "fresh_ok s'" using parts h km by (auto simp: s' fresh_ok_def if_alive_def specials_def m Thread_put_def put_mutex_def)
  qed
qed

lemma inv_lock_wait:
  assumes inv: "sys_inv s" and m: "m = sy_machine s"
    and t: "sy_in_lock s t = None" "if_alive m t (\<lambda>th. th_m_masked_from_scheduler th \<and> th_m_privileged th)" "t \<notin> specials m" "t < ma_next m" "\<not> in_call s t"
    and km: "km_m_holding_thread km = km_m_holding_thread (ma_mutex m mx)" "km_m_enabled km" "CircularQueue_inv (km_m_waiting_threads km)" "CircularQueue_items (km_m_waiting_threads km) = waiting m mx @ [t]"
    and s': "s' = s\<lparr>sy_machine := put_mutex mx km m, sy_in_lock := (sy_in_lock s)(t \<mapsto> mx)\<rparr>"
  shows "sys_inv s'"
proof -
  have works: "works_for (sy_machine s') = works_for m" by (simp add: s' works_for_def fun_eq_iff put_mutex_def)
  have taken: "taken_by s' = taken_by s" by (simp add: s' taken_by_def fun_eq_iff m put_mutex_def)
  have call: "in_call s' = in_call s" using works taken by (simp add: s' in_call_def fun_eq_iff m put_mutex_def)
  note parts = inv[unfolded sys_inv_def]
  have calls: "call_ok s' u" if "in_call s' u" for u
    using sys_inv_call[OF inv that[unfolded call]] t(5) that[unfolded call] by (auto simp: s' put_mutex_def call_ok_def if_alive_def specials_def m Thread_put_def)
  show ?thesis
  proof (rule sys_invI)
    show "queues_ok (sy_machine s')" using parts t km by (auto simp: s' queues_ok_def if_alive_def specials_def m Thread_put_def put_mutex_def)
    show "ready_ok (sy_machine s')" using parts by (auto simp: s' ready_ok_def if_alive_def specials_def m Thread_put_def put_mutex_def)
    show "specials_ok s'" using parts t(3) by (auto simp: s' specials_ok_def if_alive_def specials_def m Thread_put_def put_mutex_def)
    show "waiting_ok s'" using parts t(1,2) km by (auto simp: s' waiting_ok_def if_alive_def specials_def m Thread_put_def put_mutex_def)
    show "locks_ok s'" using parts km by (auto simp: s' locks_ok_def if_alive_def specials_def m Thread_put_def put_mutex_def)
    show "\<And>u. in_call s' u \<Longrightarrow> call_ok s' u" by (rule calls)
    show "calls_distinct s'" using parts unfolding calls_distinct_def taken works by (simp add: s' m put_mutex_def)
    show "users_ok s'" using parts t(2) by (auto simp: s' users_ok_def if_alive_def specials_def m Thread_put_def put_mutex_def)
    show "handler_ok s'" using parts by (auto simp: s' handler_ok_def if_alive_def specials_def m Thread_put_def put_mutex_def)
    show "fresh_ok s'" using parts t(4) by (auto simp: s' fresh_ok_def if_alive_def specials_def m Thread_put_def put_mutex_def)
  qed
qed

lemma inv_return:
  assumes inv: "sys_inv s" and m: "m = sy_machine s"
    and t: "sy_in_lock s t = Some mx" "\<And>my. t \<notin> set (waiting m my)"
    and s': "s' = s\<lparr>sy_in_lock := (sy_in_lock s)(t := None), sy_inside := (sy_inside s)(mx := t # sy_inside s mx)\<rparr>"
  shows "sys_inv s'"
proof -
  have works: "works_for (sy_machine s') = works_for m" by (simp add: s' m)
  have taken: "taken_by s' = taken_by s" by (simp add: s' taken_by_def fun_eq_iff)
  have call: "in_call s' = in_call s" using works taken by (simp add: s' in_call_def fun_eq_iff m)
  note parts = inv[unfolded sys_inv_def]
  have calls: "call_ok s' u" if "in_call s' u" for u
    using sys_inv_call[OF inv that[unfolded call]] t(1) by (auto simp: s' call_ok_def if_alive_def specials_def m Thread_put_def)
  show ?thesis
  proof (rule sys_invI)
    show "queues_ok (sy_machine s')" using parts t by (auto simp: s' queues_ok_def if_alive_def specials_def m Thread_put_def)
    show "ready_ok (sy_machine s')" using parts by (auto simp: s' ready_ok_def if_alive_def specials_def m Thread_put_def)
    show "specials_ok s'" using parts t(1) by (auto simp: s' specials_ok_def if_alive_def specials_def m Thread_put_def)
    show "waiting_ok s'" using parts t by (auto simp: s' waiting_ok_def if_alive_def specials_def m Thread_put_def)
    show "locks_ok s'" using parts t by (auto simp: s' locks_ok_def if_alive_def specials_def m Thread_put_def)
    show "\<And>u. in_call s' u \<Longrightarrow> call_ok s' u" by (rule calls)
    show "calls_distinct s'" using parts unfolding calls_distinct_def taken works by (simp add: s' m Thread_put_def)
    show "users_ok s'" using parts by (auto simp: s' users_ok_def if_alive_def specials_def m Thread_put_def)
    show "handler_ok s'" using parts by (auto simp: s' handler_ok_def if_alive_def specials_def m Thread_put_def)
    show "fresh_ok s'" using parts by (auto simp: s' fresh_ok_def if_alive_def specials_def m Thread_put_def)
  qed
qed

lemma inv_release:
  assumes inv: "sys_inv s" and m: "m = sy_machine s"
    and t: "sy_in_lock s t = None" "t \<in> set (sy_inside s mx)"
    and km: "km_m_holding_thread km = None" "km_m_waiting_threads km = km_m_waiting_threads (ma_mutex m mx)" "km_m_enabled km"
    and s': "s' = s\<lparr>sy_machine := put_mutex mx km m, sy_inside := (sy_inside s)(mx := removeAll t (sy_inside s mx))\<rparr>"
  shows "sys_inv s'"
proof -
  have works: "works_for (sy_machine s') = works_for m" by (simp add: s' works_for_def fun_eq_iff put_mutex_def)
  have taken: "taken_by s' = taken_by s" by (simp add: s' taken_by_def fun_eq_iff m put_mutex_def)
  have call: "in_call s' = in_call s" using works taken by (simp add: s' in_call_def fun_eq_iff m put_mutex_def)
  note parts = inv[unfolded sys_inv_def]
  have "holder m mx = Some t" using parts t(2) by (simp add: locks_ok_def m)
  then have l: "sy_in_lock s x = Some mx \<Longrightarrow> x \<in> set (waiting m mx)" "x \<in> set (sy_inside s mx) \<Longrightarrow> x = t" for x
    using parts t(1) by (force simp: locks_ok_def m)+
  have calls: "call_ok s' u" if "in_call s' u" for u
    using sys_inv_call[OF inv that[unfolded call]] by (auto simp: s' put_mutex_def call_ok_def if_alive_def specials_def m Thread_put_def)
  show ?thesis
  proof (rule sys_invI)
    show "queues_ok (sy_machine s')" using parts km by (auto simp: s' queues_ok_def if_alive_def specials_def m Thread_put_def put_mutex_def)
    show "ready_ok (sy_machine s')" using parts km by (auto simp: s' ready_ok_def if_alive_def specials_def m Thread_put_def put_mutex_def)
    show "specials_ok s'" using parts km by (auto simp: s' specials_ok_def if_alive_def specials_def m Thread_put_def put_mutex_def)
    show "waiting_ok s'" using parts km by (auto simp: s' waiting_ok_def if_alive_def specials_def m Thread_put_def put_mutex_def)
    show "locks_ok s'" using parts km l by (auto simp: s' locks_ok_def if_alive_def specials_def m Thread_put_def put_mutex_def)
    show "\<And>u. in_call s' u \<Longrightarrow> call_ok s' u" by (rule calls)
    show "calls_distinct s'" using parts unfolding calls_distinct_def taken works by (simp add: s' m put_mutex_def)
    show "users_ok s'" using parts km by (auto simp: s' users_ok_def if_alive_def specials_def m Thread_put_def put_mutex_def)
    show "handler_ok s'" using parts km by (auto simp: s' handler_ok_def if_alive_def specials_def m Thread_put_def put_mutex_def)
    show "fresh_ok s'" using parts km by (auto simp: s' fresh_ok_def if_alive_def specials_def m Thread_put_def put_mutex_def)
  qed
qed

lemma inv_handover:
  assumes inv: "sys_inv s" and m: "m = sy_machine s"
    and h: "holder m mx = None"
    and km: "km_m_holding_thread km = Some t" "CircularQueue_inv (km_m_waiting_threads km)" "waiting m mx = t # CircularQueue_items (km_m_waiting_threads km)" "km_m_enabled km"
    and s': "s' = s\<lparr>sy_machine := put_mutex mx km m\<rparr>"
  shows "sys_inv s'"
proof -
  have works: "works_for (sy_machine s') = works_for m" by (simp add: s' works_for_def fun_eq_iff put_mutex_def)
  have taken: "taken_by s' = taken_by s" by (simp add: s' taken_by_def fun_eq_iff m put_mutex_def)
  have call: "in_call s' = in_call s" using works taken by (simp add: s' in_call_def fun_eq_iff m put_mutex_def)
  note parts = inv[unfolded sys_inv_def]
  have w: "distinct (waiting m mx)" "if_alive m x th_m_masked_from_scheduler" "sy_in_lock s x = Some mx" if "x \<in> set (waiting m mx)" for x
    using parts that by (auto simp: waiting_ok_def m)
  have l: "sy_in_lock s x = Some mx \<Longrightarrow> x \<in> set (waiting m mx)" "x \<notin> set (sy_inside s mx)" for x
    using parts h by (force simp: locks_ok_def m)+
  have calls: "call_ok s' u" if "in_call s' u" for u
    using sys_inv_call[OF inv that[unfolded call]] by (auto simp: s' put_mutex_def call_ok_def if_alive_def specials_def m Thread_put_def)
  show ?thesis
  proof (rule sys_invI)
    show "queues_ok (sy_machine s')" using parts h km by (auto simp: s' queues_ok_def if_alive_def specials_def m Thread_put_def put_mutex_def)
    show "ready_ok (sy_machine s')" using parts h km by (auto simp: s' ready_ok_def if_alive_def specials_def m Thread_put_def put_mutex_def)
    show "specials_ok s'" using parts h km by (auto simp: s' specials_ok_def if_alive_def specials_def m Thread_put_def put_mutex_def)
    show "waiting_ok s'" using parts km(2-4) w[unfolded km(3)] by (auto simp: s' waiting_ok_def if_alive_def specials_def m Thread_put_def put_mutex_def)
    show "locks_ok s'" using parts km l[unfolded km(3)] by (auto simp: s' locks_ok_def if_alive_def specials_def m Thread_put_def put_mutex_def)
    show "\<And>u. in_call s' u \<Longrightarrow> call_ok s' u" by (rule calls)
    show "calls_distinct s'" using parts unfolding calls_distinct_def taken works by (simp add: s' m put_mutex_def)
    show "users_ok s'" using parts h km by (auto simp: s' users_ok_def if_alive_def specials_def m Thread_put_def put_mutex_def)
    show "handler_ok s'" using parts h km by (auto simp: s' handler_ok_def if_alive_def specials_def m Thread_put_def put_mutex_def)
    show "fresh_ok s'" using parts h km by (auto simp: s' fresh_ok_def if_alive_def specials_def m Thread_put_def put_mutex_def)
  qed
qed

lemma inv_capture:
  assumes inv: "sys_inv s" and m: "m = sy_machine s"
    and t: "sy_in_lock s t = None" "if_alive m t (\<lambda>th. th_m_masked_from_scheduler th \<and> \<not> th_m_privileged th)" "t \<notin> set (ready m)" "sc_m_active_thread m \<noteq> Some t"
    and n: "t \<notin> specials m" "t < ma_next m" "\<not> in_call s t"
    and q: "CircularQueue_inv q" "CircularQueue_items q = callers m @ [t]"
    and s': "s' = s\<lparr>sy_machine := m\<lparr>sh_m_waiting_threads := q\<rparr>\<rparr>"
  shows "sys_inv s'"
proof -
  have works: "works_for (sy_machine s') = works_for m" by (simp add: s' works_for_def fun_eq_iff)
  have taken: "taken_by s' = taken_by s" by (simp add: s' taken_by_def fun_eq_iff m)
  have call: "in_call s' u \<longleftrightarrow> in_call s u \<or> u = t" for u using works taken q(2) by (auto simp: s' in_call_def m)
  have ct: "call_ok s' t" using t n by (simp add: s' call_ok_def specials_def if_alive_def m)
  note parts = inv[unfolded sys_inv_def]
  have calls: "call_ok s' u" if "in_call s' u" for u
    using that[unfolded call] ct sys_inv_call[OF inv, of u] by (auto simp: s' call_ok_def if_alive_def specials_def m Thread_put_def)
  show ?thesis
  proof (rule sys_invI)
    show "queues_ok (sy_machine s')" using parts q by (auto simp: s' queues_ok_def if_alive_def specials_def m Thread_put_def)
    show "ready_ok (sy_machine s')" using parts by (auto simp: s' ready_ok_def if_alive_def specials_def m Thread_put_def)
    show "specials_ok s'" using parts by (auto simp: s' specials_ok_def if_alive_def specials_def m Thread_put_def)
    show "waiting_ok s'" using parts by (auto simp: s' waiting_ok_def if_alive_def specials_def m Thread_put_def)
    show "locks_ok s'" using parts by (auto simp: s' locks_ok_def if_alive_def specials_def m Thread_put_def)
    show "\<And>u. in_call s' u \<Longrightarrow> call_ok s' u" by (rule calls)
    show "calls_distinct s'" using parts n(3) q(2) works taken by (auto simp: calls_distinct_def s' m in_call_def)
    show "users_ok s'" using parts by (auto simp: s' users_ok_def if_alive_def specials_def m Thread_put_def)
    show "handler_ok s'" using parts by (auto simp: s' handler_ok_def if_alive_def specials_def m Thread_put_def)
    show "fresh_ok s'" using parts by (auto simp: s' fresh_ok_def if_alive_def specials_def m Thread_put_def)
  qed
qed

lemma inv_take:
  assumes inv: "sys_inv s" and m: "m = sy_machine s"
    and h: "sh_m_thread m = Some h" "sy_local s h = None"
    and q: "CircularQueue_inv q" "callers m = u # CircularQueue_items q"
    and s': "s' = s\<lparr>sy_machine := m\<lparr>sh_m_waiting_threads := q\<rparr>, sy_local := (sy_local s)(h \<mapsto> u)\<rparr>"
  shows "sys_inv s'"
proof -
  have works: "works_for (sy_machine s') = works_for m" by (simp add: s' works_for_def fun_eq_iff)
  have taken: "taken_by s' g x \<longleftrightarrow> g = h \<and> x = u" "\<not> taken_by s g x" for g x using h by (auto simp: s' taken_by_def m)
  have call: "in_call s' = in_call s" using works taken q(2) by (auto simp: in_call_def fun_eq_iff m) (auto simp: s' m)
  note parts = inv[unfolded sys_inv_def]
  have calls: "call_ok s' u" if "in_call s' u" for u
    using sys_inv_call[OF inv that[unfolded call]] by (auto simp: s' call_ok_def if_alive_def specials_def m Thread_put_def)
  show ?thesis
  proof (rule sys_invI)
    show "queues_ok (sy_machine s')" using parts h q by (auto simp: s' queues_ok_def if_alive_def specials_def m Thread_put_def)
    show "ready_ok (sy_machine s')" using parts h q by (auto simp: s' ready_ok_def if_alive_def specials_def m Thread_put_def)
    show "specials_ok s'" using parts h q by (auto simp: s' specials_ok_def if_alive_def specials_def m Thread_put_def)
    show "waiting_ok s'" using parts h q by (auto simp: s' waiting_ok_def if_alive_def specials_def m Thread_put_def)
    show "locks_ok s'" using parts h q by (auto simp: s' locks_ok_def if_alive_def specials_def m Thread_put_def)
    show "\<And>u. in_call s' u \<Longrightarrow> call_ok s' u" by (rule calls)
    show "calls_distinct s'" using parts works taken q by (auto simp: calls_distinct_def s' m)
    show "users_ok s'" using parts h q by (auto simp: s' users_ok_def if_alive_def specials_def m Thread_put_def)
    show "handler_ok s'" using parts h q by (auto simp: s' handler_ok_def if_alive_def specials_def m Thread_put_def)
    show "fresh_ok s'" using parts parts[unfolded handler_ok_def] h q by (auto simp: s' fresh_ok_def if_alive_def specials_def m Thread_put_def)
  qed
qed

lemma inv_worker_clear:
  assumes inv: "sys_inv s" and m: "m = sy_machine s"
    and w: "ma_threads m w = Some th" "th_callback th = Worker u ctx"
    and s': "s' = s\<lparr>sy_machine := Thread_put w (th\<lparr>th_callback := Other_Code\<rparr>) m\<rparr>"
  shows "sys_inv s'"
proof -
  have works: "works_for (sy_machine s') x y \<longleftrightarrow> works_for m x y \<and> x \<noteq> w" for x y
    using w by (auto simp: s' works_for_def Thread_put_def)
  have taken: "taken_by s' = taken_by s" by (simp add: s' taken_by_def fun_eq_iff m Thread_put_def)
  have call: "in_call s' x \<Longrightarrow> in_call s x" for x using works taken by (auto simp: s' in_call_def m Thread_put_def)
  note parts = inv[unfolded sys_inv_def]
  have "if_alive m w (\<lambda>th. th_callback th = Handler_Loop \<longleftrightarrow> sh_m_thread m = Some w)" using parts by (simp add: handler_ok_def m)
  then have hw: "sh_m_thread m \<noteq> Some w" using w by (simp add: if_alive_def)
  have calls: "call_ok s' u" if "in_call s' u" for u
    using sys_inv_call[OF inv call[OF that]] if_alive_this[OF w(1)]
    by (cases "u = w") (simp_all add: s' call_ok_def if_alive_put m, simp_all add: Thread_put_def specials_def)
  show ?thesis
  proof (rule sys_invI)
    show "queues_ok (sy_machine s')" using parts w by (auto simp: s' queues_ok_def if_alive_def specials_def m Thread_put_def)
    show "ready_ok (sy_machine s')" using parts w by (auto simp: s' ready_ok_def if_alive_def specials_def m Thread_put_def)
    show "specials_ok s'" using parts if_alive_this[OF w(1)] w(2) by (auto simp: s' specials_ok_def if_alive_put specials_def m) (auto simp: Thread_put_def)
    show "waiting_ok s'" using parts w by (auto simp: s' waiting_ok_def if_alive_def specials_def m Thread_put_def)
    show "locks_ok s'" using parts w by (auto simp: s' locks_ok_def if_alive_def specials_def m Thread_put_def)
    show "\<And>u. in_call s' u \<Longrightarrow> call_ok s' u" by (rule calls)
    show "calls_distinct s'" using parts unfolding calls_distinct_def works taken by (auto simp: s' m Thread_put_def)
    show "users_ok s'" using parts w by (auto simp: s' users_ok_def if_alive_def specials_def m Thread_put_def)
    show "handler_ok s'" using parts hw if_alive_this[OF w(1)] w(2) by (auto simp: s' handler_ok_def if_alive_put m) (auto simp: Thread_put_def)
    show "fresh_ok s'" using parts w by (auto simp: s' fresh_ok_def if_alive_def specials_def m Thread_put_def)
  qed
qed

lemma inv_local:
  assumes inv: "sys_inv s" and m: "m = sy_machine s"
    and t: "sh_m_thread m \<noteq> Some t" "t < ma_next m"
    and s': "s' = s\<lparr>sy_local := (sy_local s)(t := x)\<rparr>"
  shows "sys_inv s'"
proof -
  have works: "works_for (sy_machine s') = works_for m" by (simp add: s' m)
  have taken: "taken_by s' = taken_by s" using t by (auto simp: s' taken_by_def fun_eq_iff m)
  have call: "in_call s' = in_call s" using works taken by (simp add: s' in_call_def fun_eq_iff m Thread_put_def)
  note parts = inv[unfolded sys_inv_def]
  have calls: "call_ok s' u" if "in_call s' u" for u
    using sys_inv_call[OF inv that[unfolded call]] by (auto simp: s' call_ok_def if_alive_def specials_def m Thread_put_def)
  show ?thesis
  proof (rule sys_invI)
    show "queues_ok (sy_machine s')" using parts by (auto simp: s' queues_ok_def if_alive_def specials_def m Thread_put_def)
    show "ready_ok (sy_machine s')" using parts by (auto simp: s' ready_ok_def if_alive_def specials_def m Thread_put_def)
    show "specials_ok s'" using parts by (auto simp: s' specials_ok_def if_alive_def specials_def m Thread_put_def)
    show "waiting_ok s'" using parts by (auto simp: s' waiting_ok_def if_alive_def specials_def m Thread_put_def)
    show "locks_ok s'" using parts by (auto simp: s' locks_ok_def if_alive_def specials_def m Thread_put_def)
    show "\<And>u. in_call s' u \<Longrightarrow> call_ok s' u" by (rule calls)
    show "calls_distinct s'" using parts unfolding calls_distinct_def taken works by (simp add: s' m Thread_put_def)
    show "users_ok s'" using parts by (auto simp: s' users_ok_def if_alive_def specials_def m Thread_put_def)
    show "handler_ok s'" using parts by (auto simp: s' handler_ok_def if_alive_def specials_def m Thread_put_def)
    show "fresh_ok s'" using parts t by (auto simp: s' fresh_ok_def if_alive_def specials_def m Thread_put_def)
  qed
qed

lemma inv_unprivileged:
  assumes inv: "sys_inv s" and m: "m = sy_machine s"
    and t: "ma_threads m t = Some th" "t \<notin> specials m" "sh_m_thread m \<noteq> Some t" "sy_in_lock s t = None"
    and c: "\<not> in_call s t"
    and s': "s' = s\<lparr>sy_machine := Thread_put t (th\<lparr>th_m_privileged := False\<rparr>) m\<rparr>"
  shows "sys_inv s'"
proof -
  have works: "works_for (sy_machine s') = works_for m" using t by (auto simp: s' works_for_def fun_eq_iff Thread_put_def)
  have taken: "taken_by s' = taken_by s" by (simp add: s' taken_by_def fun_eq_iff m Thread_put_def)
  have call: "in_call s' = in_call s" using works taken by (simp add: s' in_call_def fun_eq_iff m Thread_put_def)
  note parts = inv[unfolded sys_inv_def]
  have calls: "call_ok s' u" if "in_call s' u" for u
    using sys_inv_call[OF inv that[unfolded call]] c that[unfolded call] by (auto simp: s' call_ok_def if_alive_def specials_def m Thread_put_def)
  show ?thesis
  proof (rule sys_invI)
    show "queues_ok (sy_machine s')" using parts t c by (auto simp: s' queues_ok_def if_alive_def specials_def m Thread_put_def)
    show "ready_ok (sy_machine s')" using parts t(1) by (auto simp: s' ready_ok_def if_alive_def specials_def m Thread_put_def)
    show "specials_ok s'" using parts t(2) by (auto simp: s' specials_ok_def if_alive_def specials_def m Thread_put_def)
    show "waiting_ok s'" using parts t(1) by (auto simp: s' waiting_ok_def if_alive_def specials_def m Thread_put_def)
    show "locks_ok s'" using parts t c by (auto simp: s' locks_ok_def if_alive_def specials_def m Thread_put_def)
    show "\<And>u. in_call s' u \<Longrightarrow> call_ok s' u" by (rule calls)
    show "calls_distinct s'" using parts unfolding calls_distinct_def taken works by (simp add: s' m Thread_put_def)
    show "users_ok s'" using parts t c by (auto simp: s' users_ok_def if_alive_def specials_def m Thread_put_def)
    show "handler_ok s'" using parts t(1,3) by (auto simp: s' handler_ok_def if_alive_def specials_def m Thread_put_def)
    show "fresh_ok s'" using parts t c by (auto simp: s' fresh_ok_def if_alive_def specials_def m Thread_put_def)
  qed
qed

end
