(* ===== verification/Kernel_Exclusion.thy ===== *)
theory Kernel_Exclusion
  imports Kernel_Changes
begin

section \<open>Mutual exclusion in the kernel\<close>

subsection \<open>The invariant along the operations of the scheduler\<close>

abbreviation okm :: "System \<Rightarrow> Machine \<Rightarrow> bool" where
  "okm s m \<equiv> sys_inv (s\<lparr>sy_machine := m\<rparr>)"

lemma okm_calm: "okm s m \<Longrightarrow> calm m m' \<Longrightarrow> okm s m'"
  using calm_inv[of "s\<lparr>sy_machine := m\<rparr>" m'] by simp

lemma calm_queued: "calm m m' \<Longrightarrow> calm (m\<lparr>sc_m_queued_threads := q\<rparr>) (m'\<lparr>sc_m_queued_threads := q\<rparr>)"
  by (simp add: calm_def)

lemma calm_put_any: "calm m m' \<Longrightarrow> calm (put_mutex mx km m) (put_mutex mx km m')"
  by (simp add: calm_def put_mutex_def)

lemma calm_dangling: "CircularQueue_inv q \<Longrightarrow> calm m (m\<lparr>sc_m_dangling_threads := q\<rparr>)"
  by (simp add: calm_def)

lemma calm_active: "calm m m' \<Longrightarrow> sc_m_active_thread m' = sc_m_active_thread m"
  by (simp add: calm_def)

lemma okm_parts:
  assumes "okm s m"
  shows "CircularQueue_inv (sc_m_queued_threads m)" "CircularQueue_inv (sc_m_dangling_threads m)"
    "CircularQueue_inv (sh_m_waiting_threads m)" "sc_m_initialized m"
    "CircularQueue_inv (km_m_waiting_threads (ma_mutex m mx))" "km_m_enabled (ma_mutex m mx)"
    "t \<in> set (ready m) \<Longrightarrow> if_alive m t (\<lambda>th. \<not> th_m_masked_from_scheduler th)"
    "t \<in> specials m \<Longrightarrow> if_alive m t (\<lambda>th. \<not> th_m_masked_from_scheduler th \<and> th_m_is_default_thread th)"
  using assms by (auto simp: sys_inv_def queues_ok_def ready_ok_def specials_ok_def if_alive_def)

lemma put_away_ok:
  assumes ok: "okm s m" and r: "schedule_put_away m = Inr m'"
  shows "okm s m' \<and> sc_m_active_thread m' = None"
proof (cases "sc_m_active_thread m")
  case None
  then show ?thesis using r ok by (simp add: schedule_put_away_def)
next
  case (Some t)
  then obtain th where th: "ma_threads m t = Some th" using r
    by (auto simp: schedule_put_away_def Thread_get_def outcome_simps split: option.splits)
  have gone: ?thesis if "calm m m1" and "m' = m1\<lparr>sc_m_active_thread := None\<rparr>" for m1
    using inv_deactivate[OF okm_calm[OF ok that(1)] refl refl] that(2) by simp
  consider (unref) m1 where "Thread_unref t m = Inr m1" "m' = m1\<lparr>sc_m_active_thread := None\<rparr>"
    | (dangle) x q where "CircularQueue_enqueue t (sc_m_dangling_threads m) = Inr (x, q)"
        "m' = m\<lparr>sc_m_dangling_threads := q, sc_m_active_thread := None\<rparr>"
    | (queue) x q where "\<not> th_m_masked_from_scheduler th" "\<not> th_m_is_default_thread th"
        "CircularQueue_enqueue t (sc_m_queued_threads m) = Inr (x, q)"
        "m' = m\<lparr>sc_m_queued_threads := q, sc_m_active_thread := None\<rparr>"
    using r Some th by (auto simp: schedule_put_away_def Thread_get_def outcome_simps split: if_splits)
  then show ?thesis
  proof cases
    case unref
    then show ?thesis using gone[OF Thread_unref_calm[OF unref(1)] unref(2)] by blast
  next
    case dangle
    then show ?thesis using gone[OF calm_dangling[OF cq.enqD(3)[OF okm_parts(2)[OF ok] dangle(1)]] dangle(2)] by blast
  next
    case queue
    note q = cq.enqD[OF okm_parts(1)[OF ok] queue(3)]
    have "if_alive m t (\<lambda>th. \<not> th_m_masked_from_scheduler th)" "t \<notin> specials m"
      using queue(1,2) th okm_parts(8)[OF ok] by (auto simp: if_alive_def)
    then have "okm s m'" using inv_put_away[of "s\<lparr>sy_machine := m\<rparr>" m t q, OF ok _ Some _ _ q(3,4) refl] queue(4) by simp
    then show ?thesis using queue(4) by simp
  qed
qed

lemma choose_default_ok:
  assumes "choose_default_thread m = Inr (d, m')"
  shows "calm m m' \<and> d \<in> specials m"
  using assms by (auto simp: choose_default_thread_def deref_def Thread_get_def outcome_simps specials_def
      split: option.splits if_splits intro: calm_ops)

lemma choose_ok:
  assumes ok: "okm s m" and r: "schedule_choose m = Inr (t, m')"
  shows "okm s m' \<and> sc_m_active_thread m' = Some t \<and> if_alive m' t (\<lambda>th. \<not> th_m_masked_from_scheduler th)"
proof -
  consider (special) m1 where "choose_default_thread m = Inr (t, m1)" "m' = m1\<lparr>sc_m_active_thread := Some t\<rparr>"
    | (queue) q where "CircularQueue_dequeue (sc_m_queued_threads m) = Inr (t, q)"
        "m' = m\<lparr>sc_m_queued_threads := q, sc_m_active_thread := Some t\<rparr>"
    using r by (auto simp: schedule_choose_def outcome_simps split: if_splits)
  moreover have none: "sc_m_active_thread m = None" using r by (simp add: schedule_choose_def outcome_simps)
  ultimately show ?thesis
  proof cases
    case special
    note c = choose_default_ok[OF special(1), THEN conjunct1] choose_default_ok[OF special(1), THEN conjunct2]
    have ok1: "okm s m1" by (rule okm_calm[OF ok c(1)])
    have sp: "t \<in> specials m1" using c by (simp add: calm_def specials_def)
    have "okm s m'" using inv_choose_special[OF ok1 refl _ _ refl] none sp special(2) calm_active[OF c(1)] by simp
    moreover have "if_alive m1 t (\<lambda>th. \<not> th_m_masked_from_scheduler th)" using okm_parts(8)[OF ok1 sp] by (simp add: if_alive_def)
    ultimately show ?thesis using special(2) by (simp add: if_alive_def)
  next
    case queue
    note d = cq.deqD[OF okm_parts(1)[OF ok] queue(1)]
    have "okm s m'" using inv_choose_ready[OF ok refl _ d(2) _ refl] none d(1) queue(2) by simp
    moreover have "if_alive m t (\<lambda>th. \<not> th_m_masked_from_scheduler th)" by (rule okm_parts(7)[OF ok]) (simp add: d(1))
    ultimately show ?thesis using queue(2) by (simp add: if_alive_def)
  qed
qed

lemma schedule_ok:
  assumes ok: "okm s m" and r: "Scheduler_schedule m = Inr (t, m')"
  shows "okm s m' \<and> sc_m_active_thread m' = Some t \<and> if_alive m' t (\<lambda>th. \<not> th_m_masked_from_scheduler th)"
proof -
  obtain m1 m2 where m: "schedule_put_away m = Inr m1" "schedule_choose m1 = Inr (t, m2)" "schedule_dispatch t m2 = Inr m'"
    using r by (auto simp: Scheduler_schedule_def outcome_simps)
  have 2: "okm s m2 \<and> sc_m_active_thread m2 = Some t \<and> if_alive m2 t (\<lambda>th. \<not> th_m_masked_from_scheduler th)"
    using choose_ok[OF _ m(2)] put_away_ok[OF ok m(1)] by blast
  have c: "calm m2 m'" by (rule schedule_dispatch_calm[OF m(3)])
  show ?thesis using okm_calm[OF _ c] calm_active[OF c] calm_if_alive[OF c] 2 by (auto simp: calm_thread_def)
qed

lemma unstash_after:
  assumes "okm s m \<and> sc_m_active_thread m = Some t \<and> if_alive m t (\<lambda>th. \<not> th_m_masked_from_scheduler th)"
    and "Thread_unstash_context t m = Inr (ctx, m')"
  shows "okm s m' \<and> sc_m_active_thread m' = Some t \<and> if_alive m' t (\<lambda>th. \<not> th_m_masked_from_scheduler th)"
proof -
  note c = Thread_unstash_context_calm[OF assms(2)]
  show ?thesis using assms(1) okm_calm[OF _ c] calm_active[OF c] calm_if_alive[OF c] by (auto simp: calm_thread_def)
qed

text \<open>What holds when an exception handler has returned.\<close>

definition resumed :: "System \<Rightarrow> Machine \<Rightarrow> bool" where
  "resumed s m \<longleftrightarrow> okm s m \<and> (\<exists>t. sc_m_active_thread m = Some t \<and> if_alive m t (\<lambda>th. \<not> th_m_masked_from_scheduler th))"

lemma okm_cpu [simp]:
  "okm s (m\<lparr>cp_ipsr := a\<rparr>) = okm s m" "okm s (m\<lparr>cp_ipsr := a, cp_pendsvset := b\<rparr>) = okm s m"
  "okm s (m\<lparr>cp_primask := a\<rparr>) = okm s m" "okm s (m\<lparr>cp_pendsvset := b\<rparr>) = okm s m"
  by (rule iffI; erule okm_calm; simp)+

lemma isr_pendsv_ok:
  assumes ok: "okm s m" and r: "isr_pendsv ctx m = Inr m'"
  shows "resumed s m'"
proof -
  obtain a m1 t m2 ctx' m3 where m: "Thread_stash_context a ctx (m\<lparr>cp_ipsr := 14, cp_pendsvset := False\<rparr>) = Inr m1"
    "Scheduler_schedule m1 = Inr (t, m2)" "Thread_unstash_context t m2 = Inr (ctx', m3)" "m' = m3\<lparr>cp_ipsr := 0\<rparr>"
    using r by (auto simp: isr_pendsv_def scheduler_next_def outcome_simps)
  have "okm s m1" using okm_calm[OF _ Thread_stash_context_calm[OF m(1)]] ok by simp
  from unstash_after[OF schedule_ok[OF this m(2)] m(3)] show ?thesis using m(4) by (simp add: resumed_def if_alive_def)
qed

subsection \<open>Waking a thread\<close>

lemma wakeup_ok:
  assumes ok: "okm s m" and r: "Thread_wakeup t m = Inr m'"
    and w: "\<And>mx. t \<notin> set (waiting m mx)" and c: "\<not> in_call (s\<lparr>sy_machine := m\<rparr>) t"
  shows "okm s m'"
proof -
  obtain th where a: "sc_m_active_thread m \<noteq> Some t" and th: "ma_threads m t = Some th"
    using r by (auto simp: Thread_wakeup_def get_active_thread_if_avaliable_def Thread_get_def outcome_simps split: option.splits)
  show ?thesis
  proof (cases "th_m_masked_from_scheduler th")
    case False
    then show ?thesis using r ok th
      by (auto simp: Thread_wakeup_def get_active_thread_if_avaliable_def Thread_get_def outcome_simps)
  next
    case True
    let ?m = "Thread_put t (th\<lparr>th_m_masked_from_scheduler := False\<rparr>) m"
    obtain m1 x q where m: "Thread_ref t ?m = Inr m1" "CircularQueue_enqueue t (sc_m_queued_threads m1) = Inr (x, q)"
      "m' = m1\<lparr>sc_m_queued_threads := q\<rparr>"
      using r th True by (auto simp: Thread_wakeup_def get_active_thread_if_avaliable_def Thread_get_def outcome_simps
          Thread_set_masked_from_scheduler_def Scheduler_add_thread_def)
    have k: "calm ?m m1" by (rule Thread_ref_calm[OF m(1)])
    then have "sc_m_queued_threads m1 = sc_m_queued_threads m" by (simp add: calm_def Thread_put_def)
    note q = cq.enqD[OF okm_parts(1)[OF ok] m(2)[unfolded this]]
    have nr: "t \<notin> set (ready m)" "t \<notin> specials m" using okm_parts(7,8)[OF ok] th True by (auto simp: if_alive_def)
    have "okm s (?m\<lparr>sc_m_queued_threads := q\<rparr>)"
      using inv_wake[of "s\<lparr>sy_machine := m\<rparr>" m t th q, OF ok _ th a nr c w q(3,4) refl] by simp
    then show ?thesis using okm_calm[OF _ calm_queued[OF k]] m(3) by simp
  qed
qed

subsection \<open>Mutexes\<close>

lemma masked_interruptsD:
  assumes "masked_interrupts b m = Inr (r, m')" and "cp_primask m = 0"
  obtains m2 where "b (m\<lparr>cp_primask := 1\<rparr>) = Inr (r, m2)" "m' = m2\<lparr>cp_primask := 0\<rparr>"
  using assms by (auto simp: masked_interrupts_def MaskedInterruptGuard_new_def disable_interrupts_def are_interrupts_enabled_def
      MaskedInterruptGuard_destroy_def enable_interrupts_def outcome_simps)

lemma System_order:
  "s\<lparr>sy_machine := x, sy_inside := y\<rparr> = s\<lparr>sy_inside := y, sy_machine := x\<rparr>"
  "s\<lparr>sy_machine := x, sy_in_lock := l\<rparr> = s\<lparr>sy_in_lock := l, sy_machine := x\<rparr>"
  "s\<lparr>sy_machine := x, sy_local := c\<rparr> = s\<lparr>sy_local := c, sy_machine := x\<rparr>"
  by simp_all

lemma waiting_fresh:
  assumes "okm s m" and "sy_in_lock s t = None"
  shows "t \<notin> set (waiting m mx)"
  using assms by (auto simp: sys_inv_def waiting_ok_def)

lemma in_call_unlocked: "okm s m \<Longrightarrow> in_call (s\<lparr>sy_machine := m\<rparr>) t \<Longrightarrow> sy_in_lock s t = None"
  using sys_inv_call[of "s\<lparr>sy_machine := m\<rparr>" t] by (simp add: call_ok_def)

lemma handed_over:
  assumes ok: "okm s m" and w: "waiting m mx = t # ts"
  shows "sy_in_lock s t = Some mx" "t \<notin> set ts" "my \<noteq> mx \<Longrightarrow> t \<notin> set (waiting m my)"
    "\<not> in_call (s\<lparr>sy_machine := m\<rparr>) t"
proof -
  have W: "distinct (waiting m my) \<and> (\<forall>t\<in>set (waiting m my). sy_in_lock s t = Some my)" for my
    using ok by (auto simp: sys_inv_def waiting_ok_def)
  then show l: "sy_in_lock s t = Some mx" using W[of mx] unfolding w by simp
  show "t \<notin> set ts" using W[of mx] unfolding w by simp
  show "my \<noteq> mx \<Longrightarrow> t \<notin> set (waiting m my)" using W[of my] l by auto
  show "\<not> in_call (s\<lparr>sy_machine := m\<rparr>) t" using in_call_unlocked[OF ok] l by fastforce
qed

lemma handover_ok:
  assumes ok: "okm s m" and none: "holder m mx = None" and d: "CircularQueue_dequeue (km_m_waiting_threads km) = Inr (t, q)"
    and km: "km = ma_mutex m mx" and ref: "Thread_ref t m = Inr m1"
    and w: "Thread_wakeup t (put_mutex mx (km\<lparr>km_m_waiting_threads := q, km_m_holding_thread := Some t\<rparr>) m1) = Inr m'"
  shows "okm s m'"
proof -
  let ?m = "put_mutex mx (km\<lparr>km_m_waiting_threads := q, km_m_holding_thread := Some t\<rparr>) m1"
  have c: "calm m m1" by (rule Thread_ref_calm[OF ref])
  have ok1: "okm s m1" by (rule okm_calm[OF ok c])
  have same: "ma_mutex m1 = ma_mutex m" using c by (simp add: calm_def)
  note q = cq.deqD[OF okm_parts(5)[OF ok] d[unfolded km]]
  have wt: "waiting m1 mx = t # CircularQueue_items q" using q(1) same by simp
  note t = handed_over[OF ok1 wt]
  have ok2: "okm s ?m"
    using inv_handover[of "s\<lparr>sy_machine := m1\<rparr>" m1 mx "km\<lparr>km_m_waiting_threads := q, km_m_holding_thread := Some t\<rparr>" t, OF ok1 _ _ _ _ _ _ refl]
      none same q(2) wt okm_parts(6)[OF ok1] km by simp
  show ?thesis
  proof (rule wakeup_ok[OF ok2 w])
    show "t \<notin> set (waiting ?m my)" for my using t(2,3) by (simp add: put_mutex_def)
    show "\<not> in_call (s\<lparr>sy_machine := ?m\<rparr>) t" using in_call_unlocked[OF ok2] t(1) by fastforce
  qed
qed

lemma unlock_ok:
  assumes ok: "sys_inv s" and p: "cp_primask (sy_machine s) = 0" and t: "t \<in> set (sy_inside s mx)" "sy_in_lock s t = None"
    and r: "KernelMutex_unlock mx (sy_machine s) = Inr m'"
  shows "okm (s\<lparr>sy_inside := (sy_inside s)(mx := removeAll t (sy_inside s mx))\<rparr>) m'"
proof -
  let ?m = "sy_machine s" and ?s = "s\<lparr>sy_inside := (sy_inside s)(mx := removeAll t (sy_inside s mx))\<rparr>"
  have okm: "okm s ?m" using ok by simp
  obtain m2 where b: "bindE (unref_pointer (holder (?m\<lparr>cp_primask := 1\<rparr>) mx) (?m\<lparr>cp_primask := 1\<rparr>)) (\<lambda>m.
            let km = (ma_mutex m mx)\<lparr>km_m_holding_thread := None\<rparr>; m = put_mutex mx km m in
            if CircularQueue_size (km_m_waiting_threads km) > 0
            then bindE (CircularQueue_dequeue (km_m_waiting_threads km)) (\<lambda>(next_thread, q).
                 checkE (km_m_holding_thread km = None) (FIXME_ASSERT ''m_holding_thread.is_null()'')
                   (bindE (Thread_ref next_thread m) (\<lambda>m.
                    bindE (Thread_wakeup next_thread
                      (put_mutex mx (km\<lparr>km_m_waiting_threads := q, km_m_holding_thread := Some next_thread\<rparr>) m)) (\<lambda>m.
                    bindE (Thread_unref next_thread m) (\<lambda>m. Inr ((), m))))))
            else Inr ((), m)) = Inr ((), m2)" and m': "m' = m2\<lparr>cp_primask := 0\<rparr>"
    using r okm_parts(4,6)[OF okm] masked_interruptsD[OF _ p]
    unfolding KernelMutex_unlock_def by (auto simp: outcome_simps elim!: masked_interruptsD[OF _ p])
  then obtain m1 where m1: "unref_pointer (holder (?m\<lparr>cp_primask := 1\<rparr>) mx) (?m\<lparr>cp_primask := 1\<rparr>) = Inr m1"
    by (auto simp: outcome_simps)
  let ?km = "(ma_mutex m1 mx)\<lparr>km_m_holding_thread := None\<rparr>" and ?m2 = "put_mutex mx ((ma_mutex m1 mx)\<lparr>km_m_holding_thread := None\<rparr>) m1"
  have ok1: "okm s m1" using okm_calm[OF okm, of m1] unref_pointer_calm[OF m1] by simp
  have ok2: "okm ?s ?m2"
    using inv_release[of "s\<lparr>sy_machine := m1\<rparr>" m1 t mx ?km, OF ok1 _ _ _ _ _ _ refl] t okm_parts(6)[OF ok1] by (simp add: System_order)
  have km2: "?km = ma_mutex ?m2 mx" by (simp add: put_mutex_def)
  show ?thesis
  proof (cases "CircularQueue_size (km_m_waiting_threads ?km) > 0")
    case False
    then show ?thesis using b m1 m' ok2 okm_cpu(3)[of 0 ?m2 ?s] by (simp add: Let_def)
  next
    case True
    then obtain u q m3 m4 m5 where d: "CircularQueue_dequeue (km_m_waiting_threads ?km) = Inr (u, q)" "Thread_ref u ?m2 = Inr m3"
      "Thread_wakeup u (put_mutex mx (?km\<lparr>km_m_waiting_threads := q, km_m_holding_thread := Some u\<rparr>) m3) = Inr m4"
      "Thread_unref u m4 = Inr m5" "m2 = m5"
      using b m1 by (auto simp: Let_def outcome_simps)
    have "okm ?s m4" using handover_ok[OF ok2 _ d(1) km2 d(2,3)] by (simp add: put_mutex_def)
    from okm_calm[OF this Thread_unref_calm[OF d(4)]] show ?thesis using m' d(5) okm_cpu(3)[of 0 m5 ?s] by simp
  qed
qed

lemma okm_order:
  "sys_inv (s\<lparr>sy_machine := x, sy_inside := y\<rparr>) = okm (s\<lparr>sy_inside := y\<rparr>) x"
  "sys_inv (s\<lparr>sy_machine := x, sy_in_lock := l\<rparr>) = okm (s\<lparr>sy_in_lock := l\<rparr>) x"
  "sys_inv (s\<lparr>sy_machine := x, sy_local := c\<rparr>) = okm (s\<lparr>sy_local := c\<rparr>) x"
  by (simp_all add: System_order)

lemma active_facts:
  assumes ok: "okm s m" and a: "sc_m_active_thread m = Some t"
  shows "t \<notin> set (ready m)" "\<not> in_call (s\<lparr>sy_machine := m\<rparr>) t" "t < ma_next m"
proof -
  show "t \<notin> set (ready m)" using ok a by (auto simp: sys_inv_def ready_ok_def)
  show "\<not> in_call (s\<lparr>sy_machine := m\<rparr>) t" using sys_inv_call[OF ok] a by (auto simp: call_ok_def)
  show "t < ma_next m" using ok a by (auto simp: sys_inv_def fresh_ok_def not_le[symmetric])
qed

lemma mask_ok:
  assumes ok: "okm s m" and a: "t \<notin> set (ready m)" and sp: "t \<notin> specials m"
    and r: "Thread_set_masked_from_scheduler t True m = Inr m'"
  shows "okm s m'" and "\<exists>th. ma_threads m t = Some th \<and> ma_threads m' t = Some (th\<lparr>th_m_masked_from_scheduler := True\<rparr>)"
proof -
  obtain th where th: "ma_threads m t = Some th" "m' = Thread_put t (th\<lparr>th_m_masked_from_scheduler := True\<rparr>) m"
    using r by (auto simp: Thread_set_masked_from_scheduler_def Thread_get_def outcome_simps split: option.splits)
  show "okm s m'" using inv_mask[of "s\<lparr>sy_machine := m\<rparr>" m t th, OF ok _ a th(1) sp refl] th(2) by simp
  show "\<exists>th. ma_threads m t = Some th \<and> ma_threads m' t = Some (th\<lparr>th_m_masked_from_scheduler := True\<rparr>)"
    using th by (simp add: Thread_put_def)
qed

text \<open>The two ways through \<^verbatim>\<open>lock\<close>.\<close>

lemma KernelMutex_lock_cases:
  assumes r: "KernelMutex_lock mx m = Inr m'" and e: "km_m_enabled (ma_mutex m mx)" "sc_m_initialized m" "cp_primask m = 0"
    and a: "sc_m_active_thread m = Some t"
  obtains (free) m1 where "holder m mx = None" "Thread_ref t (m\<lparr>cp_primask := 1\<rparr>) = Inr m1"
      "m' = (put_mutex mx ((ma_mutex m mx)\<lparr>km_m_holding_thread := Some t\<rparr>) m1)\<lparr>cp_primask := 0\<rparr>"
    | (held) m1 m2 x q where "holder m mx \<noteq> None" "Thread_set_masked_from_scheduler t True (m\<lparr>cp_primask := 1\<rparr>) = Inr m1"
      "Thread_ref t m1 = Inr m2" "CircularQueue_enqueue t (km_m_waiting_threads (ma_mutex m mx)) = Inr (x, q)"
      "sc_m_enabled m2" "m' = (put_mutex mx ((ma_mutex m mx)\<lparr>km_m_waiting_threads := q\<rparr>) m2)\<lparr>cp_pendsvset := True, cp_primask := 0\<rparr>"
  using r e a unfolding KernelMutex_lock_def
  by (auto simp: outcome_simps get_active_thread_if_avaliable_def Let_def put_mutex_def Scheduler_trigger_def
      elim!: masked_interruptsD[OF _ e(3)] split: option.splits if_splits)

lemma lock_ok:
  assumes ok: "sys_inv s" and p: "cp_primask (sy_machine s) = 0" and a: "sc_m_active_thread (sy_machine s) = Some t"
    and l: "sy_in_lock s t = None"
    and al: "if_alive (sy_machine s) t (\<lambda>th. \<not> th_m_masked_from_scheduler th \<and> th_m_privileged th)"
    and sp: "t \<in> specials (sy_machine s) \<Longrightarrow> holder (sy_machine s) mx = None"
    and r: "thread_action t (Lock mx) s = Inr s'"
  shows "sys_inv s'"
proof -
  let ?m = "sy_machine s"
  have okm: "okm s ?m" and ok1: "okm s (?m\<lparr>cp_primask := 1\<rparr>)" using ok by simp_all
  obtain m' th where m': "KernelMutex_lock mx ?m = Inr m'" "ma_threads m' t = Some th"
    "s' = (if th_m_masked_from_scheduler th then s\<lparr>sy_in_lock := (sy_in_lock s)(t \<mapsto> mx), sy_machine := m'\<rparr>
           else s\<lparr>sy_inside := (sy_inside s)(mx := t # sy_inside s mx), sy_machine := m'\<rparr>)"
    using r by (auto simp: on_machine_def Thread_get_def outcome_simps System_order split: option.splits if_splits)
  show ?thesis using m'(1) okm_parts(6)[OF okm] okm_parts(4)[OF okm] p a
  proof (cases rule: KernelMutex_lock_cases)
    case (free m1)
    have c: "calm ?m m1" using Thread_ref_calm[OF free(2)] by simp
    have ok2: "okm s m1" by (rule okm_calm[OF okm c])
    have same: "ma_mutex m1 = ma_mutex ?m" using c by (simp add: calm_def)
    have "if_alive m1 t (\<lambda>th. \<not> th_m_masked_from_scheduler th \<and> th_m_privileged th)"
      using calm_if_alive[OF c al] by (simp add: calm_thread_def)
    then have nm: "\<not> th_m_masked_from_scheduler th" using m'(2) free(3) by (simp add: if_alive_def put_mutex_def)
    have "okm (s\<lparr>sy_inside := (sy_inside s)(mx := t # sy_inside s mx)\<rparr>) (put_mutex mx ((ma_mutex ?m mx)\<lparr>km_m_holding_thread := Some t\<rparr>) m1)"
      using inv_lock_free[of "s\<lparr>sy_machine := m1\<rparr>" m1 mx "(ma_mutex ?m mx)\<lparr>km_m_holding_thread := Some t\<rparr>" t, OF ok2 _ _ _ _ _ refl]
        free(1) same okm_parts(6)[OF okm] by (simp add: System_order)
    then show ?thesis using m'(3) nm free(3) by (simp add: okm_order)
  next
    case (held m1 m2 x q)
    have sp': "t \<notin> specials (?m\<lparr>cp_primask := 1\<rparr>)" using sp held(1) by (auto simp: specials_def)
    have a': "sc_m_active_thread (?m\<lparr>cp_primask := 1\<rparr>) = Some t" using a by simp
    note M = mask_ok[OF ok1 active_facts(1)[OF ok1 a'] sp' held(2)]
    have al1: "okm s m1" "if_alive m1 t (\<lambda>th. th_m_masked_from_scheduler th \<and> th_m_privileged th)" "ma_threads m1 t \<noteq> None"
      using M al by (auto simp: if_alive_def)
    have c: "calm m1 m2" by (rule Thread_ref_calm[OF held(3)])
    have ok2: "okm s m2" by (rule okm_calm[OF al1(1) c])
    have al2: "if_alive m2 t (\<lambda>th. th_m_masked_from_scheduler th \<and> th_m_privileged th)"
      using calm_if_alive[OF c al1(2)] by (simp add: calm_thread_def)
    have same: "ma_mutex m2 = ma_mutex ?m" "specials m2 = specials ?m" "sc_m_active_thread m2 = Some t"
      using c held(2) a by (auto simp: calm_def specials_def Thread_set_masked_from_scheduler_def Thread_put_def outcome_simps)
    have sp2: "t \<notin> specials m2" using sp' unfolding same(2) by (simp add: specials_def)
    note q = cq.enqD[OF okm_parts(5)[OF okm] held(4)]
    have "okm (s\<lparr>sy_in_lock := (sy_in_lock s)(t \<mapsto> mx)\<rparr>) (put_mutex mx ((ma_mutex ?m mx)\<lparr>km_m_waiting_threads := q\<rparr>) m2)"
      using inv_lock_wait[of "s\<lparr>sy_machine := m2\<rparr>" m2 t "(ma_mutex ?m mx)\<lparr>km_m_waiting_threads := q\<rparr>" mx, OF ok2 _ _ al2 _ _ _ _ _ _ _ refl]
        l sp2 active_facts(2,3)[OF ok2 same(3)] same(1) okm_parts(6)[OF okm] q by (simp add: System_order)
    moreover have "th_m_masked_from_scheduler th" using al2 m'(2) held(6) by (simp add: if_alive_def put_mutex_def)
    ultimately show ?thesis using m'(3) held(6) by (simp add: okm_order)
  qed
qed

lemma return_ok:
  assumes ok: "sys_inv s" and l: "sy_in_lock s t = Some mx" and th: "ma_threads (sy_machine s) t = Some th"
    and n: "\<not> th_m_masked_from_scheduler th" and r: "thread_action t (Return_From_Lock mx) s = Inr s'"
  shows "sys_inv s'"
proof -
  have "t \<notin> set (waiting (sy_machine s) my)" for my using ok th n by (auto simp: sys_inv_def waiting_ok_def if_alive_def)
  then show ?thesis using inv_return[OF ok refl l _ refl] r by auto
qed

subsection \<open>New threads\<close>

lemma Thread_setup_contextD:
  assumes "Thread_setup_context t cb ns m = Inr m'" and "ma_threads m t = Some th"
  obtains th' c where "m' = (Thread_put t th' m)\<lparr>cp_contexts := c\<rparr>" "th_callback th' = cb"
    "th_m_masked_from_scheduler th' = th_m_masked_from_scheduler th" "th_m_privileged th' = th_m_privileged th"
    "th_m_is_default_thread th' = th_m_is_default_thread th"
  using assms by (auto simp: Thread_setup_context_def Thread_setup_context_impl_def Thread_get_def outcome_simps Let_def Thread_put_def)

lemma new_kernel_threadD:
  assumes "new_kernel_thread name flags cb ns m = Inr (t, m')"
  obtains th c where "t = ma_next m"
    "m' = m\<lparr>ma_next := Suc (ma_next m), ma_threads := (ma_threads m)(ma_next m \<mapsto> th), cp_contexts := c\<rparr>"
    "th_callback th = cb" "th_m_masked_from_scheduler th = th_m_masked_from_scheduler (flags (Thread_new name))"
    "th_m_privileged th = th_m_privileged (flags (Thread_new name))"
    "th_m_is_default_thread th = th_m_is_default_thread (flags (Thread_new name))"
proof -
  let ?m = "m\<lparr>ma_next := Suc (ma_next m), ma_threads := (ma_threads m)(ma_next m \<mapsto> flags (Thread_new name))\<rparr>"
  have t: "t = ma_next m" and r: "Thread_setup_context (ma_next m) cb ns ?m = Inr m'"
    using assms by (auto simp: new_kernel_thread_def Thread_construct_def Thread_get_def Thread_put_def outcome_simps)
  from r obtain th c where th: "m' = (Thread_put (ma_next m) th ?m)\<lparr>cp_contexts := c\<rparr>" "th_callback th = cb"
    "th_m_masked_from_scheduler th = th_m_masked_from_scheduler (flags (Thread_new name))"
    "th_m_privileged th = th_m_privileged (flags (Thread_new name))"
    "th_m_is_default_thread th = th_m_is_default_thread (flags (Thread_new name))"
    by (rule Thread_setup_contextD[of _ _ _ _ _ "flags (Thread_new name)"]) simp_all
  from that[OF t _ th(2-5)] show thesis using th(1) by (simp add: Thread_put_def)
qed

lemma add_threadD:
  assumes "masked_interrupts (\<lambda>m. bindE (Scheduler_add_thread t m) (\<lambda>m. Inr ((), m))) m = Inr (r, m')" and "cp_primask m = 0"
    and "CircularQueue_inv (sc_m_queued_threads m)"
  obtains q where "m' = m\<lparr>sc_m_queued_threads := q, cp_primask := 0\<rparr>" "CircularQueue_inv q" "CircularQueue_items q = ready m @ [t]"
  using assms(1)
proof (rule masked_interruptsD[OF _ assms(2)])
  fix m2 assume "bindE (Scheduler_add_thread t (m\<lparr>cp_primask := 1\<rparr>)) (\<lambda>m. Inr ((), m)) = Inr (r, m2)" and m': "m' = m2\<lparr>cp_primask := 0\<rparr>"
  then obtain x q where q: "CircularQueue_enqueue t (sc_m_queued_threads m) = Inr (x, q)" "m2 = m\<lparr>cp_primask := 1, sc_m_queued_threads := q\<rparr>"
    by (auto simp: Scheduler_add_thread_def outcome_simps)
  from that[OF _ cq.enqD(3,4)[OF assms(3) q(1)]] show thesis using m' q(2) by simp
qed

lemma spawn_ok:
  assumes ok: "sys_inv s" and p: "cp_primask (sy_machine s) = 0" and u: "taken_by s t u"
    and r: "handle_next_spawn u name ns (sy_machine s) = Inr m'"
  shows "okm (s\<lparr>sy_local := (sy_local s)(t := None)\<rparr>) m'"
proof -
  let ?m = "sy_machine s"
  have okm: "okm s ?m" using ok by simp
  obtain w m1 ctx where k: "new_kernel_thread name (\<lambda>th. th\<lparr>th_m_privileged := True\<rparr>) (Worker u ctx) ns ?m = Inr (w, m1)"
    "masked_interrupts (\<lambda>m. bindE (Scheduler_add_thread w m) (\<lambda>m. Inr ((), m))) m1 = Inr ((), m')"
    using r by (auto simp: handle_next_spawn_def Thread_get_def deref_def outcome_simps split: option.splits)
  from k(1) obtain th c th0 where n: "w = ma_next ?m"
    "m1 = ?m\<lparr>ma_next := Suc (ma_next ?m), ma_threads := (ma_threads ?m)(ma_next ?m \<mapsto> th), cp_contexts := c\<rparr>"
    "th_callback th = Worker u ctx" "\<not> th_m_masked_from_scheduler th"
    by (rule new_kernel_threadD) (simp add: Thread_new_def)
  from k(2) obtain q where q: "m' = m1\<lparr>sc_m_queued_threads := q, cp_primask := 0\<rparr>" "CircularQueue_inv q"
    "CircularQueue_items q = ready ?m @ [ma_next ?m]"
    by (rule add_threadD) (use p n okm_parts(1)[OF okm] in simp_all)
  have "sys_inv (s\<lparr>sy_machine := ?m\<lparr>ma_threads := (ma_threads ?m)(ma_next ?m \<mapsto> th), ma_next := Suc (ma_next ?m),
      sc_m_queued_threads := q\<rparr>, sy_local := (sy_local s)(t := None)\<rparr>)"
    by (rule inv_new_worker[OF ok refl u n(4,3) q(2,3) refl])
  then have "okm (s\<lparr>sy_local := (sy_local s)(t := None)\<rparr>) (?m\<lparr>ma_threads := (ma_threads ?m)(ma_next ?m \<mapsto> th),
      ma_next := Suc (ma_next ?m), sc_m_queued_threads := q\<rparr>)" by (simp add: System_order)
  then show ?thesis by (rule okm_calm) (simp add: q(1) n(2) calm_def)
qed

lemma create_ok:
  assumes ok: "sys_inv s" and p: "cp_primask (sy_machine s) = 0"
    and r: "Process_create_thread name pr ns (sy_machine s) = Inr m'"
  shows "okm s m'"
proof -
  let ?m = "sy_machine s"
  have okm: "okm s ?m" using ok by simp
  obtain w m1 where k: "new_kernel_thread (''Process: '' @ name) (\<lambda>th. th\<lparr>th_m_process := Some pr, th_m_privileged := True\<rparr>) Other_Code ns ?m = Inr (w, m1)"
    "masked_interrupts (\<lambda>m. bindE (Scheduler_add_thread w m) (\<lambda>m. Inr ((), m))) m1 = Inr ((), m')"
    using r by (auto simp: Process_create_thread_def outcome_simps)
  from k(1) obtain th c where n: "w = ma_next ?m"
    "m1 = ?m\<lparr>ma_next := Suc (ma_next ?m), ma_threads := (ma_threads ?m)(ma_next ?m \<mapsto> th), cp_contexts := c\<rparr>"
    "th_callback th = Other_Code" "\<not> th_m_masked_from_scheduler th"
    by (rule new_kernel_threadD) (simp add: Thread_new_def)
  from k(2) obtain q where q: "m' = m1\<lparr>sc_m_queued_threads := q, cp_primask := 0\<rparr>" "CircularQueue_inv q"
    "CircularQueue_items q = ready ?m @ [ma_next ?m]"
    by (rule add_threadD) (use p n okm_parts(1)[OF okm] in simp_all)
  have "okm s (?m\<lparr>ma_threads := (ma_threads ?m)(ma_next ?m \<mapsto> th), ma_next := Suc (ma_next ?m), sc_m_queued_threads := q\<rparr>)"
    by (rule inv_new_ready[OF ok refl n(4,3) q(2,3) refl])
  then show ?thesis by (rule okm_calm) (simp add: q(1) n(2) calm_def)
qed

lemma start_handler_ok:
  assumes ok: "sys_inv s" and r: "SystemHandler_initialize ns (sy_machine s) = Inr m'"
  shows "okm s m'"
proof -
  let ?m = "sy_machine s"
  obtain w m1 where k: "\<not> sh_m_initialized ?m" "m' = m1\<lparr>sh_m_thread := Some w\<rparr>"
    "new_kernel_thread ''Kernel: SystemHandler'' (\<lambda>th. th\<lparr>th_m_privileged := True, th_m_masked_from_scheduler := True\<rparr>) Handler_Loop ns
       (?m\<lparr>sh_m_initialized := True\<rparr>) = Inr (w, m1)"
    using r by (auto simp: SystemHandler_initialize_def SystemHandler_new_def outcome_simps)
  from k(3) obtain th c where n: "w = ma_next ?m" "th_callback th = Handler_Loop" "th_m_privileged th"
    "m1 = ?m\<lparr>sh_m_initialized := True, ma_next := Suc (ma_next ?m), ma_threads := (ma_threads ?m)(ma_next ?m \<mapsto> th), cp_contexts := c\<rparr>"
    by (rule new_kernel_threadD) (simp add: Thread_new_def)
  have none: "sh_m_thread ?m = None" using ok k(1) by (auto simp: sys_inv_def handler_ok_def)
  have "okm s (?m\<lparr>ma_threads := (ma_threads ?m)(ma_next ?m \<mapsto> th), ma_next := Suc (ma_next ?m), sh_m_thread := Some (ma_next ?m),
      sh_m_initialized := True\<rparr>)"
    by (rule inv_new_handler[OF ok refl none n(3,2) refl])
  then show ?thesis by (rule okm_calm) (simp add: k(2) n calm_def)
qed

subsection \<open>System calls\<close>

lemma svcall_ok:
  assumes ok: "okm s m" and a: "sc_m_active_thread m = Some t"
    and al: "if_alive m t (\<lambda>th. \<not> th_m_privileged th)" and l: "sy_in_lock s t = None"
    and h: "\<And>h. sh_m_thread m = Some h \<Longrightarrow> sy_in_lock s h = None"
    and r: "isr_svcall ctx m = Inr m'"
  shows "resumed s m'"
proof -
  obtain m1 m2 m3 m4 x q h m5 u m6 c' m7 where m: "Thread_ref t (m\<lparr>cp_ipsr := 11\<rparr>) = Inr m1" "Thread_stash_context t ctx m1 = Inr m2"
    "clear_active_thread m2 = Inr m3" "Thread_set_masked_from_scheduler t True m3 = Inr m4"
    "CircularQueue_enqueue t (sh_m_waiting_threads m4) = Inr (x, q)" "sh_m_thread m4 = Some h"
    "Thread_wakeup h (m4\<lparr>sh_m_waiting_threads := q\<rparr>) = Inr m5"
    "Scheduler_schedule m5 = Inr (u, m6)" "Thread_unstash_context u m6 = Inr (c', m7)" "m' = m7\<lparr>cp_ipsr := 0\<rparr>"
    using r a by (auto simp: isr_svcall_def SystemHandler_syscall_def get_active_thread_def notify_worker_thread_def deref_def
        outcome_simps split: option.splits)
  have c2: "calm m m2" using calm_trans[OF Thread_ref_calm[OF m(1)] Thread_stash_context_calm[OF m(2)]] by simp
  obtain m3' where m3: "unref_pointer (sc_m_active_thread m2) m2 = Inr m3'" "m3 = m3'\<lparr>sc_m_active_thread := None\<rparr>"
    using m(3) by (auto simp: clear_active_thread_def outcome_simps)
  have c3: "calm m m3'" by (rule calm_trans[OF c2 unref_pointer_calm[OF m3(1)]])
  have ok3': "okm s m3'" by (rule okm_calm[OF ok c3])
  have a3: "sc_m_active_thread m3' = Some t" using calm_active[OF c3] a by simp
  have ok3: "okm s m3" using inv_deactivate[OF ok3' refl refl] m3(2) by simp
  have al3: "if_alive m3 t (\<lambda>th. \<not> th_m_privileged th)" using calm_if_alive[OF c3 al] m3(2) by (simp add: calm_thread_def if_alive_def)
  obtain th where th: "ma_threads m3 t = Some th" "m4 = Thread_put t (th\<lparr>th_m_masked_from_scheduler := True\<rparr>) m3"
    using m(4) by (auto simp: Thread_set_masked_from_scheduler_def Thread_get_def outcome_simps split: option.splits)
  have np: "\<not> th_m_privileged th" using al3 th(1) by (simp add: if_alive_def)
  have facts: "t \<notin> set (ready m3)" "t \<notin> specials m3" "t < ma_next m3" "\<not> in_call (s\<lparr>sy_machine := m3'\<rparr>) t"
    using active_facts[OF ok3' a3] np th(1) ok3 m3(2)
    by (auto simp: specials_def) (auto simp: sys_inv_def specials_ok_def specials_def if_alive_def)
  have ok4: "okm s m4" using mask_ok(1)[OF ok3 facts(1,2) m(4)] .
  have same4: "ready m4 = ready m3" "specials m4 = specials m3" "ma_next m4 = ma_next m3" "sc_m_active_thread m4 = None"
    "sh_m_thread m4 = sh_m_thread m" using th m3(2) c3 by (auto simp: Thread_put_def specials_def calm_def)
  have "works_for m4 = works_for m3'" using th m3(2) by (auto simp: fun_eq_iff works_for_def Thread_put_def)
  then have "in_call (s\<lparr>sy_machine := m4\<rparr>) t \<longleftrightarrow> in_call (s\<lparr>sy_machine := m3'\<rparr>) t"
    using th m3(2) by (simp add: in_call_def taken_by_def Thread_put_def)
  then have nc: "\<not> in_call (s\<lparr>sy_machine := m4\<rparr>) t" using facts(4) by simp
  have al4: "if_alive m4 t (\<lambda>th. th_m_masked_from_scheduler th \<and> \<not> th_m_privileged th)" using th(2) np by (simp add: if_alive_def Thread_put_def)
  let ?m5 = "m4\<lparr>sh_m_waiting_threads := q\<rparr>"
  note q = cq.enqD[OF okm_parts(3)[OF ok4] m(5)]
  have ok5: "okm s ?m5" using inv_capture[of "s\<lparr>sy_machine := m4\<rparr>" m4 t q, OF ok4 _ _ al4 _ _ _ _ nc q(3,4) refl] facts same4 l by simp
  have hl: "sy_in_lock s h = None" using h m(6) same4(5) by simp
  have nh: "\<not> in_call (s\<lparr>sy_machine := ?m5\<rparr>) h"
  proof
    assume "in_call (s\<lparr>sy_machine := ?m5\<rparr>) h"
    from sys_inv_call[OF ok5 this] have "if_alive ?m5 h (\<lambda>th. \<not> th_m_privileged th)" by (simp add: call_ok_def if_alive_def)
    moreover have "if_alive ?m5 h th_m_privileged" using ok5 m(6) by (simp add: sys_inv_def handler_ok_def)
    moreover obtain hth where "ma_threads ?m5 h = Some hth" using m(7)
      by (auto simp: Thread_wakeup_def Thread_get_def outcome_simps split: option.splits)
    ultimately show False by (simp add: if_alive_def)
  qed
  have "okm s m5" by (rule wakeup_ok[OF ok5 m(7) waiting_fresh[OF ok5 hl] nh])
  from unstash_after[OF schedule_ok[OF this m(8)] m(9)] show ?thesis using m(10) by (simp add: resumed_def if_alive_def)
qed

subsection \<open>The loops of the kernel's threads\<close>

lemma loop_thread:
  assumes ok: "okm s m" and th: "ma_threads m t = Some th" and p: "th_m_privileged th"
    and cb: "th_callback th \<notin> {Default_Loop, Fallback_Loop}"
  shows "t \<notin> specials m"
  using ok th cb by (auto simp: sys_inv_def specials_ok_def if_alive_def)

lemma handler_thread: "okm s m \<Longrightarrow> ma_threads m t = Some th \<Longrightarrow> th_callback th = Handler_Loop \<longleftrightarrow> sh_m_thread m = Some t"
  by (auto simp: sys_inv_def handler_ok_def if_alive_def)

lemma handler_round_ok:
  assumes ok: "sys_inv s" and p: "cp_primask (sy_machine s) = 0" and a: "sc_m_active_thread (sy_machine s) = Some t"
    and th: "ma_threads (sy_machine s) t = Some th" "th_callback th = Handler_Loop" and l: "sy_local s t = None"
    and r: "thread_action t Handler_Round s = Inr s'"
  shows "sys_inv s'"
proof -
  let ?m = "sy_machine s"
  have okm: "okm s ?m" and ok1: "okm s (?m\<lparr>cp_primask := 1\<rparr>)" using ok by simp_all
  have sh: "sh_m_thread ?m = Some t" using handler_thread[OF okm th(1)] th(2) by simp
  have "th_m_privileged th" using ok sh th(1) by (simp add: sys_inv_def handler_ok_def if_alive_def)
  then have sp: "t \<notin> specials ?m" using loop_thread[OF okm th(1)] th(2) by simp
  show ?thesis
  proof (cases "CircularQueue_size (sh_m_waiting_threads ?m) = 0")
    case True
    then obtain m1 where m1: "Thread_set_masked_from_scheduler t True (?m\<lparr>cp_primask := 1\<rparr>) = Inr m1"
      "s' = s\<lparr>sy_machine := m1\<lparr>cp_pendsvset := True, cp_primask := 0\<rparr>\<rparr>"
      using r p a by (auto simp: SystemHandler_loop_check_def disable_interrupts_def are_interrupts_enabled_def get_active_thread_def
          restore_interrupts_def enable_interrupts_def Let_def outcome_simps dest!: Scheduler_triggerD)
    have "okm s m1" by (rule mask_ok(1)[OF ok1 _ _ m1(1)]) (use active_facts(1)[OF okm a] sp in \<open>simp_all add: specials_def\<close>)
    then show ?thesis using m1(2) by simp
  next
    case False
    then obtain u q where q: "CircularQueue_dequeue (sh_m_waiting_threads ?m) = Inr (u, q)"
      "s' = s\<lparr>sy_machine := ?m\<lparr>sh_m_waiting_threads := q, cp_primask := 0\<rparr>, sy_local := (sy_local s)(t \<mapsto> u)\<rparr>"
      using r p by (auto simp: SystemHandler_loop_check_def disable_interrupts_def are_interrupts_enabled_def handle_next_take_def
          restore_interrupts_def enable_interrupts_def Let_def outcome_simps elim!: masked_interruptsD)
    note d = cq.deqD[OF okm_parts(3)[OF okm] q(1)]
    have "okm (s\<lparr>sy_local := (sy_local s)(t \<mapsto> u)\<rparr>) (?m\<lparr>sh_m_waiting_threads := q\<rparr>)"
      using inv_take[OF ok refl sh l d(2,1) refl] by (simp add: System_order)
    from okm_calm[OF this, of "?m\<lparr>sh_m_waiting_threads := q, cp_primask := 0\<rparr>"] show ?thesis using q(2) by (simp add: okm_order)
  qed
qed

lemma worker_return_ok:
  assumes ok: "sys_inv s" and p: "cp_primask (sy_machine s) = 0"
    and th: "ma_threads (sy_machine s) t = Some th" "th_callback th = Worker u ctx"
    and r: "thread_action t (Worker_Return ret) s = Inr s'"
  shows "sys_inv s'"
proof -
  let ?m = "sy_machine s" and ?m1 = "Thread_put t (th\<lparr>th_callback := Other_Code\<rparr>) (sy_machine s)"
  let ?m2 = "?m1\<lparr>cp_contexts := (cp_contexts ?m)(ctx := (cp_contexts ?m ctx)\<lparr>fr_r0 := ret\<rparr>)\<rparr>"
  have ok1: "okm s ?m1" by (rule inv_worker_clear[OF ok refl th refl])
  have ok2: "okm s ?m2" by (rule okm_calm[OF ok1]) simp
  have w: "works_for ?m t u" using th by (auto simp: works_for_def)
  have c: "call_ok s u" by (rule sys_inv_call[OF ok]) (use w in \<open>auto simp: in_call_def\<close>)
  have nc: "\<not> in_call (s\<lparr>sy_machine := ?m2\<rparr>) u"
    using ok w unfolding sys_inv_def calls_distinct_def
    by (auto simp: in_call_def taken_by_def works_for_def Thread_put_def split: if_splits)
  obtain m' where m': "worker_return u ctx ret ?m1 = Inr m'" "s' = s\<lparr>sy_machine := m'\<rparr>"
    using r th by (auto simp: on_machine_def Thread_get_def outcome_simps)
  show ?thesis
  proof (cases "fr_r0 (cp_contexts ?m ctx) = SC_exit")
    case True
    then show ?thesis using m' ok2 by (auto simp: worker_return_def Let_def outcome_simps Thread_put_def)
  next
    case False
    then obtain m3 where m3: "Thread_set_masked_from_scheduler u False ?m2 = Inr m3"
      "masked_interrupts (\<lambda>m. bindE (Scheduler_add_thread u m) (\<lambda>m. Inr ((), m))) m3 = Inr ((), m')"
      using m'(1) by (auto simp: worker_return_def Let_def outcome_simps Thread_put_def)
    then obtain uth where u: "ma_threads ?m2 u = Some uth" "m3 = Thread_put u (uth\<lparr>th_m_masked_from_scheduler := False\<rparr>) ?m2"
      by (auto simp: Thread_set_masked_from_scheduler_def Thread_get_def outcome_simps split: option.splits if_splits)
    from m3(2) obtain q where q: "m' = m3\<lparr>sc_m_queued_threads := q, cp_primask := 0\<rparr>" "CircularQueue_inv q"
      "CircularQueue_items q = ready ?m2 @ [u]"
      by (rule add_threadD) (use u(2) p okm_parts(1)[OF ok1] in \<open>simp_all add: Thread_put_def\<close>)
    have f: "sc_m_active_thread ?m2 \<noteq> Some u" "u \<notin> set (ready ?m2)" "u \<notin> specials ?m2" "sy_in_lock s u = None"
      using c by (auto simp: call_ok_def Thread_put_def specials_def)
    have "okm s (m3\<lparr>sc_m_queued_threads := q\<rparr>)"
      using inv_wake[of "s\<lparr>sy_machine := ?m2\<rparr>" ?m2 u uth q, OF ok2 _ u(1) f(1-3) nc waiting_fresh[OF ok2 f(4)] q(2,3) refl] u(2) by simp
    then show ?thesis using m'(2) q(1) okm_cpu(3)[of 0 "m3\<lparr>sc_m_queued_threads := q\<rparr>" s] by simp
  qed
qed

lemma die_ok:
  assumes ok: "sys_inv s" and a: "sc_m_active_thread (sy_machine s) = Some t" and sp: "t \<notin> specials (sy_machine s)"
    and r: "Thread_die t (sy_machine s) = Inr m'"
  shows "okm s m'"
proof -
  have okm: "okm s (sy_machine s)" using ok by simp
  obtain m1 where m1: "Thread_set_masked_from_scheduler t True (sy_machine s) = Inr m1" "Scheduler_trigger m1 = Inr m'"
    using r by (auto simp: Thread_die_def outcome_simps)
  show ?thesis by (rule okm_calm[OF mask_ok(1)[OF okm active_facts(1)[OF okm a] sp m1(1)] Scheduler_trigger_calm[OF m1(2)]])
qed

lemma default_round_ok:
  assumes ok: "sys_inv s" and a: "sc_m_active_thread (sy_machine s) = Some t"
    and th: "ma_threads (sy_machine s) t = Some th" "th_callback th = Default_Loop"
    and r: "thread_action t Default_Round s = Inr s'"
  shows "sys_inv s'"
proof -
  have okm: "okm s (sy_machine s)" using ok by simp
  obtain u m' where m': "default_loop_take (sy_machine s) = Inr (u, m')" "s' = s\<lparr>sy_machine := m', sy_local := (sy_local s)(t := u)\<rparr>"
    using r by (auto simp: outcome_simps)
  have c: "calm (sy_machine s) m'"
    using m'(1) by (auto simp: default_loop_take_def MaskedInterruptGuard_new_def disable_interrupts_def MaskedInterruptGuard_destroy_def
        MaskedInterruptGuard_release_early_def enable_interrupts_def Let_def outcome_simps calm_def
        split: if_splits dest!: Scheduler_triggerD intro: cq.deqD(2))
  have ok1: "okm s m'" by (rule okm_calm[OF okm c])
  have t: "t < ma_next m'" using active_facts(3)[OF okm a] c by (simp add: calm_def)
  have "sh_m_thread m' \<noteq> Some t" using handler_thread[OF okm th(1)] th(2) c by (auto simp: calm_def)
  then have "sys_inv (s\<lparr>sy_machine := m'\<rparr>\<lparr>sy_local := (sy_local (s\<lparr>sy_machine := m'\<rparr>))(t := u)\<rparr>)"
    using inv_local[OF ok1 _ _ _ refl, of m' t u] t by simp
  then show ?thesis using m'(2) by simp
qed

lemma default_kill_ok:
  assumes ok: "sys_inv s" and p: "cp_primask (sy_machine s) = 0" and a: "sc_m_active_thread (sy_machine s) = Some t"
    and th: "ma_threads (sy_machine s) t = Some th" "th_callback th = Default_Loop"
    and r: "thread_action t Default_Kill s = Inr s'"
  shows "sys_inv s'"
proof -
  have okm: "okm s (sy_machine s)" using ok by simp
  obtain u m' where m': "default_loop_kill u (sy_machine s) = Inr m'" "s' = s\<lparr>sy_machine := m', sy_local := (sy_local s)(t := None)\<rparr>"
    using r by (auto simp: outcome_simps on_machine_def)
  have c: "calm (sy_machine s) m'"
    using m'(1) p by (auto simp: default_loop_kill_def KernelMutex_is_locked_def outcome_simps elim!: masked_interruptsD dest!: Thread_unref_calm)
  have ok1: "okm s m'" by (rule okm_calm[OF okm c])
  have t: "t < ma_next m'" using active_facts(3)[OF okm a] c by (simp add: calm_def)
  have "sh_m_thread m' \<noteq> Some t" using handler_thread[OF okm th(1)] th(2) c by (auto simp: calm_def)
  then have "sys_inv (s\<lparr>sy_machine := m'\<rparr>\<lparr>sy_local := (sy_local (s\<lparr>sy_machine := m'\<rparr>))(t := None)\<rparr>)"
    using inv_local[OF ok1 _ _ _ refl, of m' t None] t by simp
  then show ?thesis using m'(2) by simp
qed

lemma hand_over_ok:
  assumes ok: "sys_inv s" and p: "cp_primask (sy_machine s) = 0" and a: "sc_m_active_thread (sy_machine s) = Some t"
    and l: "sy_in_lock s t = None" and th: "ma_threads (sy_machine s) t = Some th" "th_callback th = Other_Code" "th_m_privileged th"
    and r: "hand_over_to_loaded_executable rs (sy_machine s) = Inr m'"
  shows "okm s m'"
proof -
  let ?m = "sy_machine s"
  have okm: "okm s ?m" using ok by simp
  obtain hw where m': "m' = (Thread_put t (th\<lparr>th_m_privileged := False\<rparr>) (?m\<lparr>cp_mpu_hw := hw, cp_primask := 1\<rparr>))\<lparr>cp_primask := 0, cp_control := 3\<rparr>"
    using r p a th(1) by (auto simp: hand_over_to_loaded_executable_def get_active_thread_def Thread_get_def outcome_simps elim!: masked_interruptsD)
  have "okm s (Thread_put t (th\<lparr>th_m_privileged := False\<rparr>) ?m)"
    by (rule inv_unprivileged[OF ok refl th(1) _ _ l _ refl])
      (use loop_thread[OF okm th(1,3)] handler_thread[OF okm th(1)] th(2) active_facts(2)[OF okm a] in simp_all)
  then show ?thesis by (rule okm_calm) (simp add: m' Thread_put_def calm_def)
qed

subsection \<open>The processor between actions\<close>

text \<open>What every action keeps for the thread that performs it.\<close>

definition pre :: "Machine \<Rightarrow> Machine \<Rightarrow> bool" where
  "pre m m' \<longleftrightarrow> cp_primask m' = cp_primask m \<and> cp_ipsr m' = cp_ipsr m \<and> sc_m_enabled m' = sc_m_enabled m \<and>
     sc_m_active_thread m' = sc_m_active_thread m \<and> (cp_pendsvset m \<longrightarrow> cp_pendsvset m')"

definition keeps :: "nat \<Rightarrow> Machine \<Rightarrow> Machine \<Rightarrow> bool" where
  "keeps t m m' \<longleftrightarrow> pre m m' \<and> (cp_pendsvset m' \<or>
     (if_alive m t (\<lambda>th. \<not> th_m_masked_from_scheduler th) \<longrightarrow> if_alive m' t (\<lambda>th. \<not> th_m_masked_from_scheduler th)))"

lemma keeps_at_rest:
  assumes "at_rest m" and "sc_m_active_thread m = Some t" and "keeps t m m'"
  shows "at_rest m'"
  using assms by (auto simp: at_rest_def keeps_def pre_def if_alive_def)

lemma keeps_trans: "keeps t a b \<Longrightarrow> keeps t b c \<Longrightarrow> keeps t a c"
  by (auto simp: keeps_def pre_def)

lemma keeps_refl [simp]: "keeps t m m"
  by (simp add: keeps_def pre_def)

named_theorems keeps_ops

lemma keeps_put: "ma_threads m x = Some th \<Longrightarrow> (th_m_masked_from_scheduler th' \<longrightarrow> th_m_masked_from_scheduler th) \<Longrightarrow> keeps t m (Thread_put x th' m)"
  by (auto simp: keeps_def pre_def if_alive_def Thread_put_def)

lemma Thread_ref_keeps [keeps_ops]: "Thread_ref x m = Inr m' \<Longrightarrow> keeps t m m'"
  by (auto simp: Thread_ref_def Thread_get_def outcome_simps split: option.splits intro!: keeps_put)

lemma keeps_delete: "keeps t m (m\<lparr>ma_threads := (ma_threads m)(x := None)\<rparr>)"
  by (auto simp: keeps_def pre_def if_alive_def)

lemma Thread_unref_keeps [keeps_ops]: "Thread_unref x m = Inr m' \<Longrightarrow> keeps t m m'"
  by (auto simp: Thread_unref_def Thread_get_def outcome_simps Let_def split: option.splits if_splits intro!: keeps_put keeps_delete)

lemma unref_pointer_keeps [keeps_ops]: "unref_pointer p m = Inr m' \<Longrightarrow> keeps t m m'"
  by (auto simp: unref_pointer_def keeps_ops split: option.splits)

lemma keeps_put_mutex [simp]: "keeps t m (put_mutex mx km m') = keeps t m m'"
  by (simp add: keeps_def pre_def if_alive_def put_mutex_def)

lemma keeps_mutex [simp]: "keeps t (put_mutex mx km m) m' = keeps t m m'"
  by (simp add: keeps_def pre_def if_alive_def put_mutex_def)

lemma keeps_queued [simp]: "keeps t m (m'\<lparr>sc_m_queued_threads := q\<rparr>) = keeps t m m'"
  by (simp add: keeps_def pre_def if_alive_def)

lemma keeps_block:
  assumes "keeps t (m\<lparr>cp_primask := 1\<rparr>) m2" and "cp_primask m = 0"
  shows "keeps t m (m2\<lparr>cp_primask := 0\<rparr>)"
  using assms by (simp add: keeps_def pre_def if_alive_def)

lemma Thread_wakeup_keeps [keeps_ops]:
  assumes "Thread_wakeup x m = Inr m'"
  shows "keeps t m m'"
proof -
  obtain th where th: "ma_threads m x = Some th" using assms
    by (auto simp: Thread_wakeup_def get_active_thread_if_avaliable_def Thread_get_def outcome_simps split: option.splits)
  let ?m = "Thread_put x (th\<lparr>th_m_masked_from_scheduler := False\<rparr>) m"
  have k: "keeps t m ?m" by (rule keeps_put[OF th]) simp
  show ?thesis using assms th keeps_trans[OF k Thread_ref_keeps]
    by (auto simp: Thread_wakeup_def get_active_thread_if_avaliable_def Thread_get_def outcome_simps
        Thread_set_masked_from_scheduler_def Scheduler_add_thread_def split: if_splits)
qed

lemma lock_keeps:
  assumes "KernelMutex_lock mx m = Inr m'" and "km_m_enabled (ma_mutex m mx)" "sc_m_initialized m" "cp_primask m = 0"
    "sc_m_active_thread m = Some t"
  shows "keeps t m m'"
  using assms
proof (cases rule: KernelMutex_lock_cases)
  case (free m1)
  show ?thesis unfolding free(3) by (rule keeps_block[OF _ assms(4)]) (simp add: Thread_ref_keeps[OF free(2)])
next
  case (held m1 m2 x q)
  have "pre (m\<lparr>cp_primask := 1\<rparr>) m1" using held(2)
    by (auto simp: pre_def Thread_set_masked_from_scheduler_def Thread_put_def outcome_simps)
  moreover have "pre m1 m2" using Thread_ref_keeps[OF held(3), of t] by (simp add: keeps_def)
  ultimately show ?thesis using held(6) assms(4) by (simp add: keeps_def pre_def put_mutex_def)
qed

lemma unlock_keeps:
  assumes r: "KernelMutex_unlock mx m = Inr m'" and p: "cp_primask m = 0"
  shows "keeps t m m'"
proof -
  consider "m' = m" | m2 where "m' = m2\<lparr>cp_primask := 0\<rparr>" "bindE (unref_pointer (holder m mx) (m\<lparr>cp_primask := 1\<rparr>)) (\<lambda>m.
            let km = (ma_mutex m mx)\<lparr>km_m_holding_thread := None\<rparr>; m = put_mutex mx km m in
            if CircularQueue_size (km_m_waiting_threads km) > 0
            then bindE (CircularQueue_dequeue (km_m_waiting_threads km)) (\<lambda>(next_thread, q).
                 checkE (km_m_holding_thread km = None) (FIXME_ASSERT ''m_holding_thread.is_null()'')
                   (bindE (Thread_ref next_thread m) (\<lambda>m.
                    bindE (Thread_wakeup next_thread
                      (put_mutex mx (km\<lparr>km_m_waiting_threads := q, km_m_holding_thread := Some next_thread\<rparr>) m)) (\<lambda>m.
                    bindE (Thread_unref next_thread m) (\<lambda>m. Inr ((), m))))))
            else Inr ((), m)) = Inr ((), m2)"
    using r p unfolding KernelMutex_unlock_def by (auto simp: outcome_simps elim!: masked_interruptsD split: if_splits)
  then show ?thesis
  proof cases
    case 2
    then obtain m1 where m1: "unref_pointer (holder m mx) (m\<lparr>cp_primask := 1\<rparr>) = Inr m1" by (auto simp: outcome_simps)
    note k1 = unref_pointer_keeps[OF m1, of t]
    have "keeps t (m\<lparr>cp_primask := 1\<rparr>) m2"
    proof (cases "CircularQueue_size (km_m_waiting_threads (ma_mutex m1 mx)) > 0")
      case False
      then show ?thesis using 2(2) m1 k1 by (auto simp: Let_def)
    next
      case True
      then obtain u q m3 m4 where d: "Thread_ref u (put_mutex mx ((ma_mutex m1 mx)\<lparr>km_m_holding_thread := None\<rparr>) m1) = Inr m3"
        "Thread_wakeup u (put_mutex mx (((ma_mutex m1 mx)\<lparr>km_m_holding_thread := None\<rparr>)\<lparr>km_m_waiting_threads := q, km_m_holding_thread := Some u\<rparr>) m3) = Inr m4"
        "Thread_unref u m4 = Inr m2"
        using 2(2) m1 by (auto simp: Let_def outcome_simps)
      have "keeps t m1 m3" using Thread_ref_keeps[OF d(1), of t] by simp
      moreover have "keeps t m3 m4" using Thread_wakeup_keeps[OF d(2), of t] by simp
      ultimately show ?thesis using keeps_trans[OF k1] keeps_trans[OF _ Thread_unref_keeps[OF d(3)]] keeps_trans by blast
    qed
    then show ?thesis using keeps_block p 2(1) by blast
  qed simp
qed

lemma pre_trigger: "pre m m1 \<Longrightarrow> Scheduler_trigger m1 = Inr m' \<Longrightarrow> keeps t m m'"
  by (auto simp: keeps_def pre_def dest!: Scheduler_triggerD)

lemma set_masked_pre: "Thread_set_masked_from_scheduler x b m = Inr m' \<Longrightarrow> pre m m'"
  by (auto simp: Thread_set_masked_from_scheduler_def pre_def Thread_put_def outcome_simps)

lemma trigger_keeps: "Scheduler_trigger m = Inr m' \<Longrightarrow> keeps t m m'"
  by (rule pre_trigger[of m m]) (simp_all add: pre_def)

lemma die_keeps: "Thread_die x m = Inr m' \<Longrightarrow> keeps t m m'"
  by (auto simp: Thread_die_def outcome_simps intro: pre_trigger set_masked_pre)

lemma handler_round_keeps:
  assumes "thread_action t Handler_Round s = Inr s'" and p: "cp_primask (sy_machine s) = 0" and a: "sc_m_active_thread (sy_machine s) = Some t"
  shows "keeps t (sy_machine s) (sy_machine s')"
proof (cases "CircularQueue_size (sh_m_waiting_threads (sy_machine s)) = 0")
  case True
  then obtain m1 where m1: "Thread_set_masked_from_scheduler t True ((sy_machine s)\<lparr>cp_primask := 1\<rparr>) = Inr m1"
    "sy_machine s' = m1\<lparr>cp_pendsvset := True, cp_primask := 0\<rparr>"
    using assms by (auto simp: SystemHandler_loop_check_def disable_interrupts_def are_interrupts_enabled_def get_active_thread_def
        restore_interrupts_def enable_interrupts_def Let_def outcome_simps dest!: Scheduler_triggerD)
  then show ?thesis using set_masked_pre[OF m1(1)] p by (simp add: keeps_def pre_def)
next
  case False
  then show ?thesis using assms(1) p
    by (auto simp: SystemHandler_loop_check_def disable_interrupts_def are_interrupts_enabled_def handle_next_take_def
        restore_interrupts_def enable_interrupts_def Let_def outcome_simps keeps_def pre_def if_alive_def elim!: masked_interruptsD)
qed

lemma add_thread_keeps:
  assumes "masked_interrupts (\<lambda>m. bindE (Scheduler_add_thread x m) (\<lambda>m. Inr ((), m))) m = Inr (r, m')" and "cp_primask m = 0"
  shows "keeps t m m'"
  using assms by (auto simp: Scheduler_add_thread_def outcome_simps keeps_def pre_def if_alive_def elim!: masked_interruptsD)

lemma new_kernel_thread_keeps:
  assumes "new_kernel_thread name flags cb ns m = Inr (x, m')" and "t \<noteq> ma_next m"
  shows "keeps t m m'" and "cp_primask m' = cp_primask m"
  using assms(1) by (rule new_kernel_threadD, use assms(2) in \<open>simp add: keeps_def pre_def if_alive_def\<close>)+

lemma worker_return_keeps:
  assumes "worker_return u ctx ret m = Inr m'" and p: "cp_primask m = 0"
  shows "keeps t m m'"
proof -
  let ?m = "m\<lparr>cp_contexts := (cp_contexts m)(ctx := (cp_contexts m ctx)\<lparr>fr_r0 := ret\<rparr>)\<rparr>"
  have k: "keeps t m ?m" by (simp add: keeps_def pre_def if_alive_def)
  show ?thesis
  proof (cases "fr_r0 (cp_contexts m ctx) = SC_exit")
    case True
    then show ?thesis using assms k by (auto simp: worker_return_def Let_def outcome_simps)
  next
    case False
    then obtain m3 where m3: "Thread_set_masked_from_scheduler u False ?m = Inr m3"
      "masked_interrupts (\<lambda>m. bindE (Scheduler_add_thread u m) (\<lambda>m. Inr ((), m))) m3 = Inr ((), m')"
      using assms(1) by (auto simp: worker_return_def Let_def outcome_simps)
    have "keeps t ?m m3" using m3(1)
      by (auto simp: Thread_set_masked_from_scheduler_def Thread_get_def outcome_simps split: option.splits intro!: keeps_put)
    moreover have "cp_primask m3 = 0" using set_masked_pre[OF m3(1)] p by (simp add: pre_def)
    ultimately show ?thesis using keeps_trans[OF keeps_trans[OF k]] add_thread_keeps[OF m3(2)] by blast
  qed
qed


subsection \<open>The processor after an exception\<close>

definition cpu_kept :: "Machine \<Rightarrow> Machine \<Rightarrow> bool" where
  "cpu_kept m m' \<longleftrightarrow> cp_primask m' = cp_primask m \<and> sc_m_enabled m' = sc_m_enabled m"

lemma cpu_kept_trans: "cpu_kept a b \<Longrightarrow> cpu_kept b c \<Longrightarrow> cpu_kept a c"
  by (simp add: cpu_kept_def)

lemma cpu_kept_ref: "Thread_ref t m = Inr m' \<Longrightarrow> cpu_kept m m'"
  using Thread_ref_keeps by (fastforce simp: keeps_def pre_def cpu_kept_def)

lemma cpu_kept_unref: "unref_pointer p m = Inr m' \<Longrightarrow> cpu_kept m m'" "Thread_unref t m = Inr m' \<Longrightarrow> cpu_kept m m'"
  using unref_pointer_keeps Thread_unref_keeps by (fastforce simp: keeps_def pre_def cpu_kept_def)+

lemma cpu_kept_stash: "Thread_stash_context t ctx m = Inr m' \<Longrightarrow> cpu_kept m m'"
  "Thread_unstash_context t m = Inr (c, m') \<Longrightarrow> cpu_kept m m'"
  by (auto simp: Thread_stash_context_def Thread_unstash_context_def Thread_put_def cpu_kept_def outcome_simps split: option.splits)

lemma cpu_kept_put_away: "schedule_put_away m = Inr m' \<Longrightarrow> cpu_kept m m'"
  by (auto simp: schedule_put_away_def outcome_simps cpu_kept_def dest!: cpu_kept_unref split: option.splits if_splits)

lemma cpu_kept_choose: "schedule_choose m = Inr (t, m') \<Longrightarrow> cpu_kept m m'"
  by (auto simp: schedule_choose_def choose_default_thread_def outcome_simps cpu_kept_def dest!: cpu_kept_ref split: if_splits)

lemma cpu_kept_dispatch: "schedule_dispatch t m = Inr m' \<Longrightarrow> cpu_kept m m'"
  by (auto simp: schedule_dispatch_def outcome_simps cpu_kept_def Let_def)

lemma cpu_kept_schedule: "Scheduler_schedule m = Inr (t, m') \<Longrightarrow> cpu_kept m m'"
  by (auto simp: Scheduler_schedule_def outcome_simps cpu_kept_def dest!: cpu_kept_put_away cpu_kept_choose cpu_kept_dispatch)

lemma cpu_kept_wakeup: "Thread_wakeup t m = Inr m' \<Longrightarrow> cpu_kept m m'"
  using Thread_wakeup_keeps by (fastforce simp: keeps_def pre_def cpu_kept_def)

lemma pendsv_cpu: "isr_pendsv ctx m = Inr m' \<Longrightarrow> cpu_kept m m' \<and> cp_ipsr m' = 0"
  by (auto simp: isr_pendsv_def scheduler_next_def outcome_simps cpu_kept_def
      dest!: cpu_kept_stash cpu_kept_schedule)

lemma clear_active_cpu: "clear_active_thread m = Inr m' \<Longrightarrow> cpu_kept m m'"
  by (auto simp: clear_active_thread_def outcome_simps cpu_kept_def dest!: cpu_kept_unref)

lemma notify_cpu: "notify_worker_thread t m = Inr m' \<Longrightarrow> cpu_kept m m'"
  by (auto simp: notify_worker_thread_def outcome_simps cpu_kept_def pre_def dest!: cpu_kept_wakeup set_masked_pre)

lemma svcall_cpu: "isr_svcall ctx m = Inr m' \<Longrightarrow> cpu_kept m m' \<and> cp_ipsr m' = 0"
  by (auto simp: isr_svcall_def SystemHandler_syscall_def outcome_simps cpu_kept_def
      dest!: cpu_kept_stash cpu_kept_schedule cpu_kept_ref clear_active_cpu notify_cpu)

lemma resumed_at_rest:
  assumes "resumed s m'" and "cpu_kept m m'" and "cp_ipsr m' = 0" and "at_rest m"
  shows "okm s m' \<and> at_rest m'"
  using assms by (auto simp: resumed_def at_rest_def cpu_kept_def if_alive_def)

end
