(* ===== verification/Kernel_Properties.thy ===== *)
theory Kernel_Properties
  imports Kernel_Exclusion
begin

section \<open>What the kernel's threads guarantee\<close>

subsection \<open>Every polite step keeps the invariant\<close>

text \<open>
  Two things the kernel does break the invariant, as shown below; the other steps are polite.
\<close>

fun polite :: "action \<Rightarrow> System \<Rightarrow> bool" where
  "polite (Lock mx) s \<longleftrightarrow> (case sc_m_active_thread (sy_machine s) of
      None \<Rightarrow> True | Some t \<Rightarrow> t \<in> specials (sy_machine s) \<longrightarrow> holder (sy_machine s) mx = None)"
| "polite (SVCall ctx) s \<longleftrightarrow> (case sh_m_thread (sy_machine s) of None \<Rightarrow> True | Some h \<Rightarrow> sy_in_lock s h = None)"
| "polite _ s \<longleftrightarrow> True"

lemma acting_thread:
  assumes "can a s" and "a \<noteq> SysTick" and "\<And>ctx. a \<noteq> PendSV ctx" and "at_rest (sy_machine s)"
  obtains t th where "sc_m_active_thread (sy_machine s) = Some t" "ma_threads (sy_machine s) t = Some th"
    "\<not> th_m_masked_from_scheduler th" "perform a s = thread_action t a s"
    "sy_in_lock s t = None \<and> thread_can th t a s \<or> (\<exists>mx. sy_in_lock s t = Some mx \<and> a = Return_From_Lock mx)"
proof -
  from assms(1-3) obtain t th where t: "sc_m_active_thread (sy_machine s) = Some t" "ma_threads (sy_machine s) t = Some th"
    "perform a s = thread_action t a s" "\<not> pendsv_due (sy_machine s)"
    "sy_in_lock s t = None \<and> thread_can th t a s \<or> (\<exists>mx. sy_in_lock s t = Some mx \<and> a = Return_From_Lock mx)"
    by (cases a) (auto split: option.splits)
  have "\<not> th_m_masked_from_scheduler th"
    using t(1,2,4) assms(4) by (auto simp: at_rest_def pendsv_due_def are_interrupts_enabled_def if_alive_def)
  from that[OF t(1,2) this t(3,5)] show thesis .
qed

lemma thread_action_ok:
  assumes ok: "sys_inv s" and rest: "at_rest (sy_machine s)" and a: "sc_m_active_thread (sy_machine s) = Some t"
    and th: "ma_threads (sy_machine s) t = Some th" "\<not> th_m_masked_from_scheduler th"
    and l: "sy_in_lock s t = None" and c: "thread_can th t act s" and p: "polite act s" and r: "thread_action t act s = Inr s'"
  shows "sys_inv s' \<and> at_rest (sy_machine s')"
proof -
  have okm: "okm s (sy_machine s)" using ok by simp
  have pm: "cp_primask (sy_machine s) = 0" using rest by (simp add: at_rest_def)
  have nx: "t \<noteq> ma_next (sy_machine s)" using active_facts(3)[OF okm a] by simp
  note rest' = keeps_at_rest[OF rest a]
  show ?thesis
  proof (cases act)
    case (SVCall ctx)
    then obtain m' where m': "isr_svcall ctx (sy_machine s) = Inr m'" "s' = s\<lparr>sy_machine := m'\<rparr>"
      using r by (auto simp: on_machine_def outcome_simps)
    have "resumed s m'" by (rule svcall_ok[OF okm a _ l _ m'(1)]) (use SVCall c p th in \<open>auto simp: if_alive_def\<close>)
    then show ?thesis using resumed_at_rest svcall_cpu[OF m'(1)] rest m'(2) by auto
  next
    case (Lock mx)
    then obtain m' where m': "KernelMutex_lock mx (sy_machine s) = Inr m'" "sy_machine s' = m'"
      using r by (auto simp: on_machine_def outcome_simps split: if_splits)
    have "sys_inv s'" using lock_ok[OF ok pm a l _ _ r[unfolded Lock]] Lock c p a th by (auto simp: if_alive_def)
    then show ?thesis using rest'[OF lock_keeps[OF m'(1) okm_parts(6)[OF okm] okm_parts(4)[OF okm] pm a]] m'(2) by simp
  next
    case (Unlock mx)
    then obtain m' where m': "KernelMutex_unlock mx (sy_machine s) = Inr m'"
      "s' = s\<lparr>sy_machine := m', sy_inside := (sy_inside s)(mx := removeAll t (sy_inside s mx))\<rparr>"
      using r by (auto simp: on_machine_def outcome_simps)
    then show ?thesis using unlock_ok[OF ok pm _ l m'(1)] Unlock c rest'[OF unlock_keeps[OF m'(1) pm]] by (simp add: okm_order)
  next
    case Handler_Round
    then show ?thesis using handler_round_ok[OF ok pm a th(1)] handler_round_keeps[OF _ pm a] rest' c r by simp
  next
    case (Handler_Spawn name ns)
    then obtain u m' where m': "sy_local s t = Some u" "handle_next_spawn u name ns (sy_machine s) = Inr m'"
      "s' = s\<lparr>sy_machine := m', sy_local := (sy_local s)(t := None)\<rparr>"
      using r by (auto simp: on_machine_def outcome_simps deref_def split: option.splits)
    have "taken_by s t u" using Handler_Spawn c handler_thread[OF okm th(1)] m'(1) by (simp add: taken_by_def)
    from spawn_ok[OF ok pm this m'(2)] have "sys_inv s'" using m'(3) by (simp add: okm_order)
    moreover have "keeps t (sy_machine s) m'" using m'(2) new_kernel_thread_keeps[OF _ nx] add_thread_keeps pm keeps_trans
      by (fastforce simp: handle_next_spawn_def outcome_simps split: option.splits)
    ultimately show ?thesis using rest' m'(3) by simp
  next
    case (Worker_Return ret)
    then obtain u ctx where w: "th_callback th = Worker u ctx" using c by (cases "th_callback th") auto
    let ?m = "Thread_put t (th\<lparr>th_callback := Other_Code\<rparr>) (sy_machine s)"
    obtain m' where m': "worker_return u ctx ret ?m = Inr m'" "s' = s\<lparr>sy_machine := m'\<rparr>"
      using r Worker_Return th(1) w by (auto simp: on_machine_def Thread_get_def outcome_simps)
    have "keeps t (sy_machine s) ?m" by (rule keeps_put[OF th(1)]) simp
    from keeps_trans[OF this worker_return_keeps[OF m'(1)]] have "keeps t (sy_machine s) m'" using pm by (simp add: Thread_put_def)
    then show ?thesis using worker_return_ok[OF ok pm th(1) w] r Worker_Return rest' m'(2) by simp
  next
    case Die
    then obtain m' where m': "Thread_die t (sy_machine s) = Inr m'" "s' = s\<lparr>sy_machine := m'\<rparr>"
      using r by (auto simp: on_machine_def outcome_simps)
    have "t \<notin> specials (sy_machine s)" using loop_thread[OF okm th(1)] Die c by simp
    then show ?thesis using die_ok[OF ok a _ m'(1)] rest'[OF die_keeps[OF m'(1)]] m'(2) by simp
  next
    case Default_Round
    have "keeps t (sy_machine s) (sy_machine s')" using r Default_Round pm
      by (auto simp: default_loop_take_def MaskedInterruptGuard_new_def disable_interrupts_def MaskedInterruptGuard_destroy_def are_interrupts_enabled_def
        MaskedInterruptGuard_release_early_def enable_interrupts_def Let_def outcome_simps keeps_def pre_def if_alive_def
        split: if_splits dest!: Scheduler_triggerD)
    then show ?thesis using default_round_ok[OF ok a th(1)] Default_Round c r rest' by simp
  next
    case Default_Kill
    then obtain u where u: "default_loop_kill u (sy_machine s) = Inr (sy_machine s')" using r by (auto simp: outcome_simps on_machine_def)
    then obtain m1 where m1: "Thread_unref u (m1\<lparr>cp_primask := 0\<rparr>) = Inr (sy_machine s')" "m1 = (sy_machine s)\<lparr>cp_primask := 1\<rparr>"
      using pm by (auto simp: default_loop_kill_def KernelMutex_is_locked_def outcome_simps elim!: masked_interruptsD)
    have "keeps t (sy_machine s) (m1\<lparr>cp_primask := 0\<rparr>)" using m1(2) pm by (simp add: keeps_def pre_def if_alive_def)
    from keeps_trans[OF this Thread_unref_keeps[OF m1(1)]]
    show ?thesis using default_kill_ok[OF ok pm a th(1)] Default_Kill c r rest' by simp
  next
    case Fallback_Round
    then obtain m' where m': "Scheduler_trigger (sy_machine s) = Inr m'" "s' = s\<lparr>sy_machine := m'\<rparr>"
      using r by (auto simp: on_machine_def outcome_simps)
    then show ?thesis using okm_calm[OF okm Scheduler_trigger_calm[OF m'(1)]] rest'[OF trigger_keeps[OF m'(1)]] by simp
  next
    case (Create_Process name pr ns)
    then obtain m' where m': "Process_create_thread name pr ns (sy_machine s) = Inr m'" "s' = s\<lparr>sy_machine := m'\<rparr>"
      using r by (auto simp: on_machine_def outcome_simps)
    have "keeps t (sy_machine s) m'" using m'(1) new_kernel_thread_keeps[OF _ nx] add_thread_keeps pm keeps_trans
      by (fastforce simp: Process_create_thread_def outcome_simps)
    then show ?thesis using create_ok[OF ok pm m'(1)] rest' m'(2) by simp
  next
    case Hand_Over
    then obtain m' where m': "hand_over_to_loaded_executable (th_m_regions th) (sy_machine s) = Inr m'" "s' = s\<lparr>sy_machine := m'\<rparr>"
      using r th(1) by (auto simp: on_machine_def outcome_simps Thread_get_def)
    have "keeps t (sy_machine s) m'" using m'(1) pm a th
      by (auto simp: hand_over_to_loaded_executable_def get_active_thread_def Thread_get_def outcome_simps keeps_def pre_def if_alive_def
          Thread_put_def elim!: masked_interruptsD)
    then show ?thesis using hand_over_ok[OF ok pm a l th(1) _ _ m'(1)] Hand_Over c rest' m'(2) by simp
  next
    case (Start_Handler ns)
    then obtain m' where m': "SystemHandler_initialize ns (sy_machine s) = Inr m'" "s' = s\<lparr>sy_machine := m'\<rparr>"
      using r by (auto simp: on_machine_def outcome_simps)
    obtain w m1 where n: "m' = m1\<lparr>sh_m_thread := Some w\<rparr>" "new_kernel_thread ''Kernel: SystemHandler''
       (\<lambda>th. th\<lparr>th_m_privileged := True, th_m_masked_from_scheduler := True\<rparr>) Handler_Loop ns ((sy_machine s)\<lparr>sh_m_initialized := True\<rparr>) = Inr (w, m1)"
      using m'(1) by (auto simp: SystemHandler_initialize_def SystemHandler_new_def outcome_simps)
    have "keeps t (sy_machine s) m'" using new_kernel_thread_keeps(1)[OF n(2), of t] nx n(1) by (simp add: keeps_def pre_def if_alive_def)
    then show ?thesis using start_handler_ok[OF ok m'(1)] rest' m'(2) by simp
  qed (use c in auto)
qed

lemma step_ok:
  assumes ok: "sys_inv s" "at_rest (sy_machine s)" and c: "can a s" and p: "polite a s" and r: "perform a s = Inr s'"
  shows "sys_inv s' \<and> at_rest (sy_machine s')"
proof -
  have okm: "okm s (sy_machine s)" using ok(1) by simp
  consider "a = SysTick" | ctx where "a = PendSV ctx" | "a \<noteq> SysTick" "\<And>ctx. a \<noteq> PendSV ctx" by blast
  then show ?thesis
  proof cases
    case 1
    then obtain m' where m': "isr_systick (sy_machine s) = Inr m'" "s' = s\<lparr>sy_machine := m'\<rparr>" using r by (auto simp: on_machine_def outcome_simps)
    have "at_rest m'" using m'(1) ok(2) by (auto simp: isr_systick_def outcome_simps at_rest_def if_alive_def)
    then show ?thesis using okm_calm[OF okm isr_systick_calm[OF m'(1)]] m'(2) by simp
  next
    case 2
    then obtain m' where m': "isr_pendsv ctx (sy_machine s) = Inr m'" "s' = s\<lparr>sy_machine := m'\<rparr>" using r by (auto simp: on_machine_def outcome_simps)
    then show ?thesis using resumed_at_rest[OF isr_pendsv_ok[OF okm m'(1)] _ _ ok(2)] pendsv_cpu[OF m'(1)] by simp
  next
    case 3
    from c 3 ok(2) obtain t th where t: "sc_m_active_thread (sy_machine s) = Some t" "ma_threads (sy_machine s) t = Some th"
      "\<not> th_m_masked_from_scheduler th" "perform a s = thread_action t a s"
      "sy_in_lock s t = None \<and> thread_can th t a s \<or> (\<exists>mx. sy_in_lock s t = Some mx \<and> a = Return_From_Lock mx)"
      by (rule acting_thread)
    from t(5) show ?thesis
    proof
      assume "sy_in_lock s t = None \<and> thread_can th t a s"
      then show ?thesis using thread_action_ok[OF ok t(1-3) _ _ p] r t(4) by simp
    next
      assume "\<exists>mx. sy_in_lock s t = Some mx \<and> a = Return_From_Lock mx"
      then obtain mx where mx: "sy_in_lock s t = Some mx" "a = Return_From_Lock mx" by blast
      then show ?thesis using return_ok[OF ok(1) mx(1) t(2,3)] ok(2) r t(4) by auto
    qed
  qed
qed


subsection \<open>The kernel starts in a good state\<close>

lemma new_queue_items: "CircularQueue_items (CircularQueue_new n) = []"
  by (simp add: CircularQueue_items_def CircularQueue_new_def)

lemma boot_machine:
  assumes "boot ns0 ns1 ns2 ns3 (Machine_reset hw contexts) = Inr m"
  obtains th0 th1 th2 th3 where
    "ma_threads m = [0 \<mapsto> th0, 1 \<mapsto> th1, 2 \<mapsto> th2, 3 \<mapsto> th3]" "ma_next m = 4"
    "CircularQueue_inv (sc_m_queued_threads m)" "ready m = [0]"
    "sc_m_dangling_threads m = CircularQueue_new 16" "sh_m_waiting_threads m = CircularQueue_new 16"
    "sc_m_active_thread m = Some 3" "sc_m_default_thread m = Some 1" "sc_m_fallback_thread m = Some 2"
    "sh_m_thread m = None" "sc_m_initialized m" "cp_ipsr m = 0" "cp_primask m = 0"
    "ma_mutex m = (\<lambda>_. KernelMutex_new)(page_allocator_mutex := KernelMutex_new\<lparr>km_m_enabled := False\<rparr>, malloc_mutex := KernelMutex_new\<lparr>km_m_enabled := False\<rparr>)"
    "th_m_privileged th0" "\<not> th_m_masked_from_scheduler th0" "th_callback th0 = Other_Code"
    "th_m_privileged th1" "\<not> th_m_masked_from_scheduler th1" "th_callback th1 = Default_Loop" "th_m_is_default_thread th1"
    "th_m_privileged th2" "\<not> th_m_masked_from_scheduler th2" "th_callback th2 = Fallback_Loop" "th_m_is_default_thread th2"
    "th_callback th3 = Other_Code"
proof -
  let ?km = "KernelMutex_new\<lparr>km_m_enabled := False\<rparr>"
  let ?m0 = "(Machine_reset hw contexts)\<lparr>ma_mutex := (\<lambda>_. KernelMutex_new)(page_allocator_mutex := ?km, malloc_mutex := ?km),
     ma_threads := [0 \<mapsto> Thread_new ''Kernel (boot_with_scheduler)''], ma_next := 1\<rparr>"
  obtain m1 th m2 where m1: "Thread_setup_context 0 Other_Code ns0 ?m0 = Inr m1" "ma_threads m1 0 = Some th"
    "Scheduler_new 0 (Thread_put 0 (th\<lparr>th_m_privileged := True\<rparr>) m1) = Inr m2" and L: "Scheduler_loop ns1 ns2 ns3 m2 = Inr m"
    using assms by (auto simp: boot_def KernelMutex_set_enabled_def put_mutex_def Thread_construct_def Machine_reset_def Let_def
        Thread_get_def outcome_simps split: option.splits)
  from m1(1) obtain th' c where t0: "m1 = (Thread_put 0 th' ?m0)\<lparr>cp_contexts := c\<rparr>" "th_callback th' = Other_Code" "\<not> th_m_masked_from_scheduler th'"
    by (rule Thread_setup_contextD[of _ _ _ _ _ "Thread_new ''Kernel (boot_with_scheduler)''"]) (simp_all add: Thread_new_def)
  then have th: "th = th'" using m1(2) by (simp add: Thread_put_def)
  let ?th0 = "th\<lparr>th_m_privileged := True\<rparr>"
  obtain x q where q: "CircularQueue_enqueue 0 (CircularQueue_new 16) = Inr (x, q)"
    "m2 = (Thread_put 0 ?th0 m1)\<lparr>sc_m_initialized := True, sc_m_queued_threads := q\<rparr>"
    using m1(3) by (auto simp: Scheduler_new_def outcome_simps t0 Thread_put_def Machine_reset_def)
  have n16: "CircularQueue_inv (CircularQueue_new 16)" by (simp add: CircularQueue_new_inv)
  note Q = cq.enqD(3,4)[OF n16 q(1)]
  obtain d m3 f m4 u m5 m6 ctx m7 where k: "new_kernel_thread ''Kernel: Default Thread'' (\<lambda>th. th\<lparr>th_m_privileged := True, th_m_is_default_thread := True\<rparr>) Default_Loop ns1 m2 = Inr (d, m3)"
    "new_kernel_thread ''Kernel: Fallback Thread'' (\<lambda>th. th\<lparr>th_m_privileged := True, th_m_is_default_thread := True\<rparr>) Fallback_Loop ns2 (m3\<lparr>sc_m_default_thread := Some d\<rparr>) = Inr (f, m4)"
    "new_kernel_thread ''Dummy'' (\<lambda>th. th\<lparr>th_m_masked_from_scheduler := True\<rparr>) Other_Code ns3 (m4\<lparr>sc_m_fallback_thread := Some f\<rparr>) = Inr (u, m5)"
    "masked_interrupts (\<lambda>m. bindE (Thread_ref u m) (\<lambda>m. Inr ((), m\<lparr>sc_m_active_thread := Some u\<rparr>))) m5 = Inr ((), m6)"
    "Thread_unstash_context u m6 = Inr (ctx, m7)" "m = m7\<lparr>cp_control := 2\<rparr>"
    using L by (auto simp: Scheduler_loop_def outcome_simps)
  from k(1) obtain th1 c1 where t1: "d = 1" "m3 = m2\<lparr>ma_next := 2, ma_threads := [0 \<mapsto> ?th0, 1 \<mapsto> th1], cp_contexts := c1\<rparr>"
    "th_callback th1 = Default_Loop" "\<not> th_m_masked_from_scheduler th1" "th_m_privileged th1" "th_m_is_default_thread th1"
    by (rule new_kernel_threadD) (simp add: Thread_new_def q t0 th Thread_put_def Machine_reset_def)
  from k(2) obtain th2 c2 where t2: "f = 2" "m4 = m3\<lparr>sc_m_default_thread := Some 1, ma_next := 3, ma_threads := [0 \<mapsto> ?th0, 1 \<mapsto> th1, 2 \<mapsto> th2], cp_contexts := c2\<rparr>"
    "th_callback th2 = Fallback_Loop" "\<not> th_m_masked_from_scheduler th2" "th_m_privileged th2" "th_m_is_default_thread th2"
    by (rule new_kernel_threadD) (simp add: Thread_new_def t1)
  from k(3) obtain th3 c3 where t3: "u = 3" "m5 = m4\<lparr>sc_m_fallback_thread := Some 2, ma_next := 4, ma_threads := [0 \<mapsto> ?th0, 1 \<mapsto> th1, 2 \<mapsto> th2, 3 \<mapsto> th3], cp_contexts := c3\<rparr>"
    "th_callback th3 = Other_Code"
    by (rule new_kernel_threadD) (simp add: Thread_new_def t2)
  have pm: "cp_primask m5 = 0" by (simp add: t3 t2 t1 q t0 Thread_put_def Machine_reset_def)
  from k(4) have m6: "m6 = m5\<lparr>cp_primask := 0, ma_threads := [0 \<mapsto> ?th0, 1 \<mapsto> th1, 2 \<mapsto> th2, 3 \<mapsto> th3\<lparr>th_m_refcount := th_m_refcount th3 + 1\<rparr>],
      sc_m_active_thread := Some 3\<rparr>"
    by (rule masked_interruptsD[OF _ pm]) (auto simp: t3(1) Thread_ref_def Thread_get_def Thread_put_def outcome_simps t3(2))
  obtain th3' where m7: "m7 = Thread_put 3 th3' m6" "th_callback th3' = Other_Code"
    using k(5) t3 by (auto simp: Thread_unstash_context_def Thread_get_def outcome_simps m6 split: option.splits)
  show thesis
    by (rule that[of ?th0 th1 th2 th3'])
      (use Q t1(3-6) t2(3-6) t0(2,3) th m7(2) in \<open>simp_all add: k(6) m7(1) m6 t3(2) t2(2) t1(2) q(2) t0(1) Thread_put_def Machine_reset_def new_queue_items\<close>)
qed

lemma started_machine:
  assumes "started nss hw contexts = Inr s"
  obtains m th0 th1 th2 th3 where
    "s = \<lparr>sy_machine = m, sy_local = (\<lambda>_. None), sy_in_lock = (\<lambda>_. None), sy_inside = (\<lambda>_. [])\<rparr>"
    "ma_threads m = [0 \<mapsto> th0, 1 \<mapsto> th1, 2 \<mapsto> th2, 3 \<mapsto> th3]" "ma_next m = 4"
    "CircularQueue_inv (sc_m_queued_threads m)" "ready m = [0]"
    "sc_m_dangling_threads m = CircularQueue_new 16" "sh_m_waiting_threads m = CircularQueue_new 16"
    "sc_m_active_thread m = Some 3" "sc_m_default_thread m = Some 1" "sc_m_fallback_thread m = Some 2"
    "sh_m_thread m = None" "ma_mutex m = (\<lambda>_. KernelMutex_new)" "sc_m_initialized m" "sc_m_enabled m"
    "cp_ipsr m = 0" "cp_primask m = 0" "cp_pendsvset m"
    "th_m_privileged th0" "\<not> th_m_masked_from_scheduler th0" "th_callback th0 = Other_Code"
    "th_m_privileged th1" "\<not> th_m_masked_from_scheduler th1" "th_callback th1 = Default_Loop" "th_m_is_default_thread th1"
    "th_m_privileged th2" "\<not> th_m_masked_from_scheduler th2" "th_callback th2 = Fallback_Loop" "th_m_is_default_thread th2"
    "th_callback th3 = Other_Code"
proof -
  obtain m1 m where m1: "boot (nss ! 0) (nss ! 1) (nss ! 2) (nss ! 3) (Machine_reset hw contexts) = Inr m1" and m: "dummy_callback m1 = Inr m"
    and s: "s = \<lparr>sy_machine = m, sy_local = (\<lambda>_. None), sy_in_lock = (\<lambda>_. None), sy_inside = (\<lambda>_. [])\<rparr>"
    using assms by (auto simp: started_def outcome_simps)
  have en: "KernelMutex_new\<lparr>km_m_enabled := True\<rparr> = KernelMutex_new" by (simp add: KernelMutex_new_def)
  from m1 show thesis
  proof (rule boot_machine, goal_cases)
    case (1 th0 th1 th2 th3)
    have mx: "(ma_mutex m1)(malloc_mutex := (ma_mutex m1 malloc_mutex)\<lparr>km_m_enabled := True\<rparr>,
        page_allocator_mutex := (ma_mutex m1 page_allocator_mutex)\<lparr>km_m_enabled := True\<rparr>) = (\<lambda>_. KernelMutex_new)"
      by (rule ext) (simp add: 1(14) en)
    have e: "m = m1\<lparr>ma_mutex := \<lambda>_. KernelMutex_new, sc_m_enabled := True, cp_pendsvset := True\<rparr>"
      using m mx by (auto simp: dummy_callback_def KernelMutex_set_enabled_def put_mutex_def Let_def dest!: Scheduler_triggerD)
    show ?case by (rule that[OF s, of th0 th1 th2 th3]) (use 1 in \<open>simp_all add: e\<close>)
  qed
qed

lemma started_ok:
  assumes "started nss hw contexts = Inr s"
  shows "sys_inv s \<and> at_rest (sy_machine s)"
  using assms
proof (rule started_machine)
  fix m th0 th1 th2 th3
  assume s: "s = \<lparr>sy_machine = m, sy_local = (\<lambda>_. None), sy_in_lock = (\<lambda>_. None), sy_inside = (\<lambda>_. [])\<rparr>"
    and m: "ma_threads m = [0 \<mapsto> th0, 1 \<mapsto> th1, 2 \<mapsto> th2, 3 \<mapsto> th3]" "ma_next m = 4"
    "CircularQueue_inv (sc_m_queued_threads m)" "ready m = [0]"
    "sc_m_dangling_threads m = CircularQueue_new 16" "sh_m_waiting_threads m = CircularQueue_new 16"
    "sc_m_active_thread m = Some 3" "sc_m_default_thread m = Some 1" "sc_m_fallback_thread m = Some 2"
    "sh_m_thread m = None" "ma_mutex m = (\<lambda>_. KernelMutex_new)" "sc_m_initialized m" "sc_m_enabled m"
    "cp_ipsr m = 0" "cp_primask m = 0" "cp_pendsvset m"
    and th: "th_m_privileged th0" "\<not> th_m_masked_from_scheduler th0" "th_callback th0 = Other_Code"
    "th_m_privileged th1" "\<not> th_m_masked_from_scheduler th1" "th_callback th1 = Default_Loop" "th_m_is_default_thread th1"
    "th_m_privileged th2" "\<not> th_m_masked_from_scheduler th2" "th_callback th2 = Fallback_Loop" "th_m_is_default_thread th2"
    "th_callback th3 = Other_Code"
  have new: "CircularQueue_inv (CircularQueue_new 16)" by (simp add: CircularQueue_new_inv)
  have none: "\<not> in_call s u" for u
    using th by (auto simp: s m in_call_def taken_by_def works_for_def new_queue_items split: if_splits)
  have "sys_inv s"
  proof (rule sys_invI)
    show "queues_ok (sy_machine s)" by (simp add: queues_ok_def s m new KernelMutex_new_def)
    show "ready_ok (sy_machine s)" using th by (simp add: ready_ok_def s m if_alive_def)
    show "specials_ok s" using th by (simp add: specials_ok_def specials_def s m if_alive_def)
    show "waiting_ok s" "locks_ok s" "users_ok s" by (simp_all add: waiting_ok_def locks_ok_def users_ok_def s m if_alive_def KernelMutex_new_def new_queue_items)
    show "in_call s u \<Longrightarrow> call_ok s u" for u using none by blast
    show "calls_distinct s" using th by (auto simp: calls_distinct_def s m taken_by_def works_for_def new_queue_items split: if_splits)
    show "handler_ok s" using th by (simp add: handler_ok_def s m if_alive_def)
    show "fresh_ok s" by (simp add: fresh_ok_def specials_def s m)
  qed
  then show ?thesis using th by (simp add: at_rest_def s m if_alive_def)
qed

lemma run_ok:
  assumes "kernel_run polite s0 s" and "sys_inv s0 \<and> at_rest (sy_machine s0)"
  shows "sys_inv s \<and> at_rest (sy_machine s)"
  using assms by (induction rule: kernel_run.induct) (use step_ok in blast)+


text \<open>
  C0. Mutual exclusion: in every state that the started kernel reaches by interleaving interrupts, system
  calls and the actions of its threads, a thread that has returned from \<^verbatim>\<open>KernelMutex::lock\<close> and not yet
  called \<^verbatim>\<open>unlock\<close> is the holder of the mutex, so there is at most one, provided that the default thread never
  has to wait for a mutex and no system call comes while the system handler's thread waits for one.
\<close>
theorem only_the_holder_is_inside:
  assumes "started nss hw contexts = Inr s0" and "kernel_run polite s0 s"
  shows "set (sy_inside s mx) \<subseteq> set_option (holder (sy_machine s) mx)"
proof -
  have "locks_ok s" using run_ok[OF assms(2) started_ok[OF assms(1)]] by (simp add: sys_inv_def)
  then show ?thesis by (auto simp: locks_ok_def)
qed

subsection \<open>Concrete runs\<close>

fun run_actions :: "(action \<Rightarrow> System \<Rightarrow> bool) \<Rightarrow> action list \<Rightarrow> System \<Rightarrow> System option" where
  "run_actions ok [] s = Some s"
| "run_actions ok (a # as) s =
     (if can a s \<and> ok a s then (case perform a s of Inl _ \<Rightarrow> None | Inr s' \<Rightarrow> run_actions ok as s') else None)"

lemma run_actions_kernel_run: "run_actions ok as s = Some s' \<Longrightarrow> kernel_run ok s0 s \<Longrightarrow> kernel_run ok s0 s'"
  by (induction as arbitrary: s) (auto split: if_splits sum.splits intro: kernel_step)

lemma bindE_weak_cong: "m = m' \<Longrightarrow> bindE m f = bindE m' f" by simp
lemma checkE_weak_cong: "b = b' \<Longrightarrow> checkE b e k = checkE b' e k" by simp
definition example_mpu :: MPUHardware where
  "example_mpu = \<lparr>mp_ctrl = 0, mp_rnr = 0, mp_rbar = replicate 8 0, mp_rasr = replicate 8 0\<rparr>"
definition example_context :: FullRegisterContext where
  "example_context = \<lparr>fr_r11 = 0, fr_r10 = 0, fr_r9 = 0, fr_r8 = 0, fr_r7 = 0, fr_r6 = 0, fr_r5 = 0, fr_r4 = 0,
     fr_r0 = 1, fr_r1 = 0, fr_r2 = 0, fr_r3 = 0, fr_ip = 0, fr_lr = 0, fr_pc = 0, fr_xpsr = 0\<rparr>"
definition example_stack :: "uptr \<Rightarrow> NewStack" where
  "example_stack base = \<lparr>ns_data = base, ns_bytes = replicate 64 0, ns_container = [], ns_wrapper = 0x10000101\<rparr>"

definition example_region :: "uptr \<Rightarrow> Region" where
  "example_region base = (case stack_region base 64 of Inl _ \<Rightarrow> undefined | Inr r \<Rightarrow> r)"

lemma size64: "MPU_compute_size 64 = Inr 5"
  by code_simp

lemma example_region: "stack_region base 64 = Inr (example_region base)" "region_ok (example_region base)"
  by (simp_all add: example_region_def stack_region_def size64 region_ok_def)

definition mpu_after :: "Region list \<Rightarrow> MPUHardware \<Rightarrow> MPUHardware" where
  "mpu_after rs hw = (case setup_mpu rs hw of Inl _ \<Rightarrow> undefined | Inr hw \<Rightarrow> hw)"

lemma setup_mpu_after:
  assumes "mpu_ok hw" and "rs \<noteq> []" and "length rs \<le> 8" and "list_all region_ok rs"
  shows "setup_mpu rs hw = Inr (mpu_after rs hw)" "mpu_ok (mpu_after rs hw)"
  by (rule setup_mpu_succeeds[OF assms]; simp add: mpu_after_def)+

definition first_context :: "uptr \<Rightarrow> FullRegisterContext" where
  "first_context base = \<lparr>fr_r11 = 0, fr_r10 = 0, fr_r9 = 0, fr_r8 = 0, fr_r7 = 0, fr_r6 = 0, fr_r5 = 0, fr_r4 = 0,
     fr_r0 = base + 64, fr_r1 = 0, fr_r2 = 0, fr_r3 = 0, fr_ip = 0, fr_lr = 0, fr_pc = 0x10000101, fr_xpsr = push_bit 24 1\<rparr>"

lemma setup_example:
  assumes "base \<le> base + 64" and "(base + 64) mod 8 = 0"
  shows "Thread_setup_context t cb (example_stack base) m =
    bindE (Thread_get t m) (\<lambda>th. checkE (th_m_stashed_context th = None) (VERIFY ''!m_stashed_context.is_valid()'')
      (Inr (m\<lparr>ma_threads := (ma_threads m)(t \<mapsto> th\<lparr>th_m_regions := th_m_regions th @ [example_region base],
          th_callback := cb, th_m_stashed_context := Some base\<rparr>),
        cp_contexts := (cp_contexts m)(base := first_context base)\<rparr>)))"
  using assms by (cases "ma_threads m t")
    (simp_all add: Thread_setup_context_def example_stack_def example_region(1) Thread_get_def Thread_put_def Let_def
      StackWrapper_push_def StackWrapper_new_def StackWrapper_reserve_def StackWrapper_store_def Thread_setup_context_impl_def
      StackWrapper_align_def first_context_def)

lemma rep16: "replicate 16 x = [x, x, x, x, x, x, x, x, x, x, x, x, x, x, x, x]" by (simp add: numeral_eq_Suc)

definition example_start :: "System outcome" where
  "example_start = started [example_stack 0x20001000, example_stack 0x20002000, example_stack 0x20003000, example_stack 0x20004000]
     example_mpu (\<lambda>_. example_context)"

lemma example_mpu_ok: "mpu_ok example_mpu" by (simp add: mpu_ok_def example_mpu_def)

lemma flash_region_ok: "region_ok flash_region" by (simp add: flash_region_def region_ok_def)

lemmas queue_exec = CircularQueue_new_def CircularQueue_enqueue_def CircularQueue_back_def CircularQueue_capacity_def slot_read_def
  CircularQueue_dequeue_def CircularQueue_front_def CircularQueue_front_offset_def CircularQueue_size_def rep16

lemmas boot_exec = example_start_def setup_example started_def boot_def KernelMutex_set_enabled_def Thread_construct_def Thread_new_def
  Scheduler_new_def Scheduler_loop_def new_kernel_thread_def Machine_reset_def KernelMutex_new_def dummy_callback_def

lemmas machine_exec = put_mutex_def Thread_get_def Thread_put_def masked_interrupts_def MaskedInterruptGuard_new_def
  MaskedInterruptGuard_destroy_def MaskedInterruptGuard_release_early_def disable_interrupts_def enable_interrupts_def
  restore_interrupts_def are_interrupts_enabled_def Thread_ref_def Thread_unref_def Thread_unstash_context_def
  Thread_stash_context_def Scheduler_trigger_def is_executing_in_thread_mode_def is_executing_in_handler_mode_def
  is_executing_privileged_def get_active_thread_if_avaliable_def get_active_thread_def clear_active_thread_def
  Thread_set_masked_from_scheduler_def KernelMutex_lock_def KernelMutex_unlock_def KernelMutex_is_locked_def
  ref_pointer_def unref_pointer_def deref_def Thread_wakeup_def Thread_die_def Scheduler_add_thread_def
  schedule_put_away_def schedule_choose_def choose_default_thread_def schedule_dispatch_def Scheduler_schedule_def
  scheduler_next_def isr_systick_def isr_pendsv_def isr_svcall_def pendsv_due_def on_machine_def Process_create_thread_def
  hand_over_to_loaded_executable_def SystemHandler_initialize_def SystemHandler_new_def SystemHandler_syscall_def
  notify_worker_thread_def SystemHandler_loop_check_def handle_next_take_def default_loop_take_def default_loop_kill_def

lemmas region_exec = setup_mpu_after example_region(2) flash_region_ok example_mpu_ok

lemma one_owner: "\<not> (2 :: usize) \<le> 1" by code_simp

lemmas exec = one_owner queue_exec boot_exec machine_exec region_exec Let_def

definition handover_run :: "action list" where
  "handover_run = [PendSV 1, Create_Process ''a'' 0 (example_stack 0x20006000), Lock malloc_mutex, SysTick, PendSV 2,
     Lock malloc_mutex, PendSV 3, Unlock malloc_mutex, SysTick, PendSV 4, Return_From_Lock malloc_mutex]"

lemma handover_run_ends:
  "\<exists>s0. example_start = Inr s0 \<and> (\<exists>s. run_actions polite handover_run s0 = Some s \<and> sy_inside s malloc_mutex = [4])"
  by (simp add: exec specials_def handover_run_def cong: bindE_weak_cong checkE_weak_cong)

lemma only_the_holder_is_inside_witness:
  "\<exists>s :: System. 4 \<in> set (sy_inside s malloc_mutex) \<and> set (sy_inside s malloc_mutex) \<subseteq> set_option (holder (sy_machine s) malloc_mutex)"
proof -
  obtain s0 s where s0: "example_start = Inr s0" and s: "run_actions polite handover_run s0 = Some s" "sy_inside s malloc_mutex = [4]"
    using handover_run_ends by blast
  have "kernel_run polite s0 s" by (rule run_actions_kernel_run[OF s(1) kernel_start])
  then have "set (sy_inside s malloc_mutex) \<subseteq> set_option (holder (sy_machine s) malloc_mutex)"
    by (rule only_the_holder_is_inside[OF s0[unfolded example_start_def]])
  with s(2) have "4 \<in> set (sy_inside s malloc_mutex) \<and> set (sy_inside s malloc_mutex) \<subseteq> set_option (holder (sy_machine s) malloc_mutex)"
    by simp
  then show ?thesis by (rule exI)
qed

subsection \<open>The two steps that break mutual exclusion\<close>

text \<open>Politeness without one of its two conditions.\<close>

fun calls_at_any_time :: "action \<Rightarrow> System \<Rightarrow> bool" where
  "calls_at_any_time (SVCall ctx) s \<longleftrightarrow> True"
| "calls_at_any_time a s \<longleftrightarrow> polite a s"

fun default_thread_waits :: "action \<Rightarrow> System \<Rightarrow> bool" where
  "default_thread_waits (Lock mx) s \<longleftrightarrow> True"
| "default_thread_waits a s \<longleftrightarrow> polite a s"

definition late_call_run :: "action list" where
  "late_call_run = [PendSV 1, Start_Handler (example_stack 0x20005000), Create_Process ''a'' 0 (example_stack 0x20006000),
     Create_Process ''b'' 1 (example_stack 0x20007000), SysTick, PendSV 2, Hand_Over, SVCall 3, Hand_Over, SysTick, PendSV 4,
     Lock malloc_mutex, SysTick, PendSV 5, Handler_Round, Lock malloc_mutex, PendSV 6, SVCall 7, SysTick, PendSV 8,
     Return_From_Lock malloc_mutex]"

lemma late_call_run_ends:
  "\<exists>s0. example_start = Inr s0 \<and> (\<exists>s. run_actions calls_at_any_time late_call_run s0 = Some s \<and> sy_inside s malloc_mutex = [4, 0])"
  by (simp add: exec specials_def late_call_run_def cong: bindE_weak_cong checkE_weak_cong)

definition default_waits_run :: "action list" where
  "default_waits_run = [PendSV 1, Create_Process ''a'' 0 (example_stack 0x20006000), Create_Process ''b'' 1 (example_stack 0x20007000),
     Create_Process ''c'' 2 (example_stack 0x20008000), Lock malloc_mutex, SysTick, PendSV 2, Die, PendSV 3, Default_Round,
     Lock malloc_mutex, PendSV 4, SysTick, PendSV 5, SysTick, PendSV 6, Unlock malloc_mutex, Die, PendSV 7,
     Return_From_Lock malloc_mutex, Unlock malloc_mutex, Default_Kill, Default_Round, Default_Kill, Default_Round, PendSV 8,
     Lock malloc_mutex, SysTick, PendSV 9, Die, PendSV 10, Default_Round, Lock malloc_mutex, PendSV 11,
     Return_From_Lock malloc_mutex]"

lemma default_waits_run_ends:
  "\<exists>s0. example_start = Inr s0 \<and> (\<exists>s. run_actions default_thread_waits default_waits_run s0 = Some s \<and> distinct (sy_inside s malloc_mutex) \<and> length (sy_inside s malloc_mutex) = 2)"
  by (simp add: exec specials_def default_waits_run_def cong: bindE_weak_cong checkE_weak_cong)

text \<open>
  C0. The two conditions of the previous property are needed: on a kernel booted with four stacks, one run in
  which a system call comes while the system handler's thread waits for \<^verbatim>\<open>malloc_mutex\<close>, and one in which
  the default thread has to wait for it, both end with two different threads inside the mutex.
\<close>
theorem exclusion_breaks:
  "\<exists>s0. example_start = Inr s0 \<and>
     (\<exists>s. kernel_run calls_at_any_time s0 s \<and> sy_inside s malloc_mutex = [4, 0]) \<and>
     (\<exists>s. kernel_run default_thread_waits s0 s \<and> distinct (sy_inside s malloc_mutex) \<and> length (sy_inside s malloc_mutex) = 2)"
proof -
  obtain s0 s where s: "example_start = Inr s0" "run_actions calls_at_any_time late_call_run s0 = Some s" "sy_inside s malloc_mutex = [4, 0]"
    using late_call_run_ends by blast
  obtain s1 s' where s': "example_start = Inr s1" "run_actions default_thread_waits default_waits_run s1 = Some s'"
    "distinct (sy_inside s' malloc_mutex)" "length (sy_inside s' malloc_mutex) = 2"
    using default_waits_run_ends by blast
  have "Inr s0 = (Inr s1 :: System outcome)" using s(1) s'(1) by (rule trans[OF sym])
  then have "s1 = s0" by simp
  then show ?thesis using s s' run_actions_kernel_run[OF s(2) kernel_start] run_actions_kernel_run[OF s'(2) kernel_start] by blast
qed

end
