(* ===== verification/Spec2Isabelle.thy ===== *)
theory Spec2Isabelle
  imports Circular_Queue Paths Values Owning Vectors Formatting Console Processes_Roundtrip Heap_Runs Hash_Map Pages Regions
    Kernel_Properties
begin

text \<open>A verification library for the PicoOS kernel.\<close>

end
